(* ===== verification/Prelude.thy ===== *)
theory Prelude
  imports Main "HOL-Library.Word"
begin

text \<open>
  What every component of the model shares: the result type of C code that may abort or run
  forever, arithmetic on \<open>size_t\<close> and \<open>int\<close>, the rounding macro of \<open>include/utils.h\<close>, the sizes of
  \<open>include/constants.h\<close>, and generic lemmas on lists.
\<close>

named_theorems prog_simps \<open>evaluation rules of the result type\<close>
named_theorems size_simps \<open>machine arithmetic below the wrap-around\<close>

section \<open>Results: a value, an abort, or no return\<close>

text \<open>
  A C function that may stop the process (a failed \<open>assert\<close>, a call of \<open>abort()\<close>, a fault) or loop
  forever has a result of type \<open>'a prog\<close>: \<open>Some (Inr x)\<close> is a normal return of \<open>x\<close>, \<open>Some (Inl e)\<close>
  the end of the process, \<open>None\<close> a loop that is never left (the least fixed point of
  \<open>partial_function (option)\<close>).
\<close>

datatype failure =
    Assertion string  \<comment> \<open>a failed \<open>assert(...)\<close>\<close>
  | Abort string      \<comment> \<open>a message on stderr followed by \<open>abort()\<close>\<close>
  | Fault string      \<comment> \<open>a use of a null or dangling pointer\<close>

type_synonym 'a prog = "(failure + 'a) option"

definition ret :: "'a \<Rightarrow> 'a prog" where
  "ret x = Some (Inr x)"

definition abort_with :: "string \<Rightarrow> 'a prog" where
  "abort_with msg = Some (Inl (Abort msg))"

definition pbind :: "'a prog \<Rightarrow> ('a \<Rightarrow> 'b prog) \<Rightarrow> 'b prog" where
  "pbind p f = Option.bind p (\<lambda>r. case r of Inl e \<Rightarrow> Some (Inl e) | Inr x \<Rightarrow> f x)"

definition fault :: "string \<Rightarrow> 'a prog" where
  "fault what = Some (Inl (Fault what))"

definition guard :: "bool \<Rightarrow> string \<Rightarrow> 'a prog \<Rightarrow> 'a prog" where
  "guard b what p = (if b then p else Some (Inl (Assertion what)))"

lemma pbind_ret [simp, prog_simps]: "pbind (ret x) f = f x"
  by (simp add: pbind_def ret_def)

lemma pbind_abort [simp, prog_simps]: "pbind (abort_with msg) f = abort_with msg"
  by (simp add: pbind_def abort_with_def)

lemma pbind_fault [simp, prog_simps]: "pbind (fault what) f = fault what"
  by (simp add: pbind_def fault_def)

lemma pbind_None [simp, prog_simps]: "pbind None f = None"
  by (simp add: pbind_def)

lemma pbind_assoc [prog_simps]: "pbind (pbind p f) g = pbind p (\<lambda>x. pbind (f x) g)"
  by (cases p) (auto simp: pbind_def split: sum.splits)

lemma guard_True [simp, prog_simps]: "b \<Longrightarrow> guard b what p = p"
  by (simp add: guard_def)

lemma ret_eq_iff [simp]: "ret x = ret y \<longleftrightarrow> x = y"
  by (simp add: ret_def)

lemma ret_neq [simp]: "ret x \<noteq> None" "ret x \<noteq> abort_with msg" "abort_with msg \<noteq> ret x"
  "fault what \<noteq> ret x" "ret x \<noteq> fault what"
  by (simp_all add: ret_def abort_with_def fault_def)

lemma pbind_eq_ret: "pbind p f = ret y \<longleftrightarrow> (\<exists>x. p = ret x \<and> f x = ret y)"
  by (cases p) (auto simp: pbind_def ret_def split: sum.splits)

lemma guard_eq_ret: "guard b what p = ret y \<longleftrightarrow> b \<and> p = ret y"
  by (simp add: guard_def ret_def)

lemma pbind_mono [partial_function_mono]:
  assumes "mono_option (\<lambda>f. B f)" and "\<And>y. mono_option (\<lambda>f. C y f)"
  shows "mono_option (\<lambda>f. pbind (B f) (\<lambda>y. C y f))"
  unfolding pbind_def
  apply (rule bind_mono [OF assms(1)])
  subgoal for r
    using assms(2) by (cases r) (simp_all add: monotone_def option.leq_refl)
  done

lemma guard_mono [partial_function_mono]:
  assumes "mono_option (\<lambda>f. B f)"
  shows "mono_option (\<lambda>f. guard b what (B f))"
  using assms by (cases b) (simp_all add: guard_def monotone_def option.leq_refl)

section \<open>Machine arithmetic\<close>

text \<open>
  \<open>size_t\<close>, \<open>uintptr_t\<close> and \<open>unsigned long\<close> are 64 bits wide: values are naturals below \<open>2 ^ 64\<close>
  and each operation that can leave that range is reduced. Pointers are naturals too, with \<open>0\<close> for
  \<open>NULL\<close>; adding to a pointer past the address space is undefined in C and is not reduced here.
\<close>

type_synonym addr = nat

definition size_t :: "nat \<Rightarrow> nat" where
  "size_t n = n mod 2 ^ 64"

definition size_add :: "nat \<Rightarrow> nat \<Rightarrow> nat" where
  "size_add a b = (a + b) mod 2 ^ 64"

definition size_sub :: "nat \<Rightarrow> nat \<Rightarrow> nat" where
  "size_sub a b = (a + 2 ^ 64 - b) mod 2 ^ 64"

definition size_mul :: "nat \<Rightarrow> nat \<Rightarrow> nat" where
  "size_mul a b = (a * b) mod 2 ^ 64"

text \<open>A value stored into an \<open>int\<close> keeps its low 32 bits, read as two's complement.\<close>

definition c_int :: "int \<Rightarrow> int" where
  "c_int n = (n + 2 ^ 31) mod 2 ^ 32 - 2 ^ 31"

lemma size_t_small [simp, size_simps]: "n < 2 ^ 64 \<Longrightarrow> size_t n = n"
  by (simp add: size_t_def)

lemma size_add_small [simp, size_simps]: "a + b < 2 ^ 64 \<Longrightarrow> size_add a b = a + b"
  by (simp add: size_add_def)

lemma size_sub_small [simp, size_simps]: "b \<le> a \<Longrightarrow> a < 2 ^ 64 \<Longrightarrow> size_sub a b = a - b"
proof -
  assume "b \<le> a" "a < 2 ^ 64"
  then have "a + 2 ^ 64 - b = (a - b) + 2 ^ 64" by simp
  with \<open>a < 2 ^ 64\<close> show ?thesis unfolding size_sub_def by (metis less_imp_diff_less mod_add_self2 mod_less)
qed

lemma size_mul_small [simp, size_simps]: "a * b < 2 ^ 64 \<Longrightarrow> size_mul a b = a * b"
  by (simp add: size_mul_def)

lemma size_bounds [simp]: "size_t n < 2 ^ 64" "size_add a b < 2 ^ 64" "size_sub a b < 2 ^ 64" "size_mul a b < 2 ^ 64"
  by (simp_all add: size_t_def size_add_def size_sub_def size_mul_def)

lemma c_int_small [simp, size_simps]: "- (2 ^ 31) \<le> n \<Longrightarrow> n < 2 ^ 31 \<Longrightarrow> c_int n = n"
  by (simp add: c_int_def)

section \<open>Constants and macros\<close>

definition BLOCK_SIZE :: nat where [simp]: "BLOCK_SIZE = 32768"
definition LINE_SIZE :: nat where [simp]: "LINE_SIZE = 256"
definition LINE_COUNT :: nat where [simp]: "LINE_COUNT = 127"
definition LARGE_OBJECT_SIZE :: nat where [simp]: "LARGE_OBJECT_SIZE = 8192"
definition GROWTH_RATE :: nat where [simp]: "GROWTH_RATE = 30"
definition WORD_SIZE :: nat where [simp]: "WORD_SIZE = 8"
definition GC_INITIAL_HEAP_SIZE :: nat where [simp]: "GC_INITIAL_HEAP_SIZE = 4 * 1024 * 1024"
definition GC_FREE_SPACE_DIVISOR :: nat where [simp]: "GC_FREE_SPACE_DIVISOR = 3"

text \<open>\<open>ROUND_TO_NEXT_MULTIPLE(size, multiple)\<close> of \<open>include/utils.h\<close>, on \<open>size_t\<close> operands.\<close>

definition ROUND_TO_NEXT_MULTIPLE :: "nat \<Rightarrow> nat \<Rightarrow> nat" where
  "ROUND_TO_NEXT_MULTIPLE sz multiple =
     size_mul (size_sub (size_add sz multiple) 1 div multiple) multiple"

lemma ROUND_small:
  assumes "0 < k" and "n + k < 2 ^ 64"
  shows "ROUND_TO_NEXT_MULTIPLE n k = (n + k - 1) div k * k"
proof -
  have "(n + k - 1) div k * k \<le> n + k - 1" by (rule div_times_less_eq_dividend)
  then have "(n + k - 1) div k * k < 2 ^ 64" using assms by linarith
  with assms show ?thesis
    by (simp add: ROUND_TO_NEXT_MULTIPLE_def)
qed

lemma ROUND_props:
  assumes "0 < k" and "n + k < 2 ^ 64"
  shows "k dvd ROUND_TO_NEXT_MULTIPLE n k"
    and "n \<le> ROUND_TO_NEXT_MULTIPLE n k"
    and "ROUND_TO_NEXT_MULTIPLE n k < n + k"
proof -
  let ?q = "(n + k - 1) div k"
  have le: "?q * k \<le> n + k - 1" by (rule div_times_less_eq_dividend)
  have less: "n + k - 1 < ?q * k + k"
    using assms(1) by (metis add.commute dividend_less_div_times mult.commute)
  have eq: "ROUND_TO_NEXT_MULTIPLE n k = ?q * k"
    using assms by (rule ROUND_small)
  show "k dvd ROUND_TO_NEXT_MULTIPLE n k" by (simp add: eq)
  show "n \<le> ROUND_TO_NEXT_MULTIPLE n k" unfolding eq using less by linarith
  show "ROUND_TO_NEXT_MULTIPLE n k < n + k" unfolding eq using le assms(1) by linarith
qed

section \<open>Lists and options\<close>

lemma option_eqI: "(\<And>v. a = Some v \<longleftrightarrow> b = Some v) \<Longrightarrow> a = b"
  by (cases a; cases b) auto

lemma length_filter_update:
  assumes "i < length xs"
  shows "length (filter P (xs[i := x])) + (if P (xs ! i) then 1 else 0)
       = length (filter P xs) + (if P x then 1 else 0)"
  using assms
proof (induction xs arbitrary: i)
  case (Cons y ys)
  then show ?case by (cases i) auto
qed simp

lemma length_filter_pos:
  "i < length xs \<Longrightarrow> P (xs ! i) \<Longrightarrow> 0 < length (filter P xs)"
  by (metis filter_empty_conv length_greater_0_conv nth_mem)

end
