(* ===== verification/Murmur.thy ===== *)
theory Murmur
  imports Prelude
begin

unbundle bit_operations_syntax

text \<open>
  \<open>MurmurHash2\<close> of \<open>include/murmur.h\<close> on 32-bit words, for a byte sequence whose length is the \<open>len\<close>
  argument; the 4-byte reads are little-endian, as on the machines the library runs on.
\<close>

type_synonym hash_t = "32 word"

definition murmur_m :: "32 word" where "murmur_m = 0x5bd1e995"

definition read32 :: "8 word \<Rightarrow> 8 word \<Rightarrow> 8 word \<Rightarrow> 8 word \<Rightarrow> 32 word" where
  "read32 a b c d = of_nat (unat a + 256 * unat b + 65536 * unat c + 16777216 * unat d)"

definition murmur_mix :: "32 word \<Rightarrow> 32 word \<Rightarrow> 32 word" where
  "murmur_mix h k0 =
     (let k = k0 * murmur_m;
          k = k XOR drop_bit 24 k;
          k = k * murmur_m
      in h * murmur_m XOR k)"

text \<open>The loop \<open>while (len >= 4)\<close>; what is left over has fewer than four bytes.\<close>

fun murmur_body :: "32 word \<Rightarrow> 8 word list \<Rightarrow> 32 word \<times> 8 word list" where
  "murmur_body h (a # b # c # d # rest) = murmur_body (murmur_mix h (read32 a b c d)) rest"
| "murmur_body h rest = (h, rest)"

text \<open>The \<open>switch (len)\<close> with its fall-throughs.\<close>

fun murmur_tail :: "32 word \<Rightarrow> 8 word list \<Rightarrow> 32 word" where
  "murmur_tail h [a, b, c] =
     (h XOR push_bit 16 (ucast c) XOR push_bit 8 (ucast b) XOR ucast a) * murmur_m"
| "murmur_tail h [a, b] = (h XOR push_bit 8 (ucast b) XOR ucast a) * murmur_m"
| "murmur_tail h [a] = (h XOR ucast a) * murmur_m"
| "murmur_tail h rest = h"

definition murmur_final :: "32 word \<Rightarrow> 32 word" where
  "murmur_final h0 =
     (let h = h0 XOR drop_bit 13 h0;
          h = h * murmur_m
      in h XOR drop_bit 15 h)"

definition MurmurHash2 :: "8 word list \<Rightarrow> 32 word \<Rightarrow> 32 word" where
  "MurmurHash2 data seed =
     (let h = seed XOR of_nat (length data);
          (h, rest) = murmur_body h data
      in murmur_final (murmur_tail h rest))"

text \<open>\<open>HASH(x)\<close> of \<open>src/hash.c\<close>: the eight bytes of the pointer itself, with a fixed seed.\<close>

definition SEED :: "32 word" where "SEED = 0x33da085c"

definition key_bytes :: "addr \<Rightarrow> 8 word list" where
  "key_bytes key = map (\<lambda>i. of_nat (key div 256 ^ i)) [0..<WORD_SIZE]"

definition HASH :: "addr \<Rightarrow> hash_t" where
  "HASH key = MurmurHash2 (key_bytes key) SEED"

section \<open>The hash of a pointer\<close>

lemma read32_le_bytes:
  "read32 (of_nat k) (of_nat (k div 256)) (of_nat (k div 65536)) (of_nat (k div 16777216)) = of_nat k"
proof -
  have "k mod 256 + 256 * (k div 256 mod 256) + 65536 * (k div 65536 mod 256)
      + 16777216 * (k div 16777216 mod 256) = k mod 2 ^ 32"
    using mod_mult2_eq [of k 256 16777216] mod_mult2_eq [of "k div 256" 256 65536]
      mod_mult2_eq [of "k div 65536" 256 256]
    by (simp add: div_mult2_eq [symmetric])
  then have "read32 (of_nat k) (of_nat (k div 256)) (of_nat (k div 65536)) (of_nat (k div 16777216))
      = (of_nat (k mod 2 ^ 32) :: 32 word)"
    by (simp add: read32_def unat_of_nat)
  also have "\<dots> = of_nat k"
    by (rule unsigned_word_eqI [where ?'a = nat]) (simp add: unat_of_nat)
  finally show ?thesis .
qed

lemma upt_0_8: "[0..<8] = [0, 1, 2, 3, 4, 5, 6, 7 :: nat]"
  by (simp add: upt_rec)

text \<open>
  Unrolled: two rounds of mixing, over the low and the high half of the pointer, and the final
  mixing.
\<close>

lemma HASH_unrolled:
  "HASH key = murmur_final
     (murmur_mix (murmur_mix (SEED XOR 8) (of_nat key)) (of_nat (key div 2 ^ 32)))"
proof -
  have hi: "read32 (of_nat (key div 4294967296)) (of_nat (key div 1099511627776))
      (of_nat (key div 281474976710656)) (of_nat (key div 72057594037927936)) = of_nat (key div 4294967296)"
    using read32_le_bytes [of "key div 4294967296"] by (simp add: div_mult2_eq [symmetric])
  show ?thesis
    by (simp add: HASH_def MurmurHash2_def key_bytes_def upt_0_8 read32_le_bytes hi)
qed

lemmas HASH_eval = HASH_unrolled SEED_def murmur_final_def murmur_mix_def murmur_m_def Let_def

section \<open>Distinct hashes\<close>

lemma mult_m_inj: "x * murmur_m = y * murmur_m \<Longrightarrow> x = y"
proof -
  have inv: "murmur_m * 0xe59b19bd = 1" by (simp add: murmur_m_def)
  assume "x * murmur_m = y * murmur_m"
  then have "x * (murmur_m * 0xe59b19bd) = y * (murmur_m * 0xe59b19bd)" by (simp only: mult.assoc [symmetric])
  then show "x = y" by (simp only: inv mult_1_right)
qed

lemma drop_bit_fixed:
  fixes z :: "32 word"
  assumes "z = drop_bit n z" and "0 < n"
  shows "z = 0"
proof (rule ccontr)
  assume "z \<noteq> 0"
  then have "0 < unat z" by (simp add: unat_gt_0)
  moreover have "unat z = unat z div 2 ^ n"
    using assms(1) by (metis drop_bit_eq_div unat_drop_bit_eq)
  moreover have "unat z div 2 ^ n < unat z" if "0 < unat z"
    using that one_less_power [of "2 :: nat" n] assms(2) by (intro div_less_dividend) auto
  ultimately show False by simp
qed

lemma xor_cancel: "(a :: 32 word) XOR x = a XOR y \<longleftrightarrow> x = y" "x XOR a = y XOR a \<longleftrightarrow> x = y"
proof -
  have inv: "a XOR (a XOR z) = z" for z by (simp only: xor.assoc [symmetric] xor_self_eq xor.left_neutral)
  show left: "a XOR x = a XOR y \<longleftrightarrow> x = y"
  proof
    assume "a XOR x = a XOR y"
    then have "a XOR (a XOR x) = a XOR (a XOR y)" by (rule arg_cong)
    then show "x = y" by (simp only: inv)
  qed simp
  then show "x XOR a = y XOR a \<longleftrightarrow> x = y" by (simp only: xor.commute [of _ a])
qed

lemma xor_zero_iff: "(x :: 32 word) XOR y = 0 \<longleftrightarrow> x = y"
proof -
  have "x XOR y = 0 \<longleftrightarrow> x XOR y = x XOR x" by (simp only: xor_self_eq)
  also have "\<dots> \<longleftrightarrow> y = x" by (rule xor_cancel)
  finally show ?thesis by (simp only: eq_commute)
qed

lemma xorshift_inj:
  fixes x y :: "32 word"
  assumes "x XOR drop_bit n x = y XOR drop_bit n y" and "0 < n"
  shows "x = y"
proof -
  have "(x XOR y) XOR drop_bit n (x XOR y) = (x XOR drop_bit n x) XOR (y XOR drop_bit n y)"
    by (simp add: drop_bit_xor ac_simps)
  also have "\<dots> = 0" by (simp only: assms(1) xor_self_eq)
  finally have "x XOR y = drop_bit n (x XOR y)" by (rule xor_zero_iff [THEN iffD1])
  then have "x XOR y = 0" by (rule drop_bit_fixed) (rule assms(2))
  then show ?thesis by (simp add: xor_zero_iff)
qed

lemma murmur_mix_inj_key: "murmur_mix h k = murmur_mix h k' \<Longrightarrow> k = k'"
  unfolding murmur_mix_def Let_def xor_cancel by (drule mult_m_inj, drule xorshift_inj, simp, erule mult_m_inj)

lemma murmur_mix_inj_seed: "murmur_mix h k = murmur_mix h' k \<Longrightarrow> h = h'"
  unfolding murmur_mix_def Let_def xor_cancel by (erule mult_m_inj)

lemma murmur_final_inj: "murmur_final h = murmur_final h' \<Longrightarrow> h = h'"
  unfolding murmur_final_def Let_def
  by (drule xorshift_inj, simp, drule mult_m_inj, drule xorshift_inj, simp_all)

text \<open>
  C19. Pointers that agree in their upper 32 bits, as all objects of a heap below 4 GB do, never have the same hash
  value: every step of MurmurHash2 on a word is invertible.
\<close>

theorem HASH_injective:
  assumes "HASH p = HASH q" and "p div 2 ^ 32 = q div 2 ^ 32"
  shows "p = q"
proof -
  have "(of_nat p :: 32 word) = of_nat q"
    using assms unfolding HASH_unrolled by (auto dest!: murmur_final_inj murmur_mix_inj_seed murmur_mix_inj_key)
  then have "p mod 2 ^ 32 = q mod 2 ^ 32" by (simp add: unsigned_word_eqI of_nat_eq_iff word_of_nat_eq_iff take_bit_eq_mod)
  then show ?thesis using assms(2) by (metis div_mult_mod_eq)
qed

theorem HASH_injective_witness: "HASH 4096 \<noteq> HASH 4112"
  using HASH_injective [of 4096 4112] by auto

end
