(* ===== verification/Hash_Table.thy ===== *)
theory Hash_Table
  imports Murmur
begin

text \<open>
  The open-addressing hash table of \<open>src/hash.c\<close> that maps an object to its finalizer: quadratic
  probing over \<open>2 ^ n\<close> entries, tombstones for deleted keys, growth at 75\% load and a rebuild when
  a quarter of the entries are tombstones. \<open>Hash\<close> is the struct of \<open>include/hash.h\<close>; its entries are
  a list, indexed as the C code indexes the array (a \<open>NULL\<close> array is the empty list).
\<close>

section \<open>The table and its operations\<close>

datatype STATUS = FREE | ALLOCATED | DELETED

record ENTRY =
  e_status :: STATUS
  e_key :: addr
  e_value :: addr

record Hash =
  entries :: "ENTRY list"
  mask :: nat
  used :: nat
  deleted :: nat

definition MINSIZE :: nat where [simp]: "MINSIZE = 8"
definition MAXSIZE :: nat where [simp]: "MAXSIZE = 2 ^ 63"
definition sizeof_ENTRY :: nat where [simp]: "sizeof_ENTRY = 24"

definition allocate :: "ENTRY \<Rightarrow> addr \<Rightarrow> addr \<Rightarrow> ENTRY" where
  "allocate self key v = self\<lparr>e_status := ALLOCATED, e_key := key, e_value := v\<rparr>"

lemma allocate_simps [simp]:
  "e_status (allocate e key v) = ALLOCATED"
  "e_key (allocate e key v) = key"
  "e_value (allocate e key v) = v"
  by (simp_all add: allocate_def)

text \<open>
  The probing loops \<open>for (i = (size_t)hash, j = 1; ; i += j++)\<close>: they differ only in the condition
  that leaves the loop. The loop of the code has no bound, so neither has this one.
\<close>

partial_function (option) probe ::
  "(ENTRY \<Rightarrow> bool) \<Rightarrow> ENTRY list \<Rightarrow> nat \<Rightarrow> nat \<Rightarrow> nat \<Rightarrow> nat prog" where
  "probe stop es msk i j =
     (if stop (es ! (i AND msk)) then ret (i AND msk)
      else probe stop es msk (size_add i j) (size_add j 1))"

definition lookupForInsert :: "Hash \<Rightarrow> addr \<Rightarrow> hash_t \<Rightarrow> nat prog" where
  "lookupForInsert self key hash =
     probe (\<lambda>e. e_status e \<noteq> ALLOCATED \<or> e_key e = key) (entries self) (mask self) (unat hash) 1"

definition lookupForSearch :: "Hash \<Rightarrow> addr \<Rightarrow> hash_t \<Rightarrow> nat prog" where
  "lookupForSearch self key hash =
     probe (\<lambda>e. e_status e = FREE \<or> e_key e = key) (entries self) (mask self) (unat hash) 1"

partial_function (option) grow_capacity :: "nat \<Rightarrow> nat \<Rightarrow> nat prog" where
  "grow_capacity new_capacity capacity =
     (if new_capacity < capacity then grow_capacity (size_mul new_capacity 2) capacity
      else ret new_capacity)"

text \<open>\<open>calloc(n, sizeof(ENTRY))\<close>: zeroed entries; \<open>NULL\<close> when the size overflows \<open>size_t\<close>.\<close>

definition calloc_entries :: "nat \<Rightarrow> ENTRY list prog" where
  "calloc_entries n =
     (if n * sizeof_ENTRY < 2 ^ 64
      then ret (replicate n \<lparr>e_status = FREE, e_key = 0, e_value = 0\<rparr>)
      else abort_with ''GC: calloc failed'')"

definition put_entry :: "Hash \<Rightarrow> nat \<Rightarrow> addr \<Rightarrow> addr \<Rightarrow> Hash" where
  "put_entry self idx key v =
     self\<lparr>entries := (entries self)[idx := allocate (entries self ! idx) key v]\<rparr>"

fun rehash :: "Hash \<Rightarrow> ENTRY list \<Rightarrow> nat \<Rightarrow> (Hash \<times> nat) prog" where
  "rehash self [] n = ret (self, n)"
| "rehash self (e # es) n =
     (if e_status e = ALLOCATED
      then pbind (lookupForInsert self (e_key e) (HASH (e_key e)))
             (\<lambda>idx. rehash (put_entry self idx (e_key e) (e_value e)) es (size_add n 1))
      else rehash self es n)"

definition Hash_resize :: "Hash \<Rightarrow> nat \<Rightarrow> Hash prog" where
  "Hash_resize self capacity =
     pbind (grow_capacity MINSIZE (if capacity > MAXSIZE then MAXSIZE else capacity)) (\<lambda>new_capacity.
     pbind (calloc_entries new_capacity) (\<lambda>new_entries.
       let old_entries = entries self;
           self = self\<lparr>entries := new_entries, mask := size_sub new_capacity 1\<rparr>
       in if old_entries = [] then ret self
          else pbind (rehash self old_entries 0) (\<lambda>(self, n).
                 ret (self\<lparr>used := n, deleted := 0\<rparr>))))"

definition Hash_create :: "nat \<Rightarrow> Hash prog" where
  "Hash_create capacity =
     Hash_resize \<lparr>entries = [], mask = 0, used = 0, deleted = 0\<rparr> capacity"

definition Hash_search :: "Hash \<Rightarrow> addr \<Rightarrow> addr prog" where
  "Hash_search self key =
     pbind (lookupForSearch self key (HASH key)) (\<lambda>idx.
       let entry = entries self ! idx
       in ret (if e_status entry = ALLOCATED then e_value entry else 0))"

definition Hash_insert :: "Hash \<Rightarrow> addr \<Rightarrow> addr \<Rightarrow> Hash prog" where
  "Hash_insert self key v =
     pbind (lookupForInsert self key (HASH key)) (\<lambda>idx.
       case e_status (entries self ! idx) of
         ALLOCATED \<Rightarrow>
           ret (self\<lparr>entries := (entries self)[idx := (entries self ! idx)\<lparr>e_value := v\<rparr>]\<rparr>)
       | FREE \<Rightarrow>
           (if used self \<ge> size_sub (mask self) (mask self div 4)
            then pbind (Hash_resize self (size_mul (used self) 2)) (\<lambda>self.
                 pbind (lookupForInsert self key (HASH key)) (\<lambda>idx.
                   ret (put_entry (self\<lparr>used := size_add (used self) 1\<rparr>) idx key v)))
            else ret (put_entry (self\<lparr>used := size_add (used self) 1\<rparr>) idx key v))
       | DELETED \<Rightarrow>
           ret (put_entry (self\<lparr>deleted := size_sub (deleted self) 1\<rparr>) idx key v))"

definition clearTombstones :: "Hash \<Rightarrow> Hash prog" where
  "clearTombstones self =
     (if deleted self \<ge> size_add (mask self) 1 div 4 then Hash_resize self (used self)
      else ret self)"

text \<open>\<open>Hash_delete\<close> returns the table and the value that was stored (\<open>NULL\<close> when there was none).\<close>

definition Hash_delete :: "Hash \<Rightarrow> addr \<Rightarrow> (Hash \<times> addr) prog" where
  "Hash_delete self key =
     pbind (lookupForSearch self key (HASH key)) (\<lambda>idx.
       let entry = entries self ! idx
       in if e_status entry = ALLOCATED
          then pbind (clearTombstones
                   (self\<lparr>entries := (entries self)[idx := entry\<lparr>e_status := DELETED\<rparr>],
                         deleted := size_add (deleted self) 1\<rparr>))
                 (\<lambda>self. ret (self, e_value entry))
          else ret (self, 0))"

text \<open>
  \<open>Hash_deleteIf\<close> walks the entries in order; the callback works on a state of the caller. The
  callbacks of the library never touch the table itself.
\<close>

fun deleteIf_entries ::
  "(addr \<Rightarrow> addr \<Rightarrow> 's \<Rightarrow> bool \<times> 's) \<Rightarrow> ENTRY list \<Rightarrow> nat \<Rightarrow> 's \<Rightarrow> ENTRY list \<times> nat \<times> 's" where
  "deleteIf_entries callback [] d s = ([], d, s)"
| "deleteIf_entries callback (e # es) d s =
     (let (e', d', s') =
        (if e_status e = ALLOCATED
         then (case callback (e_key e) (e_value e) s of (b, s') \<Rightarrow>
                 if b then (e\<lparr>e_status := DELETED\<rparr>, size_add d 1, s') else (e, d, s'))
         else (e, d, s));
          (es', d'', s'') = deleteIf_entries callback es d' s'
      in (e' # es', d'', s''))"

definition Hash_deleteIf ::
  "(addr \<Rightarrow> addr \<Rightarrow> 's \<Rightarrow> bool \<times> 's) \<Rightarrow> Hash \<Rightarrow> 's \<Rightarrow> (Hash \<times> 's) prog" where
  "Hash_deleteIf callback self s =
     (let (es, d, s') = deleteIf_entries callback (entries self) (deleted self) s
      in pbind (clearTombstones (self\<lparr>entries := es, deleted := d\<rparr>)) (\<lambda>self. ret (self, s')))"

section \<open>Probing visits every slot\<close>

text \<open>The \<open>n\<close>-th index a probe with start value \<open>h\<close> visits in a table of \<open>2 ^ k\<close> entries.\<close>

definition slot :: "nat \<Rightarrow> nat \<Rightarrow> nat \<Rightarrow> nat" where
  "slot k h n = (h + n * (n + 1) div 2) mod 2 ^ k"

lemma slot_less [simp]: "slot k h n < 2 ^ k"
  by (simp add: slot_def)

lemma tri_step: "(n + 1) * (n + 2) div 2 = n * (n + 1) div 2 + (n + 1)" for n :: nat
proof -
  have "(n + 1) * (n + 2) = n * (n + 1) + (n + 1) * 2" by (simp add: algebra_simps)
  then show ?thesis by simp
qed

lemma tri_diff:
  fixes m n :: nat
  assumes "m \<le> n"
  shows "2 * (n * (n + 1) div 2 - m * (m + 1) div 2) = (n - m) * (n + m + 1)"
proof -
  have "2 * (j * (j + 1) div 2) = j * (j + 1)" for j :: nat by simp
  moreover have "n * (n + 1) = m * (m + 1) + (n - m) * (n + m + 1)"
    using assms by (auto simp: le_iff_add algebra_simps)
  ultimately show ?thesis by (simp only: diff_mult_distrib2) simp
qed

lemma slot_inj:
  assumes "m < n" and "n < 2 ^ k"
  shows "slot k h m \<noteq> slot k h n"
proof
  assume "slot k h m = slot k h n"
  then have "2 ^ k dvd (h + n * (n + 1) div 2) - (h + m * (m + 1) div 2)"
    unfolding slot_def by (metis mod_eq_dvd_iff_nat add_le_cancel_left assms(1) div_le_mono
        less_imp_le_nat mult_le_mono add_le_mono1)
  then have "2 ^ k dvd n * (n + 1) div 2 - m * (m + 1) div 2" by simp
  then have "2 * 2 ^ k dvd 2 * (n * (n + 1) div 2 - m * (m + 1) div 2)"
    by (rule mult_dvd_mono [OF dvd_refl])
  then have dvd: "2 ^ (k + 1) dvd (n - m) * (n + m + 1)"
    unfolding tri_diff [OF less_imp_le [OF assms(1)]] by simp
  show False
  proof (cases "even (n - m)")
    case True
    with assms(1) have "odd (n + m + 1)" by simp
    then have co: "coprime (2 ^ (k + 1)) (n + m + 1)" by simp
    from dvd have "2 ^ (k + 1) dvd n - m" by (simp only: coprime_dvd_mult_left_iff [OF co])
    with assms show False by (simp add: nat_dvd_not_less)
  next
    case False
    then have co: "coprime (2 ^ (k + 1)) (n - m)" by simp
    from dvd have "2 ^ (k + 1) dvd n + m + 1" by (simp only: coprime_dvd_mult_right_iff [OF co])
    with assms show False using nat_dvd_not_less [of "n + m + 1" "2 ^ (k + 1)"] by simp
  qed
qed

lemma slot_surj:
  assumes "p < 2 ^ k"
  obtains n where "n < 2 ^ k" and "slot k h n = p"
proof -
  have "inj_on (slot k h) {..<2 ^ k}"
    by (rule inj_onI) (metis lessThan_iff linorder_neqE_nat slot_inj)
  moreover have "slot k h ` {..<2 ^ k} \<subseteq> {..<2 ^ k}" by auto
  ultimately have "slot k h ` {..<2 ^ k} = {..<2 ^ k}"
    by (simp add: endo_inj_surj)
  with assms that show thesis by (metis imageE lessThan_iff)
qed

section \<open>The abstract table\<close>

definition live :: "ENTRY \<Rightarrow> addr \<Rightarrow> bool" where
  "live e key \<longleftrightarrow> e_status e = ALLOCATED \<and> e_key e = key"

definition tbl_lookup :: "ENTRY list \<Rightarrow> addr \<Rightarrow> addr option" where
  "tbl_lookup es key = map_option e_value (List.find (\<lambda>e. live e key) es)"

text \<open>The map a table stands for.\<close>

definition hash_map :: "Hash \<Rightarrow> addr \<Rightarrow> addr option" where
  "hash_map self = tbl_lookup (entries self)"

definition key_slot :: "nat \<Rightarrow> addr \<Rightarrow> nat \<Rightarrow> nat" where
  "key_slot k key = slot k (unat (HASH key))"

text \<open>A search for \<open>key\<close> gets to the entry \<open>p\<close>: nothing before it in the probe ends the search.\<close>

definition reaches :: "nat \<Rightarrow> ENTRY list \<Rightarrow> addr \<Rightarrow> nat \<Rightarrow> bool" where
  "reaches k es key p \<longleftrightarrow>
     (\<exists>n < 2 ^ k. key_slot k key n = p \<and>
        (\<forall>m < n. e_status (es ! key_slot k key m) \<noteq> FREE \<and> e_key (es ! key_slot k key m) \<noteq> key))"

definition tbl_ok :: "nat \<Rightarrow> ENTRY list \<Rightarrow> bool" where
  "tbl_ok k es \<longleftrightarrow> length es = 2 ^ k \<and>
     (\<forall>p < 2 ^ k. e_status (es ! p) = ALLOCATED \<longrightarrow> reaches k es (e_key (es ! p)) p)"

definition count :: "STATUS \<Rightarrow> ENTRY list \<Rightarrow> nat" where
  "count st es = length (filter (\<lambda>e. e_status e = st) es)"

text \<open>
  Well-formed tables: a power of two of entries, every live entry found by a search for its key,
  the two counters right, and the load at most 75\%. \<open>used\<close> counts the tombstones too.
\<close>

definition hash_wf :: "Hash \<Rightarrow> bool" where
  "hash_wf self \<longleftrightarrow>
     (\<exists>k. 3 \<le> k \<and> k \<le> 59 \<and> mask self = 2 ^ k - 1 \<and> tbl_ok k (entries self) \<and>
        used self = count ALLOCATED (entries self) + count DELETED (entries self) \<and>
        deleted self = count DELETED (entries self) \<and>
        4 * used self \<le> 3 * 2 ^ k)"

lemma key_slot_less [simp]: "key_slot k key n < 2 ^ k"
  by (simp add: key_slot_def)

lemma count_split: "count FREE es + count ALLOCATED es + count DELETED es = length es"
proof (induction es)
  case (Cons e es)
  then show ?case by (cases "e_status e") (auto simp: count_def)
qed (simp add: count_def)

lemma count_update:
  "i < length es \<Longrightarrow>
   count st (es[i := e]) + (if e_status (es ! i) = st then 1 else 0)
     = count st es + (if e_status e = st then 1 else 0)"
  unfolding count_def by (rule length_filter_update)

lemma count_pos: "i < length es \<Longrightarrow> e_status (es ! i) = st \<Longrightarrow> 0 < count st es"
  unfolding count_def by (rule length_filter_pos)

lemma count_zero_iff: "count st es = 0 \<longleftrightarrow> (\<forall>i < length es. e_status (es ! i) \<noteq> st)"
  unfolding count_def by (auto simp: filter_empty_conv set_conv_nth)

lemma tbl_ok_unique:
  assumes ok: "tbl_ok k es" and "p < 2 ^ k" "q < 2 ^ k" and "live (es ! p) key" "live (es ! q) key"
  shows "p = q"
proof -
  from assms have "reaches k es key p" "reaches k es key q"
    by (auto simp: tbl_ok_def live_def)
  then obtain a b where "key_slot k key a = p" "key_slot k key b = q"
    and "\<forall>m < a. e_key (es ! key_slot k key m) \<noteq> key" "\<forall>m < b. e_key (es ! key_slot k key m) \<noteq> key"
    by (auto simp: reaches_def)
  with assms(4,5) show ?thesis
    by (metis linorder_neqE_nat live_def)
qed

lemma tbl_lookup_None:
  "tbl_lookup es key = None \<longleftrightarrow> (\<forall>p < length es. \<not> live (es ! p) key)"
  by (auto simp: tbl_lookup_def find_None_iff set_conv_nth)

lemma tbl_lookup_Some:
  assumes "tbl_ok k es"
  shows "tbl_lookup es key = Some v \<longleftrightarrow> (\<exists>p < 2 ^ k. live (es ! p) key \<and> e_value (es ! p) = v)"
proof -
  have len: "length es = 2 ^ k" using assms by (simp add: tbl_ok_def)
  show ?thesis
  proof
    assume "tbl_lookup es key = Some v"
    then show "\<exists>p < 2 ^ k. live (es ! p) key \<and> e_value (es ! p) = v"
      by (auto simp: tbl_lookup_def find_Some_iff len)
  next
    assume "\<exists>p < 2 ^ k. live (es ! p) key \<and> e_value (es ! p) = v"
    then obtain p where p: "p < 2 ^ k" "live (es ! p) key" "e_value (es ! p) = v" by blast
    then obtain w where w: "tbl_lookup es key = Some w"
      using tbl_lookup_None [of es key] len by fastforce
    then obtain q where "q < 2 ^ k" "live (es ! q) key" "e_value (es ! q) = w"
      by (auto simp: tbl_lookup_def find_Some_iff len)
    with p w show "tbl_lookup es key = Some v"
      using tbl_ok_unique [OF assms] by metis
  qed
qed

section \<open>What a probe returns\<close>

lemma and_mask_nat: "i AND (2 ^ k - Suc 0) = i mod (2 ^ k :: nat)"
  by (simp only: One_nat_def [symmetric] mask_eq_exp_minus_1 [symmetric] take_bit_eq_mask [symmetric]
      take_bit_eq_mod)

lemma probe_step:
  assumes "k \<le> 64" and "i mod 2 ^ k = slot k h n"
  shows "size_add i (n + 1) mod 2 ^ k = slot k h (n + 1)"
proof -
  have "size_add i (n + 1) mod 2 ^ k = (i + (n + 1)) mod 2 ^ k"
    unfolding size_add_def using assms(1) by (intro mod_mod_cancel le_imp_power_dvd)
  also have "\<dots> = (i mod 2 ^ k + (n + 1)) mod 2 ^ k" by (rule mod_add_left_eq [symmetric])
  also have "\<dots> = slot k h (n + 1)"
    unfolding assms(2) slot_def mod_add_left_eq by (simp only: tri_step add.assoc one_add_one)
  finally show ?thesis .
qed

lemma probe_from:
  assumes "k \<le> 64" and "i mod 2 ^ k = slot k h n" and "n \<le> N" and "N < 2 ^ 64 - 1"
    and "stop (es ! slot k h N)" and "\<And>m. n \<le> m \<Longrightarrow> m < N \<Longrightarrow> \<not> stop (es ! slot k h m)"
  shows "probe stop es (2 ^ k - 1) i (n + 1) = ret (slot k h N)"
  using assms(2,3,6)
proof (induction "N - n" arbitrary: i n)
  case 0
  then have "stop (es ! slot k h n)" using assms(5) by simp
  with 0 show ?case
    by (subst probe.simps) (simp add: and_mask_nat)
next
  case (Suc d)
  then have "\<not> stop (es ! slot k h n)" by simp
  moreover have "probe stop es (2 ^ k - 1) (size_add i (n + 1)) (size_add (n + 1) 1) = ret (slot k h N)"
  proof -
    have "size_add (n + 1) 1 = (n + 1) + 1" using Suc.prems Suc.hyps assms(4) by simp
    moreover have "probe stop es (2 ^ k - 1) (size_add i (n + 1)) ((n + 1) + 1) = ret (slot k h N)"
      by (rule Suc.hyps(1)) (use Suc.hyps Suc.prems probe_step assms(1) in auto)
    ultimately show ?thesis by simp
  qed
  ultimately show ?case
    by (subst probe.simps) (use Suc.prems in \<open>simp add: and_mask_nat\<close>)
qed

lemma probe_first:
  assumes "k \<le> 63" and "N < 2 ^ k" and "stop (es ! slot k h N)"
    and "\<And>m. m < N \<Longrightarrow> \<not> stop (es ! slot k h m)"
  shows "probe stop es (2 ^ k - 1) h 1 = ret (slot k h N)"
proof -
  have "(2::nat) ^ k \<le> 2 ^ 63" using assms(1) by (rule power_increasing) simp
  with assms show ?thesis
    using probe_from [of k h h 0 N stop es] by (simp add: slot_def)
qed

text \<open>
  Whatever the exit condition, a probe ends as soon as one entry of the table satisfies it, at the
  first such entry in probing order.
\<close>

lemma probe_returns:
  assumes "k \<le> 63" and "p < 2 ^ k" and "stop (es ! p)"
  obtains N where "N < 2 ^ k" and "stop (es ! slot k h N)"
    and "\<And>m. m < N \<Longrightarrow> \<not> stop (es ! slot k h m)"
    and "probe stop es (2 ^ k - 1) h 1 = ret (slot k h N)"
proof -
  obtain n where n: "n < 2 ^ k" "slot k h n = p" by (rule slot_surj [OF assms(2)])
  define P where "P = (\<lambda>n. stop (es ! slot k h n))"
  let ?N = "LEAST n. P n"
  have Pn: "P n" using n assms(3) by (simp add: P_def)
  have st: "stop (es ! slot k h ?N)" using LeastI [of P n, OF Pn] by (simp add: P_def)
  have "?N < 2 ^ k" using Least_le [of P n, OF Pn] n by linarith
  moreover have before: "\<not> stop (es ! slot k h m)" if "m < ?N" for m
    using not_less_Least [OF that] by (simp add: P_def)
  ultimately have "probe stop es (2 ^ k - 1) h 1 = ret (slot k h ?N)"
    using st probe_first [OF assms(1), of ?N stop es h] by blast
  with \<open>?N < 2 ^ k\<close> st before show thesis by (rule that [of ?N])
qed

lemma lookupForSearch_spec:
  assumes ok: "tbl_ok k (entries self)" and "k \<le> 59" and msk: "mask self = 2 ^ k - 1"
    and free: "0 < count FREE (entries self)"
  shows "\<exists>p < 2 ^ k. lookupForSearch self key (HASH key) = ret p \<and>
    (case tbl_lookup (entries self) key of
       Some v \<Rightarrow> live (entries self ! p) key \<and> e_value (entries self ! p) = v
     | None \<Rightarrow> e_status (entries self ! p) \<noteq> ALLOCATED)"
proof -
  let ?es = "entries self" and ?stop = "\<lambda>e. e_status e = FREE \<or> e_key e = key"
  have len: "length ?es = 2 ^ k" using ok by (simp add: tbl_ok_def)
  obtain q where "q < 2 ^ k" "?stop (?es ! q)"
    using free len count_zero_iff [of FREE ?es] by auto
  then obtain N where N: "N < 2 ^ k" "?stop (?es ! key_slot k key N)"
      "\<And>m. m < N \<Longrightarrow> \<not> ?stop (?es ! key_slot k key m)"
      "probe ?stop ?es (2 ^ k - 1) (unat (HASH key)) 1 = ret (key_slot k key N)"
    using probe_returns [of k q ?stop ?es "unat (HASH key)"] \<open>k \<le> 59\<close> unfolding key_slot_def by auto
  have res: "lookupForSearch self key (HASH key) = ret (key_slot k key N)"
    using N(4) by (simp add: lookupForSearch_def msk)
  show ?thesis
  proof (cases "tbl_lookup ?es key")
    case None
    with N(2) have "e_status (?es ! key_slot k key N) \<noteq> ALLOCATED"
      by (auto simp: tbl_lookup_None len live_def)
    with res None show ?thesis by (intro exI [of _ "key_slot k key N"]) simp
  next
    case (Some v)
    then obtain p where p: "p < 2 ^ k" "live (?es ! p) key" "e_value (?es ! p) = v"
      using tbl_lookup_Some [OF ok] by blast
    with ok obtain n where n: "key_slot k key n = p"
        "\<forall>m < n. e_status (?es ! key_slot k key m) \<noteq> FREE \<and> e_key (?es ! key_slot k key m) \<noteq> key"
      by (auto simp: tbl_ok_def reaches_def live_def)
    have "n = N"
      using N(2,3) n p(2) by (metis linorder_neqE_nat live_def)
    with res p n Some show ?thesis by (intro exI [of _ p]) simp
  qed
qed

text \<open>
  The slot an insertion picks: either the entry that holds the key, or the first entry of the
  probe that is not allocated.
\<close>

definition insert_slot :: "nat \<Rightarrow> ENTRY list \<Rightarrow> addr \<Rightarrow> nat \<Rightarrow> bool" where
  "insert_slot k es key p \<longleftrightarrow> e_status (es ! p) \<noteq> ALLOCATED \<and>
     (\<exists>n < 2 ^ k. key_slot k key n = p \<and>
        (\<forall>m < n. e_status (es ! key_slot k key m) = ALLOCATED \<and> e_key (es ! key_slot k key m) \<noteq> key))"

lemma lookupForInsert_spec:
  assumes ok: "tbl_ok k (entries self)" and "k \<le> 59" and msk: "mask self = 2 ^ k - 1"
    and room: "count ALLOCATED (entries self) < 2 ^ k"
  shows "\<exists>p < 2 ^ k. lookupForInsert self key (HASH key) = ret p \<and>
    (insert_slot k (entries self) key p \<or> live (entries self ! p) key) \<and>
    (count DELETED (entries self) = 0 \<longrightarrow> tbl_lookup (entries self) key \<noteq> None \<longrightarrow>
       live (entries self ! p) key)"
proof -
  let ?es = "entries self" and ?stop = "\<lambda>e. e_status e \<noteq> ALLOCATED \<or> e_key e = key"
  have len: "length ?es = 2 ^ k" using ok by (simp add: tbl_ok_def)
  obtain q where "q < 2 ^ k" "?stop (?es ! q)"
  proof -
    have "count FREE ?es \<noteq> 0 \<or> count DELETED ?es \<noteq> 0"
      using room count_split [of ?es] len by linarith
    then show thesis using that len by (auto simp: count_zero_iff)
  qed
  then obtain N where N: "N < 2 ^ k" "?stop (?es ! key_slot k key N)"
      "\<And>m. m < N \<Longrightarrow> \<not> ?stop (?es ! key_slot k key m)"
      "probe ?stop ?es (2 ^ k - 1) (unat (HASH key)) 1 = ret (key_slot k key N)"
    using probe_returns [of k q ?stop ?es "unat (HASH key)"] \<open>k \<le> 59\<close> unfolding key_slot_def by auto
  let ?p = "key_slot k key N"
  have res: "lookupForInsert self key (HASH key) = ret ?p"
    using N(4) by (simp add: lookupForInsert_def msk)
  have either: "insert_slot k ?es key ?p \<or> live (?es ! ?p) key"
    using N(1,2,3) unfolding insert_slot_def live_def by blast
  have "live (?es ! ?p) key" if no_del: "count DELETED ?es = 0" and present: "tbl_lookup ?es key \<noteq> None"
  proof -
    obtain p where p: "p < 2 ^ k" "live (?es ! p) key"
      using present len by (auto simp: tbl_lookup_None)
    with ok obtain n where n: "key_slot k key n = p"
        "\<forall>m < n. e_status (?es ! key_slot k key m) \<noteq> FREE \<and> e_key (?es ! key_slot k key m) \<noteq> key"
      by (auto simp: tbl_ok_def reaches_def live_def)
    have "\<not> n < N" using N(3) n p by (auto simp: live_def)
    moreover have "\<not> N < n"
    proof
      assume "N < n"
      with n N(2) have "e_status (?es ! ?p) = DELETED"
        by (cases "e_status (?es ! ?p)") auto
      with no_del len show False by (simp add: count_zero_iff)
    qed
    ultimately show ?thesis using n p by (metis linorder_neqE_nat)
  qed
  with res either show ?thesis by (intro exI [of _ ?p]) simp
qed

text \<open>An entry put into the slot \<open>lookupForInsert\<close> found.\<close>

lemma place_reaches:
  assumes ok: "tbl_ok k es" and p: "p < 2 ^ k" and ins: "insert_slot k es key p" and none: "tbl_lookup es key = None"
  shows "tbl_ok k (es[p := allocate (es ! p) key v])" (is "tbl_ok k ?es'")
proof -
  have len: "length es = 2 ^ k" using ok by (simp add: tbl_ok_def)
  have new: "?es' ! r = (if r = p then allocate (es ! p) key v else es ! r)" if "r < 2 ^ k" for r
    using that len p by (simp add: nth_list_update)
  have absent: "\<not> live (es ! r) key" if "r < 2 ^ k" for r
    using none that len by (simp add: tbl_lookup_None)
  have "reaches k ?es' (e_key (?es' ! r)) r" if r: "r < 2 ^ k" "e_status (?es' ! r) = ALLOCATED" for r
  proof (cases "r = p")
    case True
    from ins obtain n where n: "n < 2 ^ k" "key_slot k key n = p"
        "\<forall>m < n. e_status (es ! key_slot k key m) = ALLOCATED \<and> e_key (es ! key_slot k key m) \<noteq> key"
        "e_status (es ! p) \<noteq> ALLOCATED"
      by (auto simp: insert_slot_def)
    then have "\<forall>m < n. key_slot k key m \<noteq> p" by metis
    with n True show ?thesis
      unfolding reaches_def by (intro exI [of _ n]) (simp add: new p)
  next
    case False
    with r have "reaches k es (e_key (es ! r)) r" and "e_key (es ! r) \<noteq> key"
      using ok absent [of r] by (auto simp: new tbl_ok_def live_def)
    then obtain n where "n < 2 ^ k" "key_slot k (e_key (es ! r)) n = r"
        "\<forall>m < n. e_status (es ! key_slot k (e_key (es ! r)) m) \<noteq> FREE \<and>
           e_key (es ! key_slot k (e_key (es ! r)) m) \<noteq> e_key (es ! r)" "e_key (es ! r) \<noteq> key"
      by (auto simp: reaches_def)
    with False r show ?thesis
      unfolding reaches_def by (intro exI [of _ n]) (auto simp: new)
  qed
  then show ?thesis using len by (simp add: tbl_ok_def)
qed

lemma place_ok:
  assumes ok: "tbl_ok k es" and p: "p < 2 ^ k" and ins: "insert_slot k es key p"
    and none: "tbl_lookup es key = None"
  shows "tbl_ok k (es[p := allocate (es ! p) key v])" (is "tbl_ok k ?es'")
    and "tbl_lookup (es[p := allocate (es ! p) key v]) = (tbl_lookup es)(key \<mapsto> v)"
proof -
  show ok': "tbl_ok k ?es'" by (rule place_reaches [OF assms])
  have len: "length es = 2 ^ k" using ok by (simp add: tbl_ok_def)
  have new: "?es' ! r = (if r = p then allocate (es ! p) key v else es ! r)" if "r < 2 ^ k" for r
    using that len p by (simp add: nth_list_update)
  show "tbl_lookup ?es' = (tbl_lookup es)(key \<mapsto> v)"
  proof (rule ext, rule option_eqI)
    fix key' w
    have "tbl_lookup ?es' key' = Some w \<longleftrightarrow>
        (\<exists>r < 2 ^ k. live (?es' ! r) key' \<and> e_value (?es' ! r) = w)"
      by (rule tbl_lookup_Some [OF ok'])
    also have "\<dots> \<longleftrightarrow> (if key' = key then v = w else tbl_lookup es key' = Some w)"
    proof (cases "key' = key")
      case True
      have "\<not> live (es ! r) key" if "r < 2 ^ k" for r using none that len by (simp add: tbl_lookup_None)
      then have "live (?es' ! r) key' \<longleftrightarrow> r = p" if "r < 2 ^ k" for r
        using True that by (simp add: new) (simp add: live_def)
      moreover have "e_value (?es' ! p) = v" by (simp add: new p)
      ultimately show ?thesis using True p by (metis (no_types))
    next
      case False
      then have "live (?es' ! r) key' \<longleftrightarrow> live (es ! r) key' \<and> r \<noteq> p" if "r < 2 ^ k" for r
        using that ins by (auto simp: new live_def insert_slot_def)
      moreover have "e_value (?es' ! r) = e_value (es ! r)" if "r < 2 ^ k" "r \<noteq> p" for r
        using that by (simp add: new)
      moreover have "\<not> live (es ! p) key'"
        using ins by (simp add: live_def insert_slot_def)
      ultimately show ?thesis using False unfolding tbl_lookup_Some [OF ok] by metis
    qed
    finally show "tbl_lookup ?es' key' = Some w \<longleftrightarrow> ((tbl_lookup es)(key \<mapsto> v)) key' = Some w"
      by simp
  qed
qed

lemma place_count:
  assumes "p < length es" and "e_status (es ! p) \<noteq> ALLOCATED"
  shows "count ALLOCATED (es[p := allocate (es ! p) key v]) = count ALLOCATED es + 1"
    and "count DELETED (es[p := allocate (es ! p) key v]) + (if e_status (es ! p) = DELETED then 1 else 0)
       = count DELETED es"
  using count_update [OF assms(1), of ALLOCATED "allocate (es ! p) key v"]
    count_update [OF assms(1), of DELETED "allocate (es ! p) key v"] assms(2)
  by simp_all

section \<open>Rebuilding the table\<close>

lemma grow_capacity_spec:
  assumes "c \<le> 2 ^ 63" and "j \<le> 63" and "2 ^ j < 2 * c \<or> j = 3"
  shows "\<exists>k \<ge> j. k \<le> 63 \<and> grow_capacity (2 ^ j) c = ret (2 ^ k) \<and> c \<le> 2 ^ k \<and> (k = 3 \<or> 2 ^ k < 2 * c)"
  using assms(2,3)
proof (induction "63 - j" arbitrary: j)
  case 0
  then show ?case using assms(1) by (subst grow_capacity.simps) auto
next
  case (Suc d)
  show ?case
  proof (cases "2 ^ j < c")
    case True
    have "(2::nat) ^ j \<le> 2 ^ 62" using Suc.hyps(2) by (intro power_increasing) auto
    then have step: "size_mul (2 ^ j) 2 = 2 ^ (j + 1)" by simp
    have "2 ^ (j + 1) < 2 * c \<or> j + 1 = 3" using True by simp
    then obtain k where
      "k \<ge> j + 1" "k \<le> 63" "grow_capacity (2 ^ (j + 1)) c = ret (2 ^ k)" "c \<le> 2 ^ k"
      "k = 3 \<or> 2 ^ k < 2 * c" using Suc.hyps(1) [of "j + 1"] Suc.hyps(2) by fastforce
    with True step show ?thesis by (subst grow_capacity.simps) (auto intro!: exI [of _ k])
  next
    case False
    with Suc.prems show ?thesis by (subst grow_capacity.simps) (auto intro!: exI [of _ j])
  qed
qed

definition distinct_live :: "ENTRY list \<Rightarrow> bool" where
  "distinct_live es \<longleftrightarrow> distinct (map e_key (filter (\<lambda>e. e_status e = ALLOCATED) es))"

lemma distinct_live_Cons:
  "distinct_live (e # es) \<longleftrightarrow>
     (e_status e = ALLOCATED \<longrightarrow> tbl_lookup es (e_key e) = None) \<and> distinct_live es"
  by (auto simp: distinct_live_def tbl_lookup_def find_None_iff live_def image_iff)

lemma tbl_lookup_Cons:
  "tbl_lookup (e # es) key = (if live e key then Some (e_value e) else tbl_lookup es key)"
  by (simp add: tbl_lookup_def)

lemma distinct_liveI:
  assumes "\<And>p q key. p < length es \<Longrightarrow> q < length es \<Longrightarrow> live (es ! p) key \<Longrightarrow> live (es ! q) key \<Longrightarrow> p = q"
  shows "distinct_live es"
  using assms
proof (induction es)
  case Nil
  then show ?case by (simp add: distinct_live_def)
next
  case (Cons e es)
  have "distinct_live es"
  proof (rule Cons.IH)
    fix p q key assume "p < length es" "q < length es" "live (es ! p) key" "live (es ! q) key"
    then show "p = q" using Cons.prems [of "Suc p" "Suc q" key] by simp
  qed
  moreover have "tbl_lookup es (e_key e) = None" if "e_status e = ALLOCATED"
    unfolding tbl_lookup_None
  proof (intro allI impI notI)
    fix p assume "p < length es" "live (es ! p) (e_key e)"
    with that show False using Cons.prems [of 0 "Suc p" "e_key e"] by (simp add: live_def)
  qed
  ultimately show ?case by (simp add: distinct_live_Cons)
qed

lemma tbl_ok_distinct_live: "tbl_ok k es \<Longrightarrow> distinct_live es"
  by (rule distinct_liveI) (metis tbl_ok_def tbl_ok_unique)

lemma rehash_spec:
  assumes "tbl_ok k (entries self)" and "k \<le> 59" and "mask self = 2 ^ k - 1"
    and "count DELETED (entries self) = 0"
    and "count ALLOCATED (entries self) + count ALLOCATED es < 2 ^ k"
    and "distinct_live es"
    and "\<And>key. tbl_lookup (entries self) key \<noteq> None \<Longrightarrow> tbl_lookup es key = None"
    and "n + count ALLOCATED es < 2 ^ 64"
  shows "\<exists>self'. rehash self es n = ret (self', n + count ALLOCATED es) \<and>
    mask self' = mask self \<and> tbl_ok k (entries self') \<and> count DELETED (entries self') = 0 \<and>
    count ALLOCATED (entries self') = count ALLOCATED (entries self) + count ALLOCATED es \<and>
    tbl_lookup (entries self') = tbl_lookup (entries self) ++ tbl_lookup es"
  using assms
proof (induction es arbitrary: self n)
  case Nil
  have "tbl_lookup [] = Map.empty" by (rule ext) (simp add: tbl_lookup_def)
  then show ?case using Nil by (simp add: count_def)
next
  case (Cons e es)
  show ?case
  proof (cases "e_status e = ALLOCATED")
    case False
    then have "count ALLOCATED (e # es) = count ALLOCATED es" "tbl_lookup (e # es) = tbl_lookup es"
      by (auto simp: count_def tbl_lookup_Cons live_def)
    then show ?thesis using Cons.IH [of self n] Cons.prems False by (simp add: distinct_live_Cons)
  next
    case True
    let ?key = "e_key e" and ?es = "entries self"
    have cnt: "count ALLOCATED (e # es) = count ALLOCATED es + 1" using True by (simp add: count_def)
    have none: "tbl_lookup ?es ?key = None"
      using Cons.prems(7) [of ?key] True by (cases "tbl_lookup ?es ?key") (simp_all add: tbl_lookup_Cons live_def)
    have len: "length ?es = 2 ^ k" using Cons.prems(1) by (simp add: tbl_ok_def)
    obtain p where p: "p < 2 ^ k" "lookupForInsert self ?key (HASH ?key) = ret p"
        "insert_slot k ?es ?key p \<or> live (?es ! p) ?key"
      using lookupForInsert_spec [OF Cons.prems(1,2,3)] Cons.prems(5) cnt by fastforce
    have ins: "insert_slot k ?es ?key p" using p none len by (auto simp: tbl_lookup_None)
    then have notalloc: "e_status (?es ! p) \<noteq> ALLOCATED" by (simp add: insert_slot_def)
    let ?self = "put_entry self p ?key (e_value e)"
    have es': "entries ?self = ?es[p := allocate (?es ! p) ?key (e_value e)]" "mask ?self = mask self"
      by (simp_all add: put_entry_def)
    note pl = place_ok [OF Cons.prems(1) p(1) ins none, of "e_value e"]
    have counts: "count ALLOCATED (entries ?self) = count ALLOCATED ?es + 1"
      "count DELETED (entries ?self) = 0"
      using place_count [of p ?es ?key "e_value e"] p(1) len notalloc Cons.prems(4) by (simp_all add: es')
    have dl: "tbl_lookup es ?key = None" "distinct_live es"
      using Cons.prems(6) True by (simp_all add: distinct_live_Cons)
    have sz: "size_add n 1 = n + 1" using Cons.prems(8) cnt by simp
    have "\<exists>self'. rehash ?self es (n + 1) = ret (self', n + 1 + count ALLOCATED es) \<and>
      mask self' = mask ?self \<and> tbl_ok k (entries self') \<and> count DELETED (entries self') = 0 \<and>
      count ALLOCATED (entries self') = count ALLOCATED (entries ?self) + count ALLOCATED es \<and>
      tbl_lookup (entries self') = tbl_lookup (entries ?self) ++ tbl_lookup es"
    proof (rule Cons.IH)
      fix key assume "tbl_lookup (entries ?self) key \<noteq> None"
      then show "tbl_lookup es key = None"
        using dl(1) Cons.prems(7) [of key] by (auto simp: es' pl tbl_lookup_Cons split: if_splits)
    qed (use Cons.prems pl es' counts cnt dl in simp_all)
    moreover have "tbl_lookup (entries ?self) ++ tbl_lookup es = tbl_lookup ?es ++ tbl_lookup (e # es)"
      by (rule ext) (use True dl(1) in \<open>auto simp: es' pl tbl_lookup_Cons live_def map_add_def split: option.splits\<close>)
    ultimately show ?thesis using True p(2) cnt counts sz by (simp add: es')
  qed
qed

lemma tbl_ok_empty: "tbl_ok k (replicate (2 ^ k) \<lparr>e_status = FREE, e_key = 0, e_value = 0\<rparr>)"
  by (simp add: tbl_ok_def)

lemma count_replicate: "count st (replicate n e) = (if e_status e = st then n else 0)"
  by (simp add: count_def)

lemma tbl_lookup_replicate_free:
  "e_status e = FREE \<Longrightarrow> tbl_lookup (replicate n e) = Map.empty"
  by (rule ext) (simp add: tbl_lookup_None live_def)

lemma resize_spec:
  assumes dist: "distinct_live (entries self)" and c: "c \<le> 2 ^ 59" "count ALLOCATED (entries self) < c"
  shows "\<exists>self' k. Hash_resize self c = ret self' \<and> 3 \<le> k \<and> k \<le> 59 \<and> mask self' = 2 ^ k - 1 \<and>
    tbl_ok k (entries self') \<and> hash_map self' = hash_map self \<and>
    count ALLOCATED (entries self') = count ALLOCATED (entries self) \<and>
    count DELETED (entries self') = 0 \<and> c \<le> 2 ^ k \<and> (k = 3 \<or> 2 ^ k < 2 * c) \<and>
    (entries self \<noteq> [] \<longrightarrow> used self' = count ALLOCATED (entries self) \<and> deleted self' = 0) \<and>
    (entries self = [] \<longrightarrow> used self' = used self \<and> deleted self' = deleted self)"
proof -
  obtain k where k: "3 \<le> k" "k \<le> 63" "grow_capacity (2 ^ 3) c = ret (2 ^ k)" "c \<le> 2 ^ k" "k = 3 \<or> 2 ^ k < 2 * c"
    using grow_capacity_spec [of c 3] c(1) by auto
  have k59: "k \<le> 59"
  proof (rule ccontr)
    assume "\<not> k \<le> 59"
    then have "(2::nat) ^ 60 \<le> 2 ^ k" by (intro power_increasing) auto
    with k(5) c(1) \<open>\<not> k \<le> 59\<close> show False by auto
  qed
  then have pw: "(2::nat) ^ k \<le> 2 ^ 59" by (intro power_increasing) auto
  let ?new = "replicate (2 ^ k) \<lparr>e_status = FREE, e_key = 0, e_value = 0\<rparr>"
  let ?self = "self\<lparr>entries := ?new, mask := 2 ^ k - 1\<rparr>"
  have start: "Hash_resize self c =
      (if entries self = [] then ret ?self
       else pbind (rehash ?self (entries self) 0) (\<lambda>(self, n). ret (self\<lparr>used := n, deleted := 0\<rparr>)))"
    using k(3) c(1) pw by (simp add: Hash_resize_def calloc_entries_def)
  have empty: "tbl_lookup (entries ?self) = Map.empty" "count ALLOCATED (entries ?self) = 0"
      "count DELETED (entries ?self) = 0" "tbl_ok k (entries ?self)"
    by (simp_all add: tbl_lookup_replicate_free count_replicate tbl_ok_empty)
  show ?thesis
  proof (cases "entries self = []")
    case True
    moreover have "hash_map ?self = hash_map self"
      using empty(1) True by (auto simp: hash_map_def tbl_lookup_def)
    ultimately show ?thesis using start k k59 empty by (intro exI [of _ ?self] exI [of _ k]) (auto simp: count_def)
  next
    case False
    have "\<exists>self'. rehash ?self (entries self) 0 = ret (self', 0 + count ALLOCATED (entries self)) \<and>
      mask self' = mask ?self \<and> tbl_ok k (entries self') \<and> count DELETED (entries self') = 0 \<and>
      count ALLOCATED (entries self') = count ALLOCATED (entries ?self) + count ALLOCATED (entries self) \<and>
      tbl_lookup (entries self') = tbl_lookup (entries ?self) ++ tbl_lookup (entries self)"
      by (rule rehash_spec) (use k k59 c pw empty dist in auto)
    then obtain self' where r: "rehash ?self (entries self) 0 = ret (self', count ALLOCATED (entries self))"
      "mask self' = 2 ^ k - 1" "tbl_ok k (entries self')" "count DELETED (entries self') = 0"
      "count ALLOCATED (entries self') = count ALLOCATED (entries self)"
      "tbl_lookup (entries self') = tbl_lookup (entries self)"
      using empty by auto
    let ?res = "self'\<lparr>used := count ALLOCATED (entries self), deleted := 0\<rparr>"
    have "Hash_resize self c = ret ?res" using start r(1) False by simp
    then show ?thesis using r k k59 False by (intro exI [of _ ?res] exI [of _ k]) (auto simp: hash_map_def)
  qed
qed

section \<open>Correctness of the operations\<close>

lemma load_limit:
  assumes "3 \<le> k"
  shows "(2 ^ k - 1) - (2 ^ k - 1) div 4 = (3 * 2 ^ (k - 2) :: nat)" and "(2 ^ k :: nat) = 4 * 2 ^ (k - 2)"
proof -
  obtain j where j: "k = j + 3" using assms by (metis add.commute le_iff_add)
  have "(8 * x - 1) - (8 * x - 1) div 4 = 6 * x" if "0 < x" for x :: nat
  proof -
    have "(8 * x - 1) div 4 = 2 * x - 1" by (rule div_nat_eqI) (use that in auto)
    with that show ?thesis by simp
  qed
  from this [of "2 ^ j"] show "(2 ^ k - 1) - (2 ^ k - 1) div 4 = (3 * 2 ^ (k - 2) :: nat)"
    by (simp add: j power_add)
  show "(2 ^ k :: nat) = 4 * 2 ^ (k - 2)" by (simp add: j power_add)
qed

lemma hash_create_spec:
  assumes "0 < c" and "c \<le> 2 ^ 59"
  shows "\<exists>h. Hash_create c = ret h \<and> hash_wf h \<and> hash_map h = Map.empty \<and> c \<le> mask h + 1 \<and> used h = 0"
proof -
  let ?h0 = "\<lparr>entries = [], mask = 0, used = 0, deleted = 0\<rparr>"
  obtain h k where h: "Hash_resize ?h0 c = ret h" "3 \<le> k" "k \<le> 59" "mask h = 2 ^ k - 1"
      "tbl_ok k (entries h)" "hash_map h = hash_map ?h0" "count ALLOCATED (entries h) = 0"
      "count DELETED (entries h) = 0" "c \<le> 2 ^ k" "used h = 0" "deleted h = 0"
    using resize_spec [of ?h0 c] assms by (auto simp: count_def distinct_live_def)
  have "hash_wf h" unfolding hash_wf_def using h by (intro exI [of _ k]) simp
  with h show ?thesis by (auto simp: Hash_create_def hash_map_def tbl_lookup_def)
qed

lemma hash_wf_free:
  assumes "hash_wf h"
  shows "0 < count FREE (entries h)" and "count ALLOCATED (entries h) < length (entries h)"
proof -
  have "0 < length (entries h)"
    "4 * (count ALLOCATED (entries h) + count DELETED (entries h)) \<le> 3 * length (entries h)"
    using assms by (auto simp: hash_wf_def tbl_ok_def)
  note facts = this count_split [of "entries h"]
  show "0 < count FREE (entries h)" using facts by arith
  show "count ALLOCATED (entries h) < length (entries h)" using facts by arith
qed

lemma hash_search_spec:
  assumes "hash_wf h"
  shows "Hash_search h key = ret (case hash_map h key of None \<Rightarrow> 0 | Some v \<Rightarrow> v)"
proof -
  obtain k where k: "k \<le> 59" "mask h = 2 ^ k - 1" "tbl_ok k (entries h)"
    using assms by (auto simp: hash_wf_def)
  show ?thesis
    using lookupForSearch_spec [OF k(3,1,2), of key] hash_wf_free [OF assms]
    by (auto simp: Hash_search_def hash_map_def live_def split: option.splits)
qed

lemma hash_wf_intro:
  assumes "3 \<le> k" "k \<le> 59" "mask h = 2 ^ k - 1" "tbl_ok k (entries h)"
    "used h = count ALLOCATED (entries h) + count DELETED (entries h)"
    "deleted h = count DELETED (entries h)" "4 * used h \<le> 3 * 2 ^ k"
  shows "hash_wf h"
  unfolding hash_wf_def using assms by (intro exI [of _ k]) simp

lemma put_entry_sel [simp]:
  "entries (put_entry h p key v) = (entries h)[p := allocate (entries h ! p) key v]"
  "mask (put_entry h p key v) = mask h" "used (put_entry h p key v) = used h"
  "deleted (put_entry h p key v) = deleted h"
  by (simp_all add: put_entry_def)

text \<open>Storing a key that is not in the table, in a slot the probe found.\<close>

lemma put_entry_wf:
  assumes k: "3 \<le> k" "k \<le> 59" "mask h = 2 ^ k - 1" and ok: "tbl_ok k (entries h)"
    and p: "p < 2 ^ k" and ins: "insert_slot k (entries h) key p" and none: "hash_map h key = None"
    and u: "used h = count ALLOCATED (entries h) + count DELETED (entries h) + (if e_status (entries h ! p) = FREE then 1 else 0)"
    and d: "deleted h + (if e_status (entries h ! p) = DELETED then 1 else 0) = count DELETED (entries h)"
    and load: "4 * used h \<le> 3 * 2 ^ k"
  shows "hash_wf (put_entry h p key v) \<and> hash_map (put_entry h p key v) = (hash_map h)(key \<mapsto> v)"
proof -
  have len: "p < length (entries h)" using ok p by (simp add: tbl_ok_def)
  have na: "e_status (entries h ! p) \<noteq> ALLOCATED" using ins by (simp add: insert_slot_def)
  note pl = place_ok [OF ok p ins none [unfolded hash_map_def], of v]
  note pc = place_count [OF len na, of key v]
  have "hash_wf (put_entry h p key v)"
  proof (rule hash_wf_intro)
    show "used (put_entry h p key v) = count ALLOCATED (entries (put_entry h p key v)) +
        count DELETED (entries (put_entry h p key v))"
      using pc u na by (cases "e_status (entries h ! p)") auto
    show "deleted (put_entry h p key v) = count DELETED (entries (put_entry h p key v))"
      using pc d by auto
  qed (use k pl load in simp_all)
  then show ?thesis using pl by (simp add: hash_map_def)
qed

text \<open>\<open>hash_wf\<close> taken apart.\<close>

lemma hash_wfE:
  assumes "hash_wf h"
  obtains k where "3 \<le> k" "k \<le> 59" "mask h = 2 ^ k - 1" "tbl_ok k (entries h)"
    "used h = count ALLOCATED (entries h) + count DELETED (entries h)" "deleted h = count DELETED (entries h)" "4 * used h \<le> 3 * 2 ^ k"
    "length (entries h) = 2 ^ k" "count ALLOCATED (entries h) < 2 ^ k"
proof -
  obtain k where k: "3 \<le> k" "k \<le> 59" "mask h = 2 ^ k - 1" "tbl_ok k (entries h)"
    "used h = count ALLOCATED (entries h) + count DELETED (entries h)" "deleted h = count DELETED (entries h)" "4 * used h \<le> 3 * 2 ^ k"
    using assms by (auto simp: hash_wf_def)
  moreover have len: "length (entries h) = 2 ^ k" using k(4) by (simp add: tbl_ok_def)
  moreover have "count ALLOCATED (entries h) < 2 ^ k" using hash_wf_free [OF assms] len by simp
  ultimately show thesis by (rule that)
qed

text \<open>An absent key gets a slot of its own.\<close>

lemma fresh_slot:
  assumes ok: "tbl_ok k (entries h)" and k: "k \<le> 59" "mask h = 2 ^ k - 1" and alloc: "count ALLOCATED (entries h) < 2 ^ k"
    and none: "tbl_lookup (entries h) key = None"
  obtains p where "p < 2 ^ k" "lookupForInsert h key (HASH key) = ret p" "insert_slot k (entries h) key p"
proof -
  have len: "length (entries h) = 2 ^ k" using ok by (simp add: tbl_ok_def)
  obtain p where "p < 2 ^ k" "lookupForInsert h key (HASH key) = ret p" "insert_slot k (entries h) key p \<or> live (entries h ! p) key"
    using lookupForInsert_spec [OF ok k alloc] by blast
  with none len that show thesis by (auto simp: tbl_lookup_None)
qed

text \<open>The table that \<open>resize\<close> makes has room for the key, and no tombstones.\<close>

lemma insert_after_resize:
  assumes wf: "hash_wf h" and none: "hash_map h key = None" and small: "used h < 2 ^ 58" and used6: "6 \<le> used h"
  obtains h1 q where "Hash_resize h (used h * 2) = ret h1" and "lookupForInsert h1 key (HASH key) = ret q"
    and "hash_wf (put_entry (h1\<lparr>used := size_add (used h1) 1\<rparr>) q key v)"
    and "hash_map (put_entry (h1\<lparr>used := size_add (used h1) 1\<rparr>) q key v) = (hash_map h)(key \<mapsto> v)"
    and "used h1 \<le> used h" and "mask h1 + 1 \<le> max (mask h + 1) (4 * used h)"
proof -
  obtain k where k: "3 \<le> k" "mask h = 2 ^ k - 1" and ok: "tbl_ok k (entries h)"
    and u: "used h = count ALLOCATED (entries h) + count DELETED (entries h)" and len: "length (entries h) = 2 ^ k"
    by (rule hash_wfE [OF wf])
  have "used h * 2 \<le> 2 ^ 59" "count ALLOCATED (entries h) < used h * 2" using small used6 u by auto
  then obtain h1 k1 where h1: "Hash_resize h (used h * 2) = ret h1" "3 \<le> k1" "k1 \<le> 59"
      "mask h1 = 2 ^ k1 - 1" "tbl_ok k1 (entries h1)" "hash_map h1 = hash_map h"
      "count ALLOCATED (entries h1) = count ALLOCATED (entries h)" "count DELETED (entries h1) = 0"
      "used h * 2 \<le> 2 ^ k1" "used h1 = count ALLOCATED (entries h)" "deleted h1 = 0"
      "k1 = 3 \<or> 2 ^ k1 < 2 * (used h * 2)"
    using resize_spec [OF tbl_ok_distinct_live [OF ok], of "used h * 2"] len by force
  let ?h = "h1\<lparr>used := size_add (used h1) 1\<rparr>"
  have len1: "length (entries h1) = 2 ^ k1" using h1(5) by (simp add: tbl_ok_def)
  have "count ALLOCATED (entries h1) < 2 ^ k1" using h1(7,9) u used6 by linarith
  moreover have none1: "tbl_lookup (entries h1) key = None" using none h1(6) by (simp add: hash_map_def)
  ultimately obtain q where q: "q < 2 ^ k1" and lk: "lookupForInsert h1 key (HASH key) = ret q"
    and ins: "insert_slot k1 (entries h1) key q" by (rule fresh_slot [OF h1(5,3,4)])
  have "e_status (entries h1 ! q) \<noteq> DELETED" using h1(8) q len1 by (simp add: count_zero_iff)
  with ins have free: "e_status (entries h1 ! q) = FREE" by (cases "e_status (entries h1 ! q)") (auto simp: insert_slot_def)
  have "(2::nat) ^ 3 \<le> 2 ^ k" using k(1) by (intro power_increasing) auto
  then have growth: "mask h1 + 1 \<le> max (mask h + 1) (4 * used h)" using h1(4,12) k(2) by auto
  have add: "size_add (used h1) 1 = used h1 + 1" using h1(10) small u by simp
  have "4 * (used h1 + 1) \<le> 3 * 2 ^ k1"
    unfolding distrib_left h1(10) using h1(9) u used6 by linarith
  then have "hash_wf (put_entry ?h q key v) \<and> hash_map (put_entry ?h q key v) = (hash_map ?h)(key \<mapsto> v)"
    using h1 q ins none1 free add by (intro put_entry_wf [of k1]) (auto simp: hash_map_def)
  moreover have "hash_map ?h = hash_map h" using h1(6) by (simp add: hash_map_def)
  ultimately show thesis using h1(1,10) lk growth u by (intro that) auto
qed

lemma hash_insert_fresh:
  assumes wf: "hash_wf h" and none: "hash_map h key = None" and room: "mask h < 2 ^ 58"
  shows "\<exists>h'. Hash_insert h key v = ret h' \<and> hash_wf h' \<and> hash_map h' = (hash_map h)(key \<mapsto> v) \<and>
    used h' \<le> used h + 1 \<and> mask h' + 1 \<le> max (mask h + 1) (4 * used h)"
proof -
  obtain k where k: "3 \<le> k" "k \<le> 59" "mask h = 2 ^ k - 1" and ok: "tbl_ok k (entries h)"
    and u: "used h = count ALLOCATED (entries h) + count DELETED (entries h)"
    and d: "deleted h = count DELETED (entries h)" and load: "4 * used h \<le> 3 * 2 ^ k"
    and len: "length (entries h) = 2 ^ k" and alloc: "count ALLOCATED (entries h) < 2 ^ k"
    by (rule hash_wfE [OF wf])
  have "(2::nat) ^ k \<le> 2 ^ 58" using room k by simp
  then have small: "used h < 2 ^ 58" using load by simp
  have tn: "tbl_lookup (entries h) key = None" using none by (simp add: hash_map_def)
  from fresh_slot [OF ok k(2,3) alloc tn] obtain p where p: "p < 2 ^ k"
    and lk: "lookupForInsert h key (HASH key) = ret p" and ins: "insert_slot k (entries h) key p" by blast
  show ?thesis
  proof (cases "e_status (entries h ! p)")
    case ALLOCATED
    with ins show ?thesis by (simp add: insert_slot_def)
  next
    case DELETED
    let ?h = "h\<lparr>deleted := size_sub (deleted h) 1\<rparr>"
    have "0 < count DELETED (entries h)" using DELETED p len by (intro count_pos) auto
    then have sub: "size_sub (deleted h) 1 = deleted h - 1" "0 < deleted h"
      using d u small by auto
    have "hash_wf (put_entry ?h p key v) \<and> hash_map (put_entry ?h p key v) = (hash_map ?h)(key \<mapsto> v)"
      by (rule put_entry_wf) (use k ok p ins none u d load DELETED sub in \<open>auto simp: hash_map_def\<close>)
    then show ?thesis using lk DELETED by (simp add: Hash_insert_def hash_map_def)
  next
    case FREE
    have "mask h < 2 ^ 64" using room by simp
    then have "size_sub (mask h) (mask h div 4) = mask h - mask h div 4"
      by (intro size_sub_small) simp_all
    then have lim: "size_sub (mask h) (mask h div 4) = 3 * 2 ^ (k - 2)" "(2::nat) ^ k = 4 * 2 ^ (k - 2)"
      using load_limit [OF k(1)] by (simp_all only: k(3))
    show ?thesis
    proof (cases "used h \<ge> size_sub (mask h) (mask h div 4)")
      case False
      let ?h = "h\<lparr>used := size_add (used h) 1\<rparr>"
      have add: "size_add (used h) 1 = used h + 1" using small by simp
      have load': "4 * (used h + 1) \<le> 3 * 2 ^ k" using False lim by simp
      have "hash_wf (put_entry ?h p key v) \<and> hash_map (put_entry ?h p key v) = (hash_map ?h)(key \<mapsto> v)"
        by (rule put_entry_wf) (use k ok p ins none u d load' FREE add in \<open>auto simp: hash_map_def\<close>)
      then show ?thesis using lk FREE False add by (simp add: Hash_insert_def hash_map_def)
    next
      case True
      have "(2::nat) ^ 1 \<le> 2 ^ (k - 2)" using k(1) by (intro power_increasing) auto
      then have "6 \<le> used h" using True lim by simp
      from insert_after_resize [OF wf none small this, of v] obtain h1 q
        where h1: "Hash_resize h (used h * 2) = ret h1" "lookupForInsert h1 key (HASH key) = ret q"
          "hash_wf (put_entry (h1\<lparr>used := size_add (used h1) 1\<rparr>) q key v)"
          "hash_map (put_entry (h1\<lparr>used := size_add (used h1) 1\<rparr>) q key v) = (hash_map h)(key \<mapsto> v)"
          "used h1 \<le> used h" "mask h1 + 1 \<le> max (mask h + 1) (4 * used h)" by blast
      moreover have "size_mul (used h) 2 = used h * 2" "size_add (used h1) 1 = used h1 + 1" using small h1(5) by simp_all
      ultimately show ?thesis using lk FREE True by (simp add: Hash_insert_def)
    qed
  qed
qed

text \<open>
  Replacing the value of a key. The probe of an insertion stops at the first tombstone, so this is
  only right in a table without tombstones in front of the key; see \<open>hash_duplicate_key\<close> below.
\<close>

lemma hash_insert_replace:
  assumes wf: "hash_wf h" and some: "hash_map h key = Some w" and no_tomb: "deleted h = 0"
  shows "\<exists>h'. Hash_insert h key v = ret h' \<and> hash_wf h' \<and> hash_map h' = (hash_map h)(key \<mapsto> v)
    \<and> used h' = used h"
proof -
  obtain k where k: "3 \<le> k" "k \<le> 59" "mask h = 2 ^ k - 1" and ok: "tbl_ok k (entries h)"
    and u: "used h = count ALLOCATED (entries h) + count DELETED (entries h)"
    and d: "deleted h = count DELETED (entries h)" and load: "4 * used h \<le> 3 * 2 ^ k"
    using wf by (auto simp: hash_wf_def)
  have len: "length (entries h) = 2 ^ k" using ok by (simp add: tbl_ok_def)
  obtain p where p: "p < 2 ^ k" "lookupForInsert h key (HASH key) = ret p" "live (entries h ! p) key"
    using lookupForInsert_spec [OF ok k(2,3)] hash_wf_free [OF wf] len d no_tomb some
    by (auto simp: hash_map_def)
  let ?e = "(entries h ! p)\<lparr>e_value := v\<rparr>"
  let ?h = "h\<lparr>entries := (entries h)[p := ?e]\<rparr>"
  have new: "entries ?h ! r = (if r = p then ?e else entries h ! r)" if "r < 2 ^ k" for r
    using that len p by (simp add: nth_list_update)
  have keep: "e_status (entries ?h ! r) = e_status (entries h ! r)"
    "e_key (entries ?h ! r) = e_key (entries h ! r)" if "r < 2 ^ k" for r
    using new [OF that] by auto
  have ok': "tbl_ok k (entries ?h)"
    using ok unfolding tbl_ok_def reaches_def by (simp add: keep [simplified])
  have cnt: "count st (entries ?h) = count st (entries h)" for st
    using count_update [of p "entries h" st ?e] p(1) len by simp
  have map: "hash_map ?h = (hash_map h)(key \<mapsto> v)"
  proof (rule ext, rule option_eqI)
    fix key' x
    have "hash_map ?h key' = Some x \<longleftrightarrow> (\<exists>r < 2 ^ k. live (entries ?h ! r) key' \<and> e_value (entries ?h ! r) = x)"
      unfolding hash_map_def by (rule tbl_lookup_Some [OF ok'])
    also have "\<dots> \<longleftrightarrow> (if key' = key then v = x else \<exists>r < 2 ^ k. live (entries h ! r) key' \<and> e_value (entries h ! r) = x)"
    proof (cases "key' = key")
      case True
      have "live (entries ?h ! r) key \<longleftrightarrow> r = p" if "r < 2 ^ k" for r
        using tbl_ok_unique [OF ok that p(1) _ p(3)] p(3) that keep by (auto simp: live_def)
      moreover have "e_value (entries ?h ! p) = v" using new [OF p(1)] by simp
      ultimately show ?thesis using True p(1) by (metis (no_types))
    next
      case False
      then have "r \<noteq> p" if "live (entries h ! r) key'" for r using that p(3) by (auto simp: live_def)
      moreover have "live (entries ?h ! r) key' \<longleftrightarrow> live (entries h ! r) key'" if "r < 2 ^ k" for r
        using keep that by (simp add: live_def)
      moreover have "e_value (entries ?h ! r) = e_value (entries h ! r)" if "r < 2 ^ k" "r \<noteq> p" for r
        using new [OF that(1)] that by simp
      ultimately show ?thesis using False by (metis (no_types))
    qed
    finally show "hash_map ?h key' = Some x \<longleftrightarrow> ((hash_map h)(key \<mapsto> v)) key' = Some x"
      by (simp add: hash_map_def tbl_lookup_Some [OF ok])
  qed
  have "hash_wf ?h" by (rule hash_wf_intro [OF k(1,2)]) (use k ok' u d load cnt in simp_all)
  moreover have "Hash_insert h key v = ret ?h" using p by (simp add: Hash_insert_def live_def)
  ultimately show ?thesis using map by (intro exI [of _ ?h]) simp
qed

text \<open>Turning live entries into tombstones; \<open>del\<close> says which keys go.\<close>

lemma tombstones_ok:
  assumes ok: "tbl_ok k es" and len': "length es' = length es"
    and upd: "\<And>r. r < length es \<Longrightarrow> es' ! r =
      (if e_status (es ! r) = ALLOCATED \<and> del (e_key (es ! r)) then (es ! r)\<lparr>e_status := DELETED\<rparr> else es ! r)"
  shows "tbl_ok k es'" and "tbl_lookup es' = (\<lambda>key. if del key then None else tbl_lookup es key)"
proof -
  have len: "length es = 2 ^ k" using ok by (simp add: tbl_ok_def)
  have nf: "e_status (es' ! r) \<noteq> FREE" if "r < 2 ^ k" "e_status (es ! r) \<noteq> FREE" for r
    using that upd len by auto
  have ky: "e_key (es' ! r) = e_key (es ! r)" if "r < 2 ^ k" for r
    using that upd len by auto
  have st: "e_status (es' ! r) = ALLOCATED \<longleftrightarrow> e_status (es ! r) = ALLOCATED \<and> \<not> del (e_key (es ! r))"
    "e_value (es' ! r) = e_value (es ! r)" if "r < 2 ^ k" for r
    using that upd len by auto
  have "reaches k es' key r" if "reaches k es key r" for key r
    using that unfolding reaches_def by (metis key_slot_less ky nf)
  then show ok': "tbl_ok k es'"
    using ok len len' st ky by (simp add: tbl_ok_def)
  have lv: "live (es' ! r) key \<longleftrightarrow> live (es ! r) key \<and> \<not> del key" if "r < 2 ^ k" for r key
    using st ky that by (auto simp: live_def)
  show "tbl_lookup es' = (\<lambda>key. if del key then None else tbl_lookup es key)"
  proof (rule ext, rule option_eqI)
    fix key v
    show "tbl_lookup es' key = Some v \<longleftrightarrow> (if del key then None else tbl_lookup es key) = Some v"
      using lv st(2) by (auto simp: tbl_lookup_Some [OF ok] tbl_lookup_Some [OF ok'])
  qed
qed

lemma clearTombstones_spec:
  assumes k: "3 \<le> k" "k \<le> 59" "mask h = 2 ^ k - 1" and ok: "tbl_ok k (entries h)"
    and u: "used h = count ALLOCATED (entries h) + count DELETED (entries h)"
    and d: "deleted h = count DELETED (entries h)" and load: "4 * used h \<le> 3 * 2 ^ k"
  shows "\<exists>h'. clearTombstones h = ret h' \<and> hash_wf h' \<and> hash_map h' = hash_map h \<and>
    4 * deleted h' < mask h' + 1 \<and> (4 * deleted h < 2 ^ k \<longrightarrow> h' = h) \<and>
    used h' \<le> used h \<and> mask h' \<le> mask h"
proof -
  have pw: "(2::nat) ^ k \<le> 2 ^ 59" using k(2) by (intro power_increasing) auto
  have pk: "(2::nat) ^ k = 4 * 2 ^ (k - 2)" by (rule load_limit(2) [OF k(1)])
  have "size_add (mask h) 1 = 2 ^ k" using k(3) pw by simp
  then have cond: "size_add (mask h) 1 div 4 = 2 ^ (k - 2)" using pk by simp
  show ?thesis
  proof (cases "deleted h \<ge> 2 ^ (k - 2)")
    case False
    then have "clearTombstones h = ret h" by (simp only: clearTombstones_def cond) simp
    moreover have "hash_wf h" by (rule hash_wf_intro) (use assms in simp_all)
    moreover have "4 * deleted h < mask h + 1" using False k(3) pk by simp
    ultimately show ?thesis by (intro exI [of _ h]) simp
  next
    case True
    have x: "0 < (2::nat) ^ (k - 2)" by simp
    have ne: "entries h \<noteq> []" using ok by (auto simp: tbl_ok_def)
    have "used h \<le> 2 ^ 59" using load pw by simp
    moreover have "count ALLOCATED (entries h) < used h" using x True d u by linarith
    ultimately obtain h' k' where h': "Hash_resize h (used h) = ret h'" "3 \<le> k'" "k' \<le> 59"
        "mask h' = 2 ^ k' - 1" "tbl_ok k' (entries h')" "hash_map h' = hash_map h"
        "count ALLOCATED (entries h') = count ALLOCATED (entries h)" "count DELETED (entries h') = 0"
        "used h \<le> 2 ^ k'" "used h' = count ALLOCATED (entries h)" "deleted h' = 0"
        "k' = 3 \<or> 2 ^ k' < 2 * used h"
      using resize_spec [OF tbl_ok_distinct_live [OF ok], of "used h"] ne by force
    have "3 * count DELETED (entries h) \<ge> used h" using True load pk d by simp
    then have "4 * used h' \<le> 3 * 2 ^ k'" using u h'(9,10) by linarith
    then have "hash_wf h'" by (intro hash_wf_intro [OF h'(2,3,4,5)]) (use h' in simp_all)
    moreover have "clearTombstones h = ret h'"
      using True h'(1) by (simp only: clearTombstones_def cond) simp
    moreover have "\<not> 4 * deleted h < 2 ^ k" using True pk by simp
    moreover have "mask h' \<le> mask h"
    proof -
      have "k' \<le> k"
      proof (rule ccontr)
        assume "\<not> k' \<le> k"
        then have "(2::nat) ^ (k + 1) \<le> 2 ^ k'" by (intro power_increasing) auto
        with h'(12) load \<open>\<not> k' \<le> k\<close> k(1) show False by auto
      qed
      then have "(2::nat) ^ k' \<le> 2 ^ k" by (intro power_increasing) auto
      then show ?thesis unfolding h'(4) k(3) by (rule diff_le_mono)
    qed
    ultimately show ?thesis using h' u by (intro exI [of _ h']) simp
  qed
qed

lemma hash_delete_spec:
  assumes wf: "hash_wf h"
  shows "\<exists>h'. Hash_delete h key = ret (h', case hash_map h key of None \<Rightarrow> 0 | Some v \<Rightarrow> v) \<and>
    hash_wf h' \<and> hash_map h' = (hash_map h)(key := None) \<and> used h' \<le> used h \<and> mask h' \<le> mask h"
proof -
  obtain k where k: "3 \<le> k" "k \<le> 59" "mask h = 2 ^ k - 1" and ok: "tbl_ok k (entries h)"
    and u: "used h = count ALLOCATED (entries h) + count DELETED (entries h)"
    and d: "deleted h = count DELETED (entries h)" and load: "4 * used h \<le> 3 * 2 ^ k"
    using wf by (auto simp: hash_wf_def)
  have len: "length (entries h) = 2 ^ k" using ok by (simp add: tbl_ok_def)
  obtain p where p: "p < 2 ^ k" "lookupForSearch h key (HASH key) = ret p"
    and res: "case hash_map h key of
       Some v \<Rightarrow> live (entries h ! p) key \<and> e_value (entries h ! p) = v
     | None \<Rightarrow> e_status (entries h ! p) \<noteq> ALLOCATED"
    using lookupForSearch_spec [OF ok k(2,3), of key] hash_wf_free [OF wf]
    by (auto simp: hash_map_def split: option.splits)
  show ?thesis
  proof (cases "hash_map h key")
    case None
    then have "(hash_map h)(key := None) = hash_map h" by auto
    with None p res wf show ?thesis by (intro exI [of _ h]) (simp add: Hash_delete_def)
  next
    case (Some v)
    with res have lv: "live (entries h ! p) key" and v: "e_value (entries h ! p) = v" by auto
    have del: "0 < 2 ^ 64 - (1::nat)" by simp
    let ?e = "(entries h ! p)\<lparr>e_status := DELETED\<rparr>"
    let ?h = "h\<lparr>entries := (entries h)[p := ?e], deleted := size_add (deleted h) 1\<rparr>"
    have pw: "(2::nat) ^ k \<le> 2 ^ 59" using k(2) by (intro power_increasing) auto
    have add: "size_add (deleted h) 1 = deleted h + 1" using load u d pw by simp
    have tomb: "(entries h)[p := ?e] ! r =
        (if e_status (entries h ! r) = ALLOCATED \<and> e_key (entries h ! r) = key
         then (entries h ! r)\<lparr>e_status := DELETED\<rparr> else entries h ! r)" if "r < length (entries h)" for r
      using that lv tbl_ok_unique [OF ok _ p(1) _ lv, of r] len p(1)
      by (auto simp: nth_list_update live_def)
    note tk = tombstones_ok [OF ok, of "(entries h)[p := ?e]" "\<lambda>x. x = key", OF _ tomb]
    have cnt: "count ALLOCATED (entries ?h) + 1 = count ALLOCATED (entries h)"
      "count DELETED (entries ?h) = count DELETED (entries h) + 1"
      using count_update [of p "entries h" ALLOCATED ?e] count_update [of p "entries h" DELETED ?e] p(1) len lv
      by (simp_all add: live_def)
    have "\<exists>h'. clearTombstones ?h = ret h' \<and> hash_wf h' \<and> hash_map h' = hash_map ?h \<and>
        4 * deleted h' < mask h' + 1 \<and> (4 * deleted ?h < 2 ^ k \<longrightarrow> h' = ?h) \<and>
        used h' \<le> used ?h \<and> mask h' \<le> mask ?h"
      by (rule clearTombstones_spec [OF k(1,2)]) (use k tk u d cnt load add in auto)
    then obtain h' where "clearTombstones ?h = ret h'" "hash_wf h'" "hash_map h' = hash_map ?h"
      "used h' \<le> used h" "mask h' \<le> mask h" by auto
    moreover have "hash_map ?h = (hash_map h)(key := None)"
      using tk(2) by (auto simp: hash_map_def)
    ultimately show ?thesis
      using p lv v Some by (intro exI [of _ h']) (simp add: Hash_delete_def live_def)
  qed
qed

text \<open>
  What \<open>Hash_deleteIf\<close> does, without the table: the callback is run once on each live entry, in the
  order of the array, and the entries it answers for are dropped.
\<close>

fun run_callbacks ::
  "(addr \<Rightarrow> addr \<Rightarrow> 's \<Rightarrow> bool \<times> 's) \<Rightarrow> (addr \<times> addr) list \<Rightarrow> 's \<Rightarrow> addr list \<times> 's" where
  "run_callbacks callback [] s = ([], s)"
| "run_callbacks callback ((key, v) # ps) s =
     (let (b, s') = callback key v s; (dropped, s'') = run_callbacks callback ps s'
      in (if b then key # dropped else dropped, s''))"

definition live_pairs :: "Hash \<Rightarrow> (addr \<times> addr) list" where
  "live_pairs h = map (\<lambda>e. (e_key e, e_value e)) (filter (\<lambda>e. e_status e = ALLOCATED) (entries h))"

lemma run_callbacks_subset: "set (fst (run_callbacks cb ps s)) \<subseteq> fst ` set ps"
proof (induction ps arbitrary: s)
  case (Cons p ps)
  then show ?case by (cases p) (auto simp: split_beta)
qed simp

lemma deleteIf_entries_spec:
  assumes "distinct_live es" and "d + count ALLOCATED es < 2 ^ 64"
  shows "\<exists>es' d'. deleteIf_entries cb es d s =
      (es', d', snd (run_callbacks cb (map (\<lambda>e. (e_key e, e_value e)) (filter (\<lambda>e. e_status e = ALLOCATED) es)) s)) \<and>
    length es' = length es \<and>
    (let dropped = set (fst (run_callbacks cb (map (\<lambda>e. (e_key e, e_value e)) (filter (\<lambda>e. e_status e = ALLOCATED) es)) s)) in
     (\<forall>r < length es. es' ! r = (if e_status (es ! r) = ALLOCATED \<and> e_key (es ! r) \<in> dropped
        then (es ! r)\<lparr>e_status := DELETED\<rparr> else es ! r))) \<and>
    d' + count ALLOCATED es' = d + count ALLOCATED es \<and>
    count ALLOCATED es' + count DELETED es' = count ALLOCATED es + count DELETED es"
  using assms
proof (induction es arbitrary: d s)
  case Nil
  then show ?case by simp
next
  case (Cons e es)
  show ?case
  proof (cases "e_status e = ALLOCATED")
    case False
    from Cons.prems False have dl: "distinct_live es" "d + count ALLOCATED es < 2 ^ 64"
      by (simp_all add: distinct_live_Cons count_def)
    show ?thesis using Cons.IH [OF dl, of s] False
      by (auto simp: count_def nth_Cons Let_def split: nat.splits)
  next
    case True
    obtain b s1 where cb: "cb (e_key e) (e_value e) s = (b, s1)" by fastforce
    have add: "size_add d 1 = d + 1" using Cons.prems(2) True by (simp add: count_def)
    let ?d = "if b then d + 1 else d"
    from Cons.prems True have dl: "distinct_live es" "?d + count ALLOCATED es < 2 ^ 64"
      and none: "tbl_lookup es (e_key e) = None"
      by (auto simp: distinct_live_Cons count_def)
    let ?pairs = "map (\<lambda>e. (e_key e, e_value e)) (filter (\<lambda>e. e_status e = ALLOCATED) es)"
    obtain dropped s2 where rc: "run_callbacks cb ?pairs s1 = (dropped, s2)" by fastforce
    have notin: "e_key e \<notin> set dropped"
      using run_callbacks_subset [of cb ?pairs s1] none rc
      by (auto simp: tbl_lookup_def find_None_iff live_def dest!: subsetD)
    have other: "e_key (es ! r) \<noteq> e_key e" if "r < length es" "e_status (es ! r) = ALLOCATED" for r
      using none that by (auto simp: tbl_lookup_None live_def)
    show ?thesis using Cons.IH [OF dl, of s1] True cb rc add notin
      by (auto simp: count_def nth_Cons Let_def dest: other split: nat.splits)
  qed
qed

lemma hash_deleteIf_spec:
  assumes wf: "hash_wf h"
  shows "\<exists>h'. Hash_deleteIf cb h s = ret (h', snd (run_callbacks cb (live_pairs h) s)) \<and> hash_wf h' \<and>
    hash_map h' = (\<lambda>key. if key \<in> set (fst (run_callbacks cb (live_pairs h) s)) then None else hash_map h key)"
proof -
  obtain k where k: "3 \<le> k" "k \<le> 59" "mask h = 2 ^ k - 1" and ok: "tbl_ok k (entries h)"
    and u: "used h = count ALLOCATED (entries h) + count DELETED (entries h)"
    and d: "deleted h = count DELETED (entries h)" and load: "4 * used h \<le> 3 * 2 ^ k"
    using wf by (auto simp: hash_wf_def)
  have len: "length (entries h) = 2 ^ k" using ok by (simp add: tbl_ok_def)
  have pw: "(2::nat) ^ k \<le> 2 ^ 59" using k(2) by (intro power_increasing) auto
  have "deleted h + count ALLOCATED (entries h) < 2 ^ 64" using u d load pw by simp
  from deleteIf_entries_spec [OF tbl_ok_distinct_live [OF ok] this, of cb s]
  obtain es d' where es: "deleteIf_entries cb (entries h) (deleted h) s = (es, d', snd (run_callbacks cb (live_pairs h) s))"
      "length es = length (entries h)"
      "\<And>r. r < length (entries h) \<Longrightarrow> es ! r =
         (if e_status (entries h ! r) = ALLOCATED \<and> e_key (entries h ! r) \<in> set (fst (run_callbacks cb (live_pairs h) s))
          then (entries h ! r)\<lparr>e_status := DELETED\<rparr> else entries h ! r)"
      "d' + count ALLOCATED es = deleted h + count ALLOCATED (entries h)"
      "count ALLOCATED es + count DELETED es = count ALLOCATED (entries h) + count DELETED (entries h)"
    unfolding live_pairs_def Let_def by blast
  note tk = tombstones_ok [OF ok es(2,3)]
  let ?h = "h\<lparr>entries := es, deleted := d'\<rparr>"
  have "\<exists>h'. clearTombstones ?h = ret h' \<and> hash_wf h' \<and> hash_map h' = hash_map ?h \<and>
      4 * deleted h' < mask h' + 1 \<and> (4 * deleted ?h < 2 ^ k \<longrightarrow> h' = ?h) \<and>
        used h' \<le> used ?h \<and> mask h' \<le> mask ?h"
    by (rule clearTombstones_spec [OF k(1,2)]) (use k tk u d es load in auto)
  then show ?thesis using es(1) tk(2) by (auto simp: Hash_deleteIf_def hash_map_def fun_eq_iff)
qed

section \<open>Sequences of operations\<close>

text \<open>
  The table as its client sees it: a run of operations gives the results a plain map would give, as
  long as a key is only inserted while it is absent.
\<close>

datatype table_op = Op_insert addr addr | Op_delete addr | Op_search addr

fun run_table :: "Hash \<Rightarrow> table_op list \<Rightarrow> (Hash \<times> addr list) prog" where
  "run_table h [] = ret (h, [])"
| "run_table h (Op_insert key v # ops) =
     pbind (Hash_insert h key v) (\<lambda>h. pbind (run_table h ops) (\<lambda>(h, rs). ret (h, 0 # rs)))"
| "run_table h (Op_delete key # ops) =
     pbind (Hash_delete h key) (\<lambda>(h, r). pbind (run_table h ops) (\<lambda>(h, rs). ret (h, r # rs)))"
| "run_table h (Op_search key # ops) =
     pbind (Hash_search h key) (\<lambda>r. pbind (run_table h ops) (\<lambda>(h, rs). ret (h, r # rs)))"

definition or_null :: "addr option \<Rightarrow> addr" where
  "or_null r = (case r of None \<Rightarrow> 0 | Some v \<Rightarrow> v)"

fun run_map :: "(addr \<Rightarrow> addr option) \<Rightarrow> table_op list \<Rightarrow> (addr \<Rightarrow> addr option) \<times> addr list" where
  "run_map f [] = (f, [])"
| "run_map f (Op_insert key v # ops) = (let (f, rs) = run_map (f(key \<mapsto> v)) ops in (f, 0 # rs))"
| "run_map f (Op_delete key # ops) = (let (f', rs) = run_map (f(key := None)) ops in (f', or_null (f key) # rs))"
| "run_map f (Op_search key # ops) = (let (f', rs) = run_map f ops in (f', or_null (f key) # rs))"

fun inserts_absent :: "(addr \<Rightarrow> addr option) \<Rightarrow> table_op list \<Rightarrow> bool" where
  "inserts_absent f [] = True"
| "inserts_absent f (Op_insert key v # ops) = (f key = None \<and> inserts_absent (f(key \<mapsto> v)) ops)"
| "inserts_absent f (Op_delete key # ops) = inserts_absent (f(key := None)) ops"
| "inserts_absent f (Op_search key # ops) = inserts_absent f ops"

lemma run_table_refines:
  assumes "hash_wf h" and "inserts_absent (hash_map h) ops"
    and "used h \<le> n" and "mask h + 1 \<le> max 8 (4 * n)" and "n + length ops < 2 ^ 55"
  shows "\<exists>h'. run_table h ops = ret (h', snd (run_map (hash_map h) ops)) \<and> hash_wf h' \<and>
    hash_map h' = fst (run_map (hash_map h) ops)"
  using assms
proof (induction ops arbitrary: h n)
  case Nil
  then show ?case by simp
next
  case (Cons op ops)
  show ?case
  proof (cases op)
    case (Op_insert key v)
    have "mask h < 2 ^ 58" using Cons.prems(4,5) by simp
    then obtain h1 where h1: "Hash_insert h key v = ret h1" "hash_wf h1"
      "hash_map h1 = (hash_map h)(key \<mapsto> v)" "used h1 \<le> used h + 1"
      "mask h1 + 1 \<le> max (mask h + 1) (4 * used h)"
      using hash_insert_fresh [OF Cons.prems(1)] Cons.prems(2) Op_insert by auto
    have "\<exists>h'. run_table h1 ops = ret (h', snd (run_map (hash_map h1) ops)) \<and> hash_wf h' \<and>
        hash_map h' = fst (run_map (hash_map h1) ops)"
      by (rule Cons.IH [of _ "n + 1"]) (use h1 Cons.prems Op_insert in \<open>auto simp del: fun_upd_apply\<close>)
    with h1 Op_insert show ?thesis by (auto simp: split_beta)
  next
    case (Op_delete key)
    obtain h1 where h1: "Hash_delete h key = ret (h1, or_null (hash_map h key))" "hash_wf h1"
      "hash_map h1 = (hash_map h)(key := None)" "used h1 \<le> used h" "mask h1 \<le> mask h"
      using hash_delete_spec [OF Cons.prems(1), of key] by (auto simp: or_null_def)
    have "\<exists>h'. run_table h1 ops = ret (h', snd (run_map (hash_map h1) ops)) \<and> hash_wf h' \<and>
        hash_map h' = fst (run_map (hash_map h1) ops)"
      by (rule Cons.IH [of _ "n"]) (use h1 Cons.prems Op_delete in \<open>auto simp del: fun_upd_apply\<close>)
    with h1 Op_delete show ?thesis by (auto simp: split_beta)
  next
    case (Op_search key)
    have "\<exists>h'. run_table h ops = ret (h', snd (run_map (hash_map h) ops)) \<and> hash_wf h' \<and>
        hash_map h' = fst (run_map (hash_map h) ops)"
      by (rule Cons.IH [of _ "n"]) (use Cons.prems Op_search in auto)
    with Op_search hash_search_spec [OF Cons.prems(1), of key] show ?thesis
      by (auto simp: split_beta or_null_def)
  qed
qed

section \<open>Properties\<close>

lemma create_8:
  "Hash_create 8 = ret \<lparr>entries = replicate 8 \<lparr>e_status = FREE, e_key = 0, e_value = 0\<rparr>, mask = 7, used = 0, deleted = 0\<rparr>"
  by (simp add: Hash_create_def Hash_resize_def grow_capacity.simps calloc_entries_def size_sub_def)

text \<open>
  C9. A finalizer table made by \<open>Hash_create(8)\<close> behaves as a finite map under every sequence of inserts,
  deletions and searches in which a key is inserted only while it is absent (as the library does when it
  registers one finalizer per object): every operation returns, with the result the map would give, through
  all resizes, tombstones and rebuilds.
\<close>

theorem hash_table_refines_map:
  assumes "inserts_absent Map.empty ops" and "length ops < 2 ^ 54"
  shows "\<exists>h h'. Hash_create 8 = ret h \<and> run_table h ops = ret (h', snd (run_map Map.empty ops)) \<and>
    hash_wf h' \<and> hash_map h' = fst (run_map Map.empty ops)"
proof -
  obtain h where h: "Hash_create 8 = ret h" "hash_wf h" "hash_map h = Map.empty" "used h = 0" "mask h + 1 = 8"
    using hash_create_spec [of 8] create_8 by auto
  show ?thesis
    using run_table_refines [OF h(2), of ops 0] h assms by auto
qed

theorem hash_table_refines_map_witness:
  "\<exists>h h'. Hash_create 8 = ret h \<and>
     run_table h [Op_insert 4096 1, Op_search 4096, Op_delete 4096, Op_insert 4096 2, Op_search 4096]
       = ret (h', [0, 1, 1, 0, 2])"
  using hash_table_refines_map [of "[Op_insert 4096 1, Op_search 4096, Op_delete 4096, Op_insert 4096 2, Op_search 4096]"]
  by (auto simp: or_null_def)

text \<open>
  C12. On a well-formed table the unbounded probing loops of search and insertion always end, at an index inside
  the table: the probe sequence visits every slot before it repeats, and a slot that ends it exists.
\<close>

theorem hash_probing_ends:
  assumes "hash_wf h"
  shows "\<exists>i j. lookupForSearch h key (HASH key) = ret i \<and> i < length (entries h) \<and>
    lookupForInsert h key (HASH key) = ret j \<and> j < length (entries h)"
proof -
  obtain k where k: "k \<le> 59" "mask h = 2 ^ k - 1" "tbl_ok k (entries h)"
    using assms by (auto simp: hash_wf_def)
  have "count ALLOCATED (entries h) < 2 ^ k"
    using hash_wf_free [OF assms] k(3) count_split [of "entries h"] by (simp add: tbl_ok_def)
  with lookupForSearch_spec [OF k(3,1,2) hash_wf_free(1) [OF assms], of key] lookupForInsert_spec [OF k(3,1,2), of key] k(3)
  show ?thesis by (metis tbl_ok_def)
qed

theorem hash_probing_ends_witness:
  "\<exists>h i j. Hash_create 8 = ret h \<and> lookupForSearch h 4096 (HASH 4096) = ret i \<and> i < 8 \<and>
     lookupForInsert h 4096 (HASH 4096) = ret j \<and> j < 8"
proof -
  obtain h where h: "Hash_create 8 = ret h" "hash_wf h" "length (entries h) = 8"
    using hash_create_spec [of 8] create_8 by auto
  with hash_probing_ends [OF h(2), of 4096] show ?thesis by auto
qed

lemma live_pairs_map:
  assumes "hash_wf h"
  shows "distinct (map fst (live_pairs h)) \<and> map_of (live_pairs h) = hash_map h"
proof
  have "distinct_live (entries h)" using assms tbl_ok_distinct_live by (auto simp: hash_wf_def)
  then show "distinct (map fst (live_pairs h))" by (simp add: live_pairs_def distinct_live_def comp_def)
  have "map_of (map (\<lambda>e. (e_key e, e_value e)) (filter (\<lambda>e. e_status e = ALLOCATED) es)) key = tbl_lookup es key" for es key
    by (induction es) (auto simp: tbl_lookup_def live_def)
  then show "map_of (live_pairs h) = hash_map h" by (simp add: live_pairs_def hash_map_def fun_eq_iff)
qed

text \<open>
  C14. \<open>Hash_deleteIf\<close> calls the callback once on each stored pair, in table order, and removes exactly the keys it
  asks to remove; the table stays well-formed.
\<close>

theorem hash_deleteIf_once:
  assumes "hash_wf h"
  shows "distinct (map fst (live_pairs h)) \<and> map_of (live_pairs h) = hash_map h \<and>
    (\<exists>h'. Hash_deleteIf cb h s = ret (h', snd (run_callbacks cb (live_pairs h) s)) \<and> hash_wf h' \<and>
       hash_map h' = (\<lambda>key. if key \<in> set (fst (run_callbacks cb (live_pairs h) s)) then None else hash_map h key))"
  by (intro conjI live_pairs_map [OF assms, THEN conjunct1] live_pairs_map [OF assms, THEN conjunct2]
      hash_deleteIf_spec [OF assms])

theorem hash_deleteIf_once_witness:
  "\<exists>h h'. Hash_create 8 = ret h \<and> Hash_deleteIf (\<lambda>key v s. (True, key # s)) h [] = ret (h', [])"
proof -
  obtain h where h: "Hash_create 8 = ret h" "hash_wf h" "live_pairs h = []"
    using hash_create_spec [of 8] create_8 by (auto simp: live_pairs_def)
  then show ?thesis
    using hash_deleteIf_once [OF h(2), of "\<lambda>key v s. (True, key # s)" "[]"] by force
qed

lemma hash_values: "unat (HASH 4096) = 2732527742" "unat (HASH 4112) = 1514325334"
  by (simp_all add: HASH_eval cong: let_weak_cong)

lemmas hash_eval = Hash_insert_def Hash_delete_def Hash_search_def lookupForInsert_def lookupForSearch_def
  probe.simps put_entry_def allocate_def clearTombstones_def size_sub_def size_add_def hash_values


end
