(* ===== verification/Array.thy ===== *)
theory Array
  imports Prelude
begin

text \<open>
  The growable pointer array of \<open>include/array.h\<close>, which holds the local allocators of the running
  threads. \<open>ary_buffer\<close> is the allocated region as a list, \<open>ary_cursor\<close> and \<open>ary_limit\<close> are indices into it (the
  C pointers minus \<open>buffer\<close>). What fresh memory holds is the parameter \<open>junk\<close>; what lies just behind
  the buffer, which \<open>Array_delete\<close> reads, is the parameter \<open>past\<close>.
\<close>

section \<open>The array and its operations\<close>

record Array =
  ary_capacity :: nat
  ary_buffer :: "addr list"
  ary_cursor :: nat
  ary_limit :: nat

definition Array_size :: "Array \<Rightarrow> nat" where
  "Array_size self = ary_cursor self"

definition Array_isEmpty :: "Array \<Rightarrow> bool" where
  "Array_isEmpty self \<longleftrightarrow> ary_cursor self = 0"

text \<open>
  \<open>realloc(p, bytes)\<close>: keeps the old contents, returns \<open>NULL\<close> for a request beyond \<open>PTRDIFF_MAX\<close>. The
  byte count is computed in \<open>size_t\<close>.
\<close>

definition realloc_words :: "(nat \<Rightarrow> addr) \<Rightarrow> addr list \<Rightarrow> nat \<Rightarrow> addr list option" where
  "realloc_words junk buf bytes =
     (if bytes < 2 ^ 63
      then Some (let n = bytes div WORD_SIZE in take n buf @ map junk [length buf..<n])
      else None)"

definition Array_resize :: "(nat \<Rightarrow> addr) \<Rightarrow> Array \<Rightarrow> nat \<Rightarrow> Array prog" where
  "Array_resize junk self new_capacity =
     (let current_index = Array_size self in
      case realloc_words junk (ary_buffer self) (size_mul new_capacity WORD_SIZE) of
        None \<Rightarrow> abort_with ''GC: realloc''
      | Some buf \<Rightarrow>
          ret (self\<lparr>ary_capacity := new_capacity, ary_buffer := buf, ary_cursor := current_index,
                    ary_limit := new_capacity\<rparr>))"

definition Array_init :: "(nat \<Rightarrow> addr) \<Rightarrow> Array \<Rightarrow> nat \<Rightarrow> Array prog" where
  "Array_init junk self cap =
     pbind (Array_resize junk (self\<lparr>ary_buffer := []\<rparr>) cap) (\<lambda>self. ret (self\<lparr>ary_cursor := 0\<rparr>))"

text \<open>\<open>NULL\<close> (\<open>0\<close>) stands for an index out of range.\<close>

definition Array_get :: "Array \<Rightarrow> int \<Rightarrow> addr" where
  "Array_get self index =
     (if index < 0 \<or> index \<ge> int (Array_size self) then 0 else ary_buffer self ! nat index)"

text \<open>\<open>Array_each\<close> runs the callback on the items in order.\<close>

function each_from :: "(addr \<Rightarrow> 's \<Rightarrow> 's prog) \<Rightarrow> Array \<Rightarrow> nat \<Rightarrow> 's \<Rightarrow> 's prog" where
  "each_from callback self c s =
     (if c < ary_cursor self
      then pbind (callback (ary_buffer self ! c) s) (\<lambda>s. each_from callback self (c + 1) s)
      else ret s)"
  by pat_completeness auto
termination
  by (relation "measure (\<lambda>(callback, self, c, s). ary_cursor self - c)") auto

definition Array_each :: "Array \<Rightarrow> (addr \<Rightarrow> 's \<Rightarrow> 's prog) \<Rightarrow> 's \<Rightarrow> 's prog" where
  "Array_each self callback s = each_from callback self 0 s"

definition Array_push :: "(nat \<Rightarrow> addr) \<Rightarrow> Array \<Rightarrow> addr \<Rightarrow> Array prog" where
  "Array_push junk self item =
     pbind (if ary_cursor self = ary_limit self then Array_resize junk self (ary_capacity self * 2) else ret self)
       (\<lambda>self. ret (self\<lparr>ary_buffer := (ary_buffer self)[ary_cursor self := item], ary_cursor := ary_cursor self + 1\<rparr>))"

definition Array_pop :: "Array \<Rightarrow> Array \<times> addr" where
  "Array_pop self =
     (if Array_isEmpty self then (self, 0)
      else let c = ary_cursor self - 1 in (self\<lparr>ary_cursor := c\<rparr>, ary_buffer self ! c))"

text \<open>The inner loop of \<open>Array_delete\<close>, \<open>while (cursor < self->limit)\<close>, moves the rest one down.\<close>

function shift_down :: "addr \<Rightarrow> nat \<Rightarrow> addr list \<Rightarrow> nat \<Rightarrow> addr list" where
  "shift_down past lim buf c =
     (if c < lim
      then shift_down past lim (buf[c := (if c + 1 < length buf then buf ! (c + 1) else past)]) (c + 1)
      else buf)"
  by pat_completeness auto
termination
  by (relation "measure (\<lambda>(past, lim, buf, c). lim - c)") auto

function delete_from :: "addr \<Rightarrow> Array \<Rightarrow> addr \<Rightarrow> nat \<Rightarrow> Array" where
  "delete_from past self item c =
     (if c < ary_cursor self
      then if ary_buffer self ! c = item
           then self\<lparr>ary_buffer := shift_down past (ary_limit self) (ary_buffer self) c, ary_cursor := ary_cursor self - 1\<rparr>
           else delete_from past self item (c + 1)
      else self)"
  by pat_completeness auto
termination
  by (relation "measure (\<lambda>(past, self, item, c). ary_cursor self - c)") auto

definition Array_delete :: "addr \<Rightarrow> Array \<Rightarrow> addr \<Rightarrow> Array" where
  "Array_delete past self item = delete_from past self item 0"

definition Array_clear :: "Array \<Rightarrow> Array" where
  "Array_clear self = (if Array_isEmpty self then self else self\<lparr>ary_cursor := 0\<rparr>)"

declare each_from.simps [simp del] shift_down.simps [simp del] delete_from.simps [simp del]

section \<open>Refinement of a list\<close>

definition array_wf :: "Array \<Rightarrow> bool" where
  "array_wf self \<longleftrightarrow> 0 < ary_capacity self \<and> length (ary_buffer self) = ary_capacity self \<and>
     ary_limit self = ary_capacity self \<and> ary_cursor self \<le> ary_limit self"

definition items :: "Array \<Rightarrow> addr list" where
  "items self = take (ary_cursor self) (ary_buffer self)"

lemma length_items [simp]: "array_wf self \<Longrightarrow> length (items self) = Array_size self"
  by (simp add: items_def array_wf_def Array_size_def)

lemma Array_resize_ok:
  assumes "length (ary_buffer self) \<le> n" and "n < 2 ^ 60" and "ary_cursor self \<le> length (ary_buffer self)"
  shows "\<exists>self'. Array_resize junk self n = ret self' \<and> ary_capacity self' = n \<and> ary_limit self' = n \<and>
    ary_cursor self' = ary_cursor self \<and> length (ary_buffer self') = n \<and> items self' = items self"
  using assms by (auto simp: Array_resize_def realloc_words_def Array_size_def items_def Let_def)

lemma Array_init_ok:
  assumes "0 < n" and "n < 2 ^ 60"
  shows "\<exists>self'. Array_init junk self n = ret self' \<and> array_wf self' \<and> items self' = [] \<and> ary_capacity self' = n"
  using assms by (auto simp: Array_init_def Array_resize_def realloc_words_def Array_size_def items_def array_wf_def Let_def)

lemma Array_push_ok:
  assumes wf: "array_wf self" and small: "ary_capacity self < 2 ^ 59"
  shows "\<exists>self'. Array_push junk self x = ret self' \<and> array_wf self' \<and> items self' = items self @ [x] \<and>
    ary_capacity self' = (if ary_cursor self = ary_limit self then 2 * ary_capacity self else ary_capacity self)"
proof -
  have "\<exists>self1. (if ary_cursor self = ary_limit self then Array_resize junk self (ary_capacity self * 2) else ret self)
      = ret self1 \<and> array_wf self1 \<and> ary_cursor self1 = ary_cursor self \<and> ary_cursor self1 < ary_limit self1 \<and>
      items self1 = items self \<and> ary_capacity self1 = (if ary_cursor self = ary_limit self then 2 * ary_capacity self else ary_capacity self)"
  proof (cases "ary_cursor self = ary_limit self")
    case True
    then show ?thesis
      using Array_resize_ok [of self "ary_capacity self * 2" junk] wf small by (auto simp: array_wf_def)
  next
    case False
    then show ?thesis using wf by (auto simp: array_wf_def)
  qed
  then obtain self1 where s1: "(if ary_cursor self = ary_limit self then Array_resize junk self (ary_capacity self * 2) else ret self)
      = ret self1" "array_wf self1" "ary_cursor self1 = ary_cursor self" "ary_cursor self1 < ary_limit self1"
      "items self1 = items self" "ary_capacity self1 = (if ary_cursor self = ary_limit self then 2 * ary_capacity self else ary_capacity self)"
    by blast
  then show ?thesis
    by (auto simp: Array_push_def array_wf_def items_def take_Suc_conv_app_nth)
qed

lemma Array_pop_ok:
  assumes "array_wf self"
  shows "array_wf (fst (Array_pop self))"
    and "items (fst (Array_pop self)) = butlast (items self)"
    and "snd (Array_pop self) = (if items self = [] then 0 else last (items self))"
  using assms
  by (auto simp: Array_pop_def Array_isEmpty_def array_wf_def items_def Let_def butlast_take last_conv_nth)

lemma shift_down_spec:
  assumes "c \<le> lim" and "lim \<le> length buf"
  shows "length (shift_down past lim buf c) = length buf \<and>
    (\<forall>i < length buf. shift_down past lim buf c ! i =
       (if c \<le> i \<and> i < lim then (if i + 1 < length buf then buf ! (i + 1) else past) else buf ! i))"
  using assms
proof (induction "lim - c" arbitrary: buf c)
  case 0
  then have "lim = c" by simp
  then show ?case by (simp add: shift_down.simps [of past c buf c])
next
  case (Suc d)
  let ?buf = "buf[c := (if c + 1 < length buf then buf ! (c + 1) else past)]"
  have "length (shift_down past lim ?buf (c + 1)) = length ?buf \<and>
    (\<forall>i < length ?buf. shift_down past lim ?buf (c + 1) ! i =
       (if c + 1 \<le> i \<and> i < lim then (if i + 1 < length ?buf then ?buf ! (i + 1) else past) else ?buf ! i))"
    by (rule Suc.hyps(1)) (use Suc.hyps(2) Suc.prems in auto)
  with Suc.hyps(2) Suc.prems show ?case
    by (auto simp: shift_down.simps [of past lim buf c] nth_list_update)
qed

lemma delete_from_spec:
  assumes wf: "array_wf self" and "c \<le> ary_cursor self" and "item \<notin> set (take c (ary_buffer self))"
  shows "array_wf (delete_from past self item c) \<and>
    items (delete_from past self item c) = remove1 item (items self) \<and>
    ary_capacity (delete_from past self item c) = ary_capacity self"
  using assms(2,3)
proof (induction "ary_cursor self - c" arbitrary: c)
  case 0
  then have "c = ary_cursor self" by simp
  with 0 wf show ?case by (simp add: delete_from.simps items_def remove1_idem)
next
  case (Suc d)
  have len: "length (ary_buffer self) = ary_capacity self" "ary_cursor self \<le> ary_capacity self" "ary_limit self = ary_capacity self"
    using wf by (auto simp: array_wf_def)
  show ?case
  proof (cases "ary_buffer self ! c = item")
    case False
    have "array_wf (delete_from past self item (c + 1)) \<and>
        items (delete_from past self item (c + 1)) = remove1 item (items self) \<and>
        ary_capacity (delete_from past self item (c + 1)) = ary_capacity self"
      by (rule Suc.hyps(1)) (use Suc False len in \<open>auto simp: take_Suc_conv_app_nth\<close>)
    moreover have "c < ary_cursor self" using Suc.hyps(2) by simp
    ultimately show ?thesis
      using False by (simp add: delete_from.simps [of past self item c])
  next
    case True
    let ?b = "shift_down past (ary_limit self) (ary_buffer self) c"
    have sd: "length ?b = length (ary_buffer self)"
      "\<And>i. i < length (ary_buffer self) \<Longrightarrow> ?b ! i = (if c \<le> i \<and> i < ary_limit self
         then (if i + 1 < length (ary_buffer self) then ary_buffer self ! (i + 1) else past) else ary_buffer self ! i)"
      using shift_down_spec [of c "ary_limit self" "ary_buffer self" past] Suc.hyps(2) Suc.prems len by auto
    have c: "c < ary_cursor self" using Suc.hyps(2) by simp
    have split: "items self = take c (ary_buffer self) @ item # drop (c + 1) (items self)"
      using c len True id_take_nth_drop [of c "items self"] by (simp add: items_def min_def)
    have "take (ary_cursor self - 1) ?b = take c (ary_buffer self) @ drop (c + 1) (items self)"
    proof (rule nth_equalityI)
      show "length (take (ary_cursor self - 1) ?b) = length (take c (ary_buffer self) @ drop (c + 1) (items self))"
        using c len sd(1) by (simp add: items_def)
      fix i assume "i < length (take (ary_cursor self - 1) ?b)"
      then show "take (ary_cursor self - 1) ?b ! i = (take c (ary_buffer self) @ drop (c + 1) (items self)) ! i"
        using c len sd by (auto simp: items_def nth_append)
    qed
    moreover have "remove1 item (items self) = take c (ary_buffer self) @ drop (c + 1) (items self)"
      using Suc.prems(2) by (subst split) (simp add: remove1_append)
    ultimately show ?thesis
      using True c sd(1) len wf by (simp add: delete_from.simps [of past self item c] items_def array_wf_def)
  qed
qed

lemma Array_delete_ok:
  assumes "array_wf self"
  shows "array_wf (Array_delete past self item)"
    and "items (Array_delete past self item) = remove1 item (items self)"
    and "ary_capacity (Array_delete past self item) = ary_capacity self"
  using delete_from_spec [OF assms, of 0 item past] by (simp_all add: Array_delete_def)

lemma Array_get_ok:
  "array_wf self \<Longrightarrow> Array_get self i = (if 0 \<le> i \<and> i < int (length (items self)) then items self ! nat i else 0)"
  by (auto simp: Array_get_def items_def array_wf_def Array_size_def)

fun each_list :: "(addr \<Rightarrow> 's \<Rightarrow> 's prog) \<Rightarrow> addr list \<Rightarrow> 's \<Rightarrow> 's prog" where
  "each_list f [] s = ret s"
| "each_list f (x # xs) s = pbind (f x s) (each_list f xs)"

lemma Array_each_ok:
  assumes "array_wf self"
  shows "Array_each self f s = each_list f (items self) s"
proof -
  have "each_from f self c s = each_list f (drop c (items self)) s" if "c \<le> ary_cursor self" for c
    using that
  proof (induction "ary_cursor self - c" arbitrary: c s)
    case 0
    then show ?case by (simp add: each_from.simps [of f self c] items_def)
  next
    case (Suc d)
    have "drop c (items self) = ary_buffer self ! c # drop (c + 1) (items self)"
      using Suc.hyps(2) assms by (subst Cons_nth_drop_Suc [symmetric]) (auto simp: items_def array_wf_def)
    moreover have "each_from f self (c + 1) = each_list f (drop (c + 1) (items self))"
      by (rule ext) (use Suc in auto)
    moreover have "c < ary_cursor self" using Suc.hyps(2) by simp
    ultimately show ?case by (simp add: each_from.simps [of f self c])
  qed
  from this [of 0] show ?thesis by (simp add: Array_each_def)
qed

lemma Array_clear_ok: "array_wf self \<Longrightarrow> array_wf (Array_clear self) \<and> items (Array_clear self) = []"
  by (auto simp: Array_clear_def array_wf_def items_def Array_isEmpty_def)

section \<open>Properties\<close>

text \<open>
  \<open>Array_push\<close> appends one item; it doubles the capacity exactly when the buffer is full, and then moves every
  item over.
\<close>

theorem array_push_appends:
  assumes "array_wf self" and "ary_capacity self < 2 ^ 59"
  shows "\<exists>self'. Array_push junk self x = ret self' \<and> array_wf self' \<and> items self' = items self @ [x] \<and>
    ary_capacity self' = (if length (items self) = ary_capacity self then 2 * ary_capacity self else ary_capacity self)"
proof -
  have "length (items self) = ary_capacity self \<longleftrightarrow> ary_cursor self = ary_limit self"
    using assms(1) by (auto simp: array_wf_def items_def)
  with Array_push_ok [OF assms, of junk x] show ?thesis by simp
qed

theorem array_push_appends_witness:
  "\<exists>self'. Array_push (\<lambda>_. 0) \<lparr>ary_capacity = 1, ary_buffer = [7], ary_cursor = 1, ary_limit = 1\<rparr> 8 = ret self' \<and>
     items self' = [7, 8] \<and> ary_capacity self' = 2"
  using array_push_appends [of "\<lparr>ary_capacity = 1, ary_buffer = [7], ary_cursor = 1, ary_limit = 1\<rparr>" "\<lambda>_. 0" 8]
  by (auto simp: array_wf_def items_def)

text \<open>
  C17. \<open>Array_delete\<close> removes the first occurrence of the item, keeps the order and the number of all others, and
  leaves an array without the item as it is.
\<close>

theorem array_delete_removes:
  assumes "array_wf self"
  shows "array_wf (Array_delete past self x) \<and> items (Array_delete past self x) = remove1 x (items self) \<and>
    ary_capacity (Array_delete past self x) = ary_capacity self"
  using Array_delete_ok [OF assms] by simp

theorem array_delete_removes_witness:
  "items (Array_delete 99 \<lparr>ary_capacity = 4, ary_buffer = [7, 8, 9, 0], ary_cursor = 3, ary_limit = 4\<rparr> 8) = [7, 9]"
  using array_delete_removes [of "\<lparr>ary_capacity = 4, ary_buffer = [7, 8, 9, 0], ary_cursor = 3, ary_limit = 4\<rparr>" 99 8]
  by (simp add: array_wf_def items_def)

text \<open>
  C18. Deleting an item that is present reads the word behind the end of the buffer: the loop runs up to \<open>limit\<close> and
  copies \<open>*(cursor + 1)\<close> also for the last slot, so that the last slot ends up with what lies past the buffer.
\<close>

theorem array_delete_reads_past:
  assumes "array_wf self" and "x \<in> set (items self)"
  shows "ary_buffer (Array_delete past self x) ! (ary_capacity self - 1) = past"
proof -
  have "ary_buffer (delete_from past self x c) ! (ary_capacity self - 1) = past"
    if "x \<in> set (drop c (items self))" "c \<le> ary_cursor self" for c
    using that
  proof (induction "ary_cursor self - c" arbitrary: c)
    case (Suc d)
    have c: "c < ary_cursor self" using Suc.hyps(2) by simp
    show ?case
    proof (cases "ary_buffer self ! c = x")
      case True
      have "c \<le> ary_capacity self - 1" using c assms(1) by (auto simp: array_wf_def)
      with True c assms(1) shift_down_spec [of c "ary_limit self" "ary_buffer self" past] show ?thesis
        by (simp add: delete_from.simps [of past self x c] array_wf_def)
    next
      case False
      have "drop c (items self) = ary_buffer self ! c # drop (c + 1) (items self)"
        using c assms(1) by (subst Cons_nth_drop_Suc [symmetric]) (auto simp: items_def array_wf_def)
      with False Suc c show ?thesis by (simp add: delete_from.simps [of past self x c])
    qed
  qed (simp add: items_def)
  from this [of 0] assms(2) show ?thesis by (simp add: Array_delete_def)
qed

theorem array_delete_reads_past_witness:
  "ary_buffer (Array_delete 99 \<lparr>ary_capacity = 4, ary_buffer = [7, 8, 9, 0], ary_cursor = 3, ary_limit = 4\<rparr> 8) ! 3 = 99"
  using array_delete_reads_past [of "\<lparr>ary_capacity = 4, ary_buffer = [7, 8, 9, 0], ary_cursor = 3, ary_limit = 4\<rparr>" 8 99]
  by (simp add: array_wf_def items_def)

end
