(* ===== verification/Stack.thy ===== *)
theory Stack
  imports Prelude
begin

text \<open>
  The mark stack of \<open>include/stack.h\<close>: pairs of pointers in one mapped region. \<open>stk_buffer\<close> is the region,
  word by word (fresh pages are zero), \<open>stk_cursor\<close> the index of the next word. The code checks no bound
  when it pushes; \<open>stack_capacity\<close> records how many words were mapped.
\<close>

record Stack =
  stk_buffer :: "nat \<Rightarrow> addr"
  stk_cursor :: nat
  stack_capacity :: nat

definition Stack_init :: "nat \<Rightarrow> Stack" where
  "Stack_init cap =
     \<lparr>stk_buffer = (\<lambda>_. 0), stk_cursor = 0, stack_capacity = size_mul (size_mul WORD_SIZE cap) 2 div WORD_SIZE\<rparr>"

definition Stack_size :: "Stack \<Rightarrow> nat" where
  "Stack_size self = stk_cursor self div 2"

definition Stack_isEmpty :: "Stack \<Rightarrow> bool" where
  "Stack_isEmpty self \<longleftrightarrow> stk_cursor self = 0"

definition Stack_push :: "Stack \<Rightarrow> addr \<Rightarrow> addr \<Rightarrow> Stack" where
  "Stack_push self sp bottom =
     self\<lparr>stk_buffer := (stk_buffer self)(stk_cursor self := sp, stk_cursor self + 1 := bottom), stk_cursor := stk_cursor self + 2\<rparr>"

text \<open>\<open>None\<close> is the return value \<open>0\<close> (with both results set to \<open>NULL\<close>).\<close>

definition Stack_pop :: "Stack \<Rightarrow> Stack \<times> (addr \<times> addr) option" where
  "Stack_pop self =
     (if Stack_isEmpty self then (self, None)
      else let c = stk_cursor self - 2 in (self\<lparr>stk_cursor := c\<rparr>, Some (stk_buffer self c, stk_buffer self (c + 1))))"

section \<open>Last in, first out\<close>

text \<open>What the mark phase relies on: the pending ranges as a list, the top first.\<close>

locale lifo =
  fixes invar :: "'s \<Rightarrow> bool"
    and pending :: "'s \<Rightarrow> (addr \<times> addr) list"
    and push :: "'s \<Rightarrow> addr \<Rightarrow> addr \<Rightarrow> 's"
    and pop :: "'s \<Rightarrow> 's \<times> (addr \<times> addr) option"
  assumes push_invar: "invar s \<Longrightarrow> invar (push s a b)"
    and push_pending: "invar s \<Longrightarrow> pending (push s a b) = (a, b) # pending s"
    and pop_empty: "invar s \<Longrightarrow> pending s = [] \<Longrightarrow> pop s = (s, None)"
    and pop_cons: "invar s \<Longrightarrow> pending s = (a, b) # rest \<Longrightarrow>
          snd (pop s) = Some (a, b) \<and> pending (fst (pop s)) = rest \<and> invar (fst (pop s))"
begin

lemma pop_push:
  "invar s \<Longrightarrow> snd (pop (push s a b)) = Some (a, b) \<and> pending (fst (pop (push s a b))) = pending s"
  using pop_cons [of "push s a b" a b "pending s"] push_invar push_pending by blast

lemma pop_None_iff: "invar s \<Longrightarrow> snd (pop s) = None \<longleftrightarrow> pending s = []"
proof (cases "pending s")
  case (Cons p rest)
  assume "invar s"
  with Cons pop_cons [of s "fst p" "snd p" rest] show ?thesis by simp
qed (simp add: pop_empty)

lemma pop_length: "invar s \<Longrightarrow> length (pending (fst (pop s))) = length (pending s) - 1"
proof (cases "pending s")
  case (Cons p rest)
  assume "invar s"
  with Cons pop_cons [of s "fst p" "snd p" rest] show ?thesis by simp
qed (simp add: pop_empty)

text \<open>Popping until the stack is empty returns every pushed pair, the last one first.\<close>

fun push_all :: "'s \<Rightarrow> (addr \<times> addr) list \<Rightarrow> 's" where
  "push_all s [] = s"
| "push_all s (p # ps) = push_all (push s (fst p) (snd p)) ps"

lemma push_all_pending: "invar s \<Longrightarrow> invar (push_all s ps) \<and> pending (push_all s ps) = rev ps @ pending s"
  by (induction ps arbitrary: s) (simp_all add: push_invar push_pending)

end

definition stack_wf :: "Stack \<Rightarrow> bool" where
  "stack_wf s \<longleftrightarrow> even (stk_cursor s)"

definition stack_pairs :: "Stack \<Rightarrow> (addr \<times> addr) list" where
  "stack_pairs s = rev (map (\<lambda>i. (stk_buffer s (2 * i), stk_buffer s (2 * i + 1))) [0..<Stack_size s])"

lemma stack_push_pairs: "stack_wf s \<Longrightarrow> stack_pairs (Stack_push s a b) = (a, b) # stack_pairs s"
  by (auto simp: stack_wf_def stack_pairs_def Stack_push_def Stack_size_def elim!: evenE) presburger+

lemma stack_pop_pairs:
  assumes "stack_wf s"
  shows "stack_pairs s = (a, b) # rest \<Longrightarrow>
    snd (Stack_pop s) = Some (a, b) \<and> stack_pairs (fst (Stack_pop s)) = rest \<and> stack_wf (fst (Stack_pop s))"
    and "stack_pairs s = [] \<Longrightarrow> Stack_pop s = (s, None)"
proof -
  obtain n where n: "stk_cursor s = 2 * n" using assms by (auto simp: stack_wf_def elim: evenE)
  show "stack_pairs s = [] \<Longrightarrow> Stack_pop s = (s, None)"
    by (simp add: stack_pairs_def Stack_size_def n Stack_pop_def Stack_isEmpty_def)
  assume eq: "stack_pairs s = (a, b) # rest"
  then obtain m where "n = Suc m" by (cases n) (auto simp: stack_pairs_def Stack_size_def n)
  with eq n show "snd (Stack_pop s) = Some (a, b) \<and> stack_pairs (fst (Stack_pop s)) = rest \<and>
      stack_wf (fst (Stack_pop s))"
    by (auto simp: stack_pairs_def Stack_size_def Stack_pop_def Stack_isEmpty_def Let_def stack_wf_def)
qed

interpretation mark_stack: lifo stack_wf stack_pairs Stack_push Stack_pop
proof
  show "stack_wf s \<Longrightarrow> stack_wf (Stack_push s a b)" for s a b
    by (simp add: stack_wf_def Stack_push_def)
qed (simp_all add: stack_push_pairs stack_pop_pairs)

lemma stack_init_ok: "stack_wf (Stack_init n) \<and> stack_pairs (Stack_init n) = []"
  by (simp add: stack_wf_def stack_pairs_def Stack_init_def Stack_size_def)

lemma Stack_size_pairs: "Stack_size s = length (stack_pairs s)"
  by (simp add: stack_pairs_def)

end
