(* ===== verification/Memory.thy ===== *)
theory Memory
  imports Prelude
begin

text \<open>
  The process memory the collector works on: one byte per address, with little-endian loads and
  stores of \<open>n\<close> bytes. The small heap, the large heap, the stacks and the data sections all live in
  this one memory, so that overlays (a hole written over a dead object, the size of the next object
  cleared in a line) alias as they do in the program.
\<close>

type_synonym mem = "addr \<Rightarrow> 8 word"

named_theorems mem_simps \<open>reads over writes\<close>

primrec load :: "nat \<Rightarrow> mem \<Rightarrow> addr \<Rightarrow> nat" where
  "load 0 m a = 0"
| "load (Suc n) m a = unat (m a) + 256 * load n m (a + 1)"

primrec store :: "nat \<Rightarrow> mem \<Rightarrow> addr \<Rightarrow> nat \<Rightarrow> mem" where
  "store 0 m a v = m"
| "store (Suc n) m a v = (store n m (a + 1) (v div 256))(a := of_nat v)"

text \<open>\<open>memset(p, 0, n)\<close> and \<open>memcpy(dst, src, n)\<close> on disjoint regions.\<close>

definition memzero :: "mem \<Rightarrow> addr \<Rightarrow> nat \<Rightarrow> mem" where
  "memzero m p n = (\<lambda>a. if p \<le> a \<and> a < p + n then 0 else m a)"

definition memcpy :: "mem \<Rightarrow> addr \<Rightarrow> addr \<Rightarrow> nat \<Rightarrow> mem" where
  "memcpy m dst src n = (\<lambda>a. if dst \<le> a \<and> a < dst + n then m (src + (a - dst)) else m a)"

definition same_bytes :: "mem \<Rightarrow> mem \<Rightarrow> addr \<Rightarrow> addr \<Rightarrow> bool" where
  "same_bytes m m' lo hi \<longleftrightarrow> (\<forall>a. lo \<le> a \<longrightarrow> a < hi \<longrightarrow> m a = m' a)"

section \<open>Reads over writes\<close>

lemma store_frame: "b < a \<or> a + n \<le> b \<Longrightarrow> store n m a v b = m b"
  by (induction n arbitrary: m a v) auto

lemma load_bound: "load n m a < 256 ^ n"
proof (induction n arbitrary: a)
  case (Suc n)
  have "unat (m a) < 256"
    using unsigned_less [of "m a"] by simp
  moreover have "load n m (a + 1) + 1 \<le> 256 ^ n"
    using Suc [of "a + 1"] by simp
  ultimately show ?case by simp
qed simp

lemma load8_bound [simp]: "load 8 m a < 2 ^ 64"
  using load_bound [of 8 m a] by simp

lemma load1_bound [simp]: "load (Suc 0) m a < 256"
  using load_bound [of "Suc 0" m a] by simp

lemma load_cong:
  assumes "\<And>b. a \<le> b \<Longrightarrow> b < a + n \<Longrightarrow> m b = m' b"
  shows "load n m a = load n m' a"
  using assms
proof (induction n arbitrary: a)
  case (Suc n)
  have "load n m (a + 1) = load n m' (a + 1)"
    by (rule Suc.IH) (rule Suc.prems, auto)
  with Suc.prems show ?case by simp
qed simp

lemma load_same_bytes:
  "same_bytes m m' lo hi \<Longrightarrow> lo \<le> a \<Longrightarrow> a + n \<le> hi \<Longrightarrow> load n m a = load n m' a"
  by (rule load_cong) (simp add: same_bytes_def)

lemma load_store_other [mem_simps]:
  "b + k \<le> a \<or> a + n \<le> b \<Longrightarrow> load k (store n m a v) b = load k m b"
  by (rule load_cong) (auto simp: store_frame)

lemma load_store_same [mem_simps]: "load n (store n m a v) a = v mod 256 ^ n"
proof (induction n arbitrary: a v)
  case (Suc n)
  let ?m = "store n m (a + 1) (v div 256)"
  have "load n (?m(a := of_nat v)) (a + 1) = load n ?m (a + 1)"
    by (rule load_cong) auto
  also have "\<dots> = v div 256 mod 256 ^ n" by (rule Suc.IH)
  finally have "load (Suc n) (store (Suc n) m a v) a = v mod 256 + 256 * (v div 256 mod 256 ^ n)"
    by (simp add: unat_of_nat)
  also have "\<dots> = v mod 256 ^ Suc n"
    by (metis add.commute mod_mult2_eq mult.commute power_Suc)
  finally show ?case .
qed simp

lemma store_upd_before: "b < a \<Longrightarrow> store n (m(b := x)) a v = (store n m a v)(b := x)"
  by (induction n arbitrary: a v) (auto simp: fun_upd_twist)

lemma store_store_same [mem_simps]: "store n (store n m a v) a w = store n m a w"
  by (induction n arbitrary: m a v w) (simp_all add: store_upd_before)

lemma load_memzero_other [mem_simps]:
  "a + k \<le> p \<or> p + n \<le> a \<Longrightarrow> load k (memzero m p n) a = load k m a"
  by (rule load_cong) (auto simp: memzero_def)

lemma load_memzero_inside [mem_simps]:
  "p \<le> a \<Longrightarrow> a + k \<le> p + n \<Longrightarrow> load k (memzero m p n) a = 0"
  by (induction k arbitrary: a) (auto simp: memzero_def)

lemma load_zero [mem_simps]: "load n (\<lambda>_. 0) a = 0"
  by (induction n arbitrary: a) auto

lemma same_bytes_refl [simp]: "same_bytes m m lo hi"
  by (simp add: same_bytes_def)

lemma same_bytes_trans:
  "same_bytes m m' lo hi \<Longrightarrow> same_bytes m' m'' lo hi \<Longrightarrow> same_bytes m m'' lo hi"
  by (simp add: same_bytes_def)

lemma same_bytes_sub:
  "same_bytes m m' lo hi \<Longrightarrow> lo \<le> lo' \<Longrightarrow> hi' \<le> hi \<Longrightarrow> same_bytes m m' lo' hi'"
  by (simp add: same_bytes_def)

lemma same_bytes_store:
  "hi \<le> a \<or> a + n \<le> lo \<Longrightarrow> same_bytes m (store n m a v) lo hi"
  by (auto simp: same_bytes_def store_frame)

text \<open>From here on loads and stores are only looked at through these lemmas.\<close>

declare load.simps [simp del] store.simps [simp del]

end
