(* ===== verification/Object.thy ===== *)
theory Object
  imports Memory
begin

unbundle bit_operations_syntax

text \<open>
  Object headers (\<open>include/object.h\<close>) and line headers (\<open>include/line_header.h\<close>), as fields of the byte
  memory. An \<open>Object\<close> has its \<open>size\<close> (header included) at offset 0, \<open>marked\<close> at 8, \<open>atomic\<close> at 9, and
  16 bytes in all; a line header is one byte; a \<open>Hole\<close> has its \<open>limit\<close> at offset 0 and \<open>next\<close> at 8.
\<close>

section \<open>Objects\<close>

definition sizeof_Object :: nat where [simp]: "sizeof_Object = 16"

definition Object_size :: "mem \<Rightarrow> addr \<Rightarrow> nat" where
  "Object_size m obj = load 8 m obj"

definition Object_set_size :: "mem \<Rightarrow> addr \<Rightarrow> nat \<Rightarrow> mem" where
  "Object_set_size m obj v = store 8 m obj v"

definition Object_atomic :: "mem \<Rightarrow> addr \<Rightarrow> nat" where
  "Object_atomic m obj = load 1 m (obj + 9)"

definition Object_allocate :: "mem \<Rightarrow> addr \<Rightarrow> nat \<Rightarrow> nat \<Rightarrow> mem" where
  "Object_allocate m obj sz atomic = store 1 (Object_set_size m obj sz) (obj + 9) atomic"

definition Object_mutatorAddress :: "addr \<Rightarrow> addr" where
  "Object_mutatorAddress obj = obj + sizeof_Object"

definition Object_mutatorSize :: "mem \<Rightarrow> addr \<Rightarrow> nat" where
  "Object_mutatorSize m obj = size_sub (Object_size m obj) sizeof_Object"

definition Object_isMarked :: "mem \<Rightarrow> addr \<Rightarrow> bool" where
  "Object_isMarked m obj \<longleftrightarrow> load 1 m (obj + 8) = 1"

definition Object_mark :: "mem \<Rightarrow> addr \<Rightarrow> mem" where
  "Object_mark m obj = store 1 m (obj + 8) 1"

definition Object_unmark :: "mem \<Rightarrow> addr \<Rightarrow> mem" where
  "Object_unmark m obj = store 1 m (obj + 8) 0"

definition Object_contains :: "mem \<Rightarrow> addr \<Rightarrow> addr \<Rightarrow> bool" where
  "Object_contains m obj pointer \<longleftrightarrow>
     pointer \<ge> Object_mutatorAddress obj \<and> pointer < obj + Object_size m obj"

section \<open>Line headers\<close>

definition LINE_EMPTY :: "8 word" where [simp]: "LINE_EMPTY = 0"
definition LINE_MARKED :: "8 word" where [simp]: "LINE_MARKED = 1"
definition LINE_CONTAINS_OBJECT :: "8 word" where [simp]: "LINE_CONTAINS_OBJECT = 2"
definition LINE_OBJECT_OFFSET_MARK :: "8 word" where [simp]: "LINE_OBJECT_OFFSET_MARK = 0xFC"

definition LineHeader_clear :: "mem \<Rightarrow> addr \<Rightarrow> mem" where
  "LineHeader_clear m flag = m(flag := LINE_EMPTY)"

definition LineHeader_isMarked :: "mem \<Rightarrow> addr \<Rightarrow> bool" where
  "LineHeader_isMarked m flag \<longleftrightarrow> m flag AND LINE_MARKED = LINE_MARKED"

definition LineHeader_mark :: "mem \<Rightarrow> addr \<Rightarrow> mem" where
  "LineHeader_mark m flag = m(flag := m flag OR LINE_MARKED)"

definition LineHeader_unmark :: "mem \<Rightarrow> addr \<Rightarrow> mem" where
  "LineHeader_unmark m flag = m(flag := m flag AND NOT LINE_MARKED)"

definition LineHeader_containsObject :: "mem \<Rightarrow> addr \<Rightarrow> bool" where
  "LineHeader_containsObject m flag \<longleftrightarrow> m flag AND LINE_CONTAINS_OBJECT = LINE_CONTAINS_OBJECT"

definition LineHeader_setOffset :: "mem \<Rightarrow> addr \<Rightarrow> int \<Rightarrow> mem prog" where
  "LineHeader_setOffset m flag offset =
     guard (offset mod int WORD_SIZE = 0) ''offset % WORD_SIZE == 0''
    (guard (offset \<ge> 0) ''offset >= 0''
    (guard (offset < int LINE_SIZE) ''offset < LINE_SIZE''
      (ret (m(flag := (of_int offset AND LINE_OBJECT_OFFSET_MARK) OR LINE_CONTAINS_OBJECT)))))"

definition LineHeader_getOffset :: "mem \<Rightarrow> addr \<Rightarrow> int prog" where
  "LineHeader_getOffset m flag =
     guard (LineHeader_containsObject m flag) ''LineHeader_containsObject(flag)''
       (ret (uint (m flag AND LINE_OBJECT_OFFSET_MARK)))"

section \<open>Holes\<close>

definition Hole_limit :: "mem \<Rightarrow> addr \<Rightarrow> addr" where
  "Hole_limit m hole = load 8 m hole"

definition Hole_next :: "mem \<Rightarrow> addr \<Rightarrow> addr" where
  "Hole_next m hole = load 8 m (hole + 8)"

definition Hole_set_limit :: "mem \<Rightarrow> addr \<Rightarrow> addr \<Rightarrow> mem" where
  "Hole_set_limit m hole v = store 8 m hole v"

definition Hole_set_next :: "mem \<Rightarrow> addr \<Rightarrow> addr \<Rightarrow> mem" where
  "Hole_set_next m hole v = store 8 m (hole + 8) v"

definition Hole_init :: "mem \<Rightarrow> addr \<Rightarrow> mem" where
  "Hole_init m hole = Hole_set_next (Hole_set_limit m hole 0) hole 0"

section \<open>Header bytes\<close>

text \<open>The three parts of a line header byte do not interfere.\<close>

definition hdr_marked :: "8 word \<Rightarrow> bool" where "hdr_marked h \<longleftrightarrow> bit h 0"
definition hdr_object :: "8 word \<Rightarrow> bool" where "hdr_object h \<longleftrightarrow> bit h 1"
definition hdr_offset :: "8 word \<Rightarrow> nat" where "hdr_offset h = unat (h AND 0xFC)"

lemma and_1_eq_1: "(h :: 8 word) AND 1 = 1 \<longleftrightarrow> bit h 0"
  by (metis and_one_eq bit_0 odd_iff_mod_2_eq_one)

lemma and_2_eq_2: "(h :: 8 word) AND 2 = 2 \<longleftrightarrow> bit h 1"
proof
  assume "h AND 2 = 2"
  then have "bit (h AND 2) 1" by simp
  then show "bit h 1" by (simp add: bit_and_iff)
next
  assume b: "bit h 1"
  show "h AND 2 = 2"
  proof (rule bit_word_eqI)
    fix n assume "n < LENGTH(8)"
    show "bit (h AND 2) n \<longleftrightarrow> bit (2 :: 8 word) n"
      using b bit_exp_iff [of 1 n, where ?'a = "8 word"] by (auto simp: bit_and_iff)
  qed
qed

lemma LineHeader_isMarked_iff: "LineHeader_isMarked m flag \<longleftrightarrow> hdr_marked (m flag)"
  by (simp add: LineHeader_isMarked_def hdr_marked_def and_1_eq_1)

lemma LineHeader_containsObject_iff: "LineHeader_containsObject m flag \<longleftrightarrow> hdr_object (m flag)"
  by (simp add: LineHeader_containsObject_def hdr_object_def and_2_eq_2)

end
