(* ===== verification/Block.thy ===== *)
theory Block
  imports Object
begin

text \<open>
  The 32 KB blocks of the small object space (\<open>include/block.h\<close>): a header with the block's flags, the
  link of the block lists and one header byte per line, followed by 127 lines of 256 bytes. A block is
  its address; its header fields are read from and written to memory at the offsets the struct has on
  a 64-bit machine (\<open>marked\<close> 0, \<open>flag\<close> 1, \<open>first_free_line_index\<close> 2, \<open>next\<close> 8, \<open>line_headers\<close> 16).
\<close>

section \<open>Fields\<close>

definition sizeof_Block :: nat where [simp]: "sizeof_Block = 144"
definition INVALID_LINE_INDEX :: int where [simp]: "INVALID_LINE_INDEX = -1"

definition BLOCK_FLAG_FREE :: nat where [simp]: "BLOCK_FLAG_FREE = 0"
definition BLOCK_FLAG_RECYCLABLE :: nat where [simp]: "BLOCK_FLAG_RECYCLABLE = 1"
definition BLOCK_FLAG_UNAVAILABLE :: nat where [simp]: "BLOCK_FLAG_UNAVAILABLE = 2"

definition Block_flag :: "mem \<Rightarrow> addr \<Rightarrow> nat" where
  "Block_flag m self = load 1 m (self + 1)"

text \<open>An \<open>int16_t\<close>: the two stored bytes read as two's complement.\<close>

definition int16 :: "nat \<Rightarrow> int" where
  "int16 n = (if n < 2 ^ 15 then int n else int n - 2 ^ 16)"

definition Block_first_free_line_index :: "mem \<Rightarrow> addr \<Rightarrow> int" where
  "Block_first_free_line_index m self = int16 (load 2 m (self + 2))"

definition Block_next :: "mem \<Rightarrow> addr \<Rightarrow> addr" where
  "Block_next m self = load 8 m (self + 8)"

definition Block_set_next :: "mem \<Rightarrow> addr \<Rightarrow> addr \<Rightarrow> mem" where
  "Block_set_next m self v = store 8 m (self + 8) v"

section \<open>Operations\<close>

definition Block_init :: "mem \<Rightarrow> addr \<Rightarrow> mem" where
  "Block_init m self = memzero m self sizeof_Block"

definition BLOCK_SIZE_IN_BYTES_INVERSE_MASK :: "64 word" where
  "BLOCK_SIZE_IN_BYTES_INVERSE_MASK = NOT (of_nat BLOCK_SIZE - 1)"

definition Block_from :: "addr \<Rightarrow> addr" where
  "Block_from pointer = unat (of_nat pointer AND BLOCK_SIZE_IN_BYTES_INVERSE_MASK)"

definition Block_isFree :: "mem \<Rightarrow> addr \<Rightarrow> bool" where
  "Block_isFree m self \<longleftrightarrow> Block_flag m self = BLOCK_FLAG_FREE"

definition Block_isRecyclable :: "mem \<Rightarrow> addr \<Rightarrow> bool" where
  "Block_isRecyclable m self \<longleftrightarrow> Block_flag m self = BLOCK_FLAG_RECYCLABLE"

definition Block_isUnavailable :: "mem \<Rightarrow> addr \<Rightarrow> bool" where
  "Block_isUnavailable m self \<longleftrightarrow> Block_flag m self = BLOCK_FLAG_UNAVAILABLE"

definition Block_setFlag :: "mem \<Rightarrow> addr \<Rightarrow> nat \<Rightarrow> mem" where
  "Block_setFlag m self flag = store 1 m (self + 1) flag"

definition Block_setFree :: "mem \<Rightarrow> addr \<Rightarrow> mem" where
  "Block_setFree m self = Block_init m self"

definition Block_setRecyclable :: "mem \<Rightarrow> addr \<Rightarrow> int \<Rightarrow> mem" where
  "Block_setRecyclable m self first_free_line_index =
     store 2 (store 1 m (self + 1) BLOCK_FLAG_RECYCLABLE) (self + 2) (nat (first_free_line_index mod 2 ^ 16))"

definition Block_setUnavailable :: "mem \<Rightarrow> addr \<Rightarrow> mem" where
  "Block_setUnavailable m self = store 1 m (self + 1) BLOCK_FLAG_UNAVAILABLE"

definition Block_mark :: "mem \<Rightarrow> addr \<Rightarrow> mem" where
  "Block_mark m self = store 1 m self 1"

definition Block_unmark :: "mem \<Rightarrow> addr \<Rightarrow> mem" where
  "Block_unmark m self = store 1 m self 0"

definition Block_isMarked :: "mem \<Rightarrow> addr \<Rightarrow> bool" where
  "Block_isMarked m self \<longleftrightarrow> load 1 m self = 1"

definition Block_start :: "addr \<Rightarrow> addr" where
  "Block_start self = self + LINE_SIZE"

definition Block_stop :: "addr \<Rightarrow> addr" where
  "Block_stop self = self + BLOCK_SIZE"

definition Block_contains :: "addr \<Rightarrow> addr \<Rightarrow> bool" where
  "Block_contains self pointer \<longleftrightarrow> pointer \<ge> Block_start self \<and> pointer < Block_stop self"

definition Block_firstFreeLine :: "mem \<Rightarrow> addr \<Rightarrow> addr prog" where
  "Block_firstFreeLine m self =
     guard (Block_first_free_line_index m self \<ge> 0) ''first_free_line_index >= 0''
    (guard (Block_first_free_line_index m self < int LINE_COUNT) ''first_free_line_index < LINE_COUNT''
      (ret (Block_start self + LINE_SIZE * nat (Block_first_free_line_index m self))))"

definition Block_lineHeaders :: "addr \<Rightarrow> addr" where
  "Block_lineHeaders self = self + 16"

definition Block_lineHeader :: "addr \<Rightarrow> int \<Rightarrow> addr prog" where
  "Block_lineHeader self line_index =
     guard (line_index \<ge> 0) ''line_index >= 0''
    (guard (line_index < int LINE_COUNT) ''line_index < LINE_COUNT''
      (ret (Block_lineHeaders self + nat line_index)))"

definition Block_lineIndex :: "addr \<Rightarrow> addr \<Rightarrow> int prog" where
  "Block_lineIndex self pointer =
     guard (pointer \<le> Block_stop self) ''pointer <= Block_stop(self)''
      (let diff = int pointer - int (Block_start self)
       in if diff < 0 then ret INVALID_LINE_INDEX else ret (c_int (diff div int LINE_SIZE)))"

definition Block_line :: "addr \<Rightarrow> int \<Rightarrow> addr prog" where
  "Block_line self line_index =
     guard (line_index \<ge> 0) ''line_index >= 0''
    (guard (line_index < int LINE_COUNT) ''line_index < LINE_COUNT''
      (ret (Block_start self + nat line_index * LINE_SIZE)))"

text \<open>Record the first object of a line in the line's header.\<close>

definition Line_update :: "mem \<Rightarrow> addr \<Rightarrow> addr \<Rightarrow> mem prog" where
  "Line_update m block obj =
     guard (Block_contains block obj) ''Block_contains(block, object)''
    (pbind (Block_lineIndex block obj) (\<lambda>line_index.
     guard (line_index \<noteq> INVALID_LINE_INDEX) ''line_index != INVALID_LINE_INDEX''
    (pbind (Block_lineHeader block line_index) (\<lambda>line_header.
     if \<not> LineHeader_containsObject m line_header
     then pbind (Block_line block line_index) (\<lambda>line.
            let offset = int obj - int line
            in guard (offset \<ge> 0) ''offset >= 0''
              (guard (offset < int LINE_SIZE) ''offset < LINE_SIZE''
                (LineHeader_setOffset m line_header offset)))
     else ret m))))"

section \<open>Block addresses\<close>

lemma and_not_mask_15:
  "(w :: 64 word) AND NOT (mask 15) = push_bit 15 (drop_bit 15 w)"
  by (rule bit_word_eqI) (auto simp: bit_and_iff bit_not_iff bit_push_bit_iff bit_drop_bit_eq bit_mask_iff)

lemma mask_inverse_and:
  "unat ((w :: 64 word) AND NOT (mask 15)) = unat w div 32768 * 32768"
proof -
  have "unat w div 32768 * 32768 < 2 ^ 64"
    using unsigned_less [of w, where ?'a = nat] div_times_less_eq_dividend [of "unat w" 32768] by simp
  then show ?thesis
    by (simp add: and_not_mask_15 push_bit_eq_mult unat_word_ariths unat_drop_bit_eq drop_bit_eq_div)
qed

lemma BLOCK_SIZE_IN_BYTES_INVERSE_MASK_eq: "BLOCK_SIZE_IN_BYTES_INVERSE_MASK = NOT (mask 15)"
  by (simp add: BLOCK_SIZE_IN_BYTES_INVERSE_MASK_def mask_eq_exp_minus_1)

lemma Block_from_eq: "pointer < 2 ^ 64 \<Longrightarrow> Block_from pointer = pointer div BLOCK_SIZE * BLOCK_SIZE"
  by (simp add: Block_from_def BLOCK_SIZE_IN_BYTES_INVERSE_MASK_eq mask_inverse_and unat_of_nat)

text \<open>Blocks are aligned; an address inside a block leads back to it.\<close>

definition is_block :: "addr \<Rightarrow> bool" where
  "is_block b \<longleftrightarrow> BLOCK_SIZE dvd b \<and> b \<noteq> 0 \<and> b + BLOCK_SIZE < 2 ^ 64"

lemma Block_from_inside:
  assumes "is_block b" and "b \<le> p" and "p < b + BLOCK_SIZE"
  shows "Block_from p = b"
proof -
  obtain k where k: "b = BLOCK_SIZE * k" using assms(1) by (auto simp: is_block_def elim: dvdE)
  have "p < 2 ^ 64" using assms by (simp add: is_block_def)
  moreover have "p div BLOCK_SIZE = k" using assms(2,3) k by (intro div_nat_eqI) auto
  ultimately show ?thesis using k by (simp add: Block_from_eq)
qed

lemma blocks_disjoint:
  assumes "is_block a" and "is_block b" and "a \<noteq> b"
  shows "a + BLOCK_SIZE \<le> b \<or> b + BLOCK_SIZE \<le> a"
proof (rule ccontr)
  assume "\<not> ?thesis"
  then have "a = b"
    using Block_from_inside [OF assms(1), of "max a b"] Block_from_inside [OF assms(2), of "max a b"]
    by (simp add: max_def split: if_splits)
  with assms(3) show False by simp
qed

end
