(* ===== verification/Linked_List.thy ===== *)
theory Linked_List
  imports Memory
begin

text \<open>
  Singly linked lists through memory, as block lists and chunk lists both are: a path along a
  \<open>next\<close> field, and the interface of that field, under which appending a node and removing the first
  node are shown once for both.
\<close>

primrec lpath :: "(addr \<Rightarrow> addr) \<Rightarrow> addr \<Rightarrow> addr list \<Rightarrow> addr \<Rightarrow> bool" where
  "lpath nx p [] q \<longleftrightarrow> p = q"
| "lpath nx p (a # as) q \<longleftrightarrow> p = a \<and> a \<noteq> 0 \<and> lpath nx (nx a) as q"

lemma lpath_append: "lpath nx p (as @ bs) q \<longleftrightarrow> (\<exists>r. lpath nx p as r \<and> lpath nx r bs q)"
  by (induction as arbitrary: p) auto

lemma lpath_cong: "(\<And>a. a \<in> set as \<Longrightarrow> nx a = nx' a) \<Longrightarrow> lpath nx p as q = lpath nx' p as q"
  by (induction as arbitrary: p) auto

lemma lpath_null: "lpath nx 0 as 0 \<longleftrightarrow> as = []"
  by (cases as) auto

lemma lpath_unique: "lpath nx p as 0 \<Longrightarrow> lpath nx p bs 0 \<Longrightarrow> as = bs"
proof (induction as arbitrary: p bs)
  case Nil
  then show ?case by (simp add: lpath_null)
next
  case (Cons a as)
  then show ?case by (cases bs) auto
qed

lemma lpath_last_next: "lpath nx p as q \<Longrightarrow> as \<noteq> [] \<Longrightarrow> nx (last as) = q"
  by (induction as arbitrary: p) auto

text \<open>The nodes of a list given by its first and last pointer.\<close>

definition list_nodes :: "(addr \<Rightarrow> addr) \<Rightarrow> addr \<Rightarrow> addr \<Rightarrow> addr list \<Rightarrow> bool" where
  "list_nodes nx first lst as \<longleftrightarrow> lpath nx first as 0 \<and> (as \<noteq> [] \<longrightarrow> lst = last as)"

lemma list_nodes_empty [simp]: "list_nodes nx 0 lst []"
  by (simp add: list_nodes_def)

lemma list_nodes_null: "list_nodes nx first lst as \<Longrightarrow> first = 0 \<longleftrightarrow> as = []"
  by (cases as) (auto simp: list_nodes_def)

lemma list_nodes_hd: "list_nodes nx first lst (a # as) \<Longrightarrow> first = a"
  by (simp add: list_nodes_def)

lemma list_nodes_cong:
  "(\<And>a. a \<in> set as \<Longrightarrow> nx a = nx' a) \<Longrightarrow> list_nodes nx first lst as = list_nodes nx' first lst as"
  using lpath_cong [of as nx nx' first 0] by (simp add: list_nodes_def)

text \<open>
  The interface of a \<open>next\<close> field: \<open>apart a b\<close> says that writing the field of \<open>a\<close> leaves that of \<open>b\<close>
  alone.
\<close>

locale next_field =
  fixes get_next :: "mem \<Rightarrow> addr \<Rightarrow> addr"
    and set_next :: "mem \<Rightarrow> addr \<Rightarrow> addr \<Rightarrow> mem"
    and apart :: "addr \<Rightarrow> addr \<Rightarrow> bool"
  assumes get_set_same: "v < 2 ^ 64 \<Longrightarrow> get_next (set_next m a v) a = v"
    and get_set_other: "apart a b \<Longrightarrow> get_next (set_next m a v) b = get_next m b"
begin

lemma path_set_other:
  "(\<And>b. b \<in> set as \<Longrightarrow> apart a b) \<Longrightarrow>
   lpath (get_next (set_next m a v)) p as q = lpath (get_next m) p as q"
  by (rule lpath_cong) (simp add: get_set_other)

text \<open>Appending a node: clear its link, link the old last node to it.\<close>

lemma append_nonempty:
  assumes l: "list_nodes (get_next m) first lst as" and ne: "as \<noteq> []"
    and new: "node \<noteq> 0" "node < 2 ^ 64"
    and far: "\<And>b. b \<in> set as \<Longrightarrow> apart node b"
    and last_far: "\<And>b. b \<in> set (butlast as) \<Longrightarrow> apart lst b" "apart lst node"
  shows "list_nodes (get_next (set_next (set_next m node 0) lst node)) first node (as @ [node])"
proof -
  let ?m1 = "set_next m node 0" and ?m2 = "set_next (set_next m node 0) lst node"
  have lst: "lst = last as" and path: "lpath (get_next m) first as 0"
    using l ne by (auto simp: list_nodes_def)
  have split: "as = butlast as @ [lst]" using ne lst by simp
  have "lpath (get_next ?m1) first as 0" using path path_set_other far by blast
  then have "lpath (get_next ?m1) first (butlast as) lst \<and> lst \<noteq> 0"
    by (subst (asm) split) (auto simp: lpath_append)
  then have "lpath (get_next ?m2) first (butlast as) lst" "lst \<noteq> 0"
    using path_set_other [of "butlast as" lst ?m1] last_far(1) by auto
  moreover have "get_next ?m2 lst = node" using new(2) by (simp add: get_set_same)
  moreover have "get_next ?m2 node = 0"
    using get_set_other [OF last_far(2), of ?m1 node] by (simp add: get_set_same)
  ultimately have "lpath (get_next ?m2) first ((butlast as @ [lst]) @ [node]) 0"
    using new(1) by (simp add: lpath_append)
  then show ?thesis by (simp add: list_nodes_def split [symmetric])
qed

lemma append_empty:
  "node \<noteq> 0 \<Longrightarrow> list_nodes (get_next (set_next m node 0)) node node [node]"
  by (simp add: list_nodes_def get_set_same)

lemma remove_first:
  assumes "list_nodes (get_next m) first lst (a # as)"
  shows "list_nodes (get_next m) (get_next m first) lst as"
  using assms by (auto simp: list_nodes_def)

end

end
