(* ===== verification/Block_List.thy ===== *)
theory Block_List
  imports Block Linked_List
begin

text \<open>
  The free and recyclable lists of blocks (\<open>include/block_list.h\<close>): a queue linked through the blocks'
  \<open>next\<close> fields. Each operation returns the list struct and the memory; the abstract value of a list is
  the sequence of its blocks.
\<close>

section \<open>Operations\<close>

record BlockList =
  bl_first :: addr
  bl_last :: addr
  bl_size :: nat

definition BlockList_clear :: "BlockList \<Rightarrow> BlockList" where
  "BlockList_clear self = self\<lparr>bl_first := 0, bl_last := 0, bl_size := 0\<rparr>"

definition BlockList_isEmpty :: "BlockList \<Rightarrow> bool" where
  "BlockList_isEmpty self \<longleftrightarrow> bl_first self = 0"

definition BlockList_push :: "BlockList \<Rightarrow> mem \<Rightarrow> addr \<Rightarrow> BlockList \<times> mem" where
  "BlockList_push self m block =
     (let m = Block_set_next m block 0;
          (self, m) = (if BlockList_isEmpty self then (self\<lparr>bl_first := block\<rparr>, m)
                       else (self, Block_set_next m (bl_last self) block))
      in (self\<lparr>bl_last := block, bl_size := size_add (bl_size self) 1\<rparr>, m))"

text \<open>\<open>BlockList_shift\<close> leaves \<open>last\<close> alone, also when it takes the last block.\<close>

definition BlockList_shift :: "BlockList \<Rightarrow> mem \<Rightarrow> BlockList \<times> addr" where
  "BlockList_shift self m =
     (let block = bl_first self
      in if block \<noteq> 0
         then (self\<lparr>bl_first := Block_next m block, bl_size := size_sub (bl_size self) 1\<rparr>, block)
         else (self, block))"

section \<open>A queue of blocks\<close>

definition block_apart :: "addr \<Rightarrow> addr \<Rightarrow> bool" where
  "block_apart a b \<longleftrightarrow> a + 8 \<le> b \<or> b + 8 \<le> a"

interpretation block_link: next_field Block_next Block_set_next block_apart
  by unfold_locales (auto simp: Block_next_def Block_set_next_def block_apart_def load_store_same load_store_other)

text \<open>The list holds exactly the blocks \<open>bs\<close>, in this order.\<close>

definition block_queue :: "mem \<Rightarrow> BlockList \<Rightarrow> addr list \<Rightarrow> bool" where
  "block_queue m self bs \<longleftrightarrow>
     list_nodes (Block_next m) (bl_first self) (bl_last self) bs \<and> bl_size self = length bs \<and>
     distinct bs \<and> (\<forall>b \<in> set bs. is_block b) \<and> length bs < 2 ^ 49"

lemma block_apartI: "is_block a \<Longrightarrow> is_block b \<Longrightarrow> a \<noteq> b \<Longrightarrow> block_apart a b"
  using blocks_disjoint [of a b] by (auto simp: block_apart_def)

lemma BlockList_clear_queue: "block_queue m (BlockList_clear self) []"
  by (simp add: block_queue_def BlockList_clear_def)

lemma BlockList_isEmpty_iff: "block_queue m self bs \<Longrightarrow> BlockList_isEmpty self \<longleftrightarrow> bs = []"
  using list_nodes_null by (auto simp: block_queue_def BlockList_isEmpty_def)

text \<open>
  Distinct blocks below the top of the address space number fewer than \<open>2 ^ 49\<close>, so that \<open>size\<close> never
  wraps.
\<close>

lemma blocks_few:
  assumes "distinct bs" and "\<forall>b \<in> set bs. is_block b"
  shows "length bs < 2 ^ 49"
proof -
  have "(\<lambda>b. b div BLOCK_SIZE) ` set bs \<subseteq> {1..<2 ^ 49}"
  proof
    fix q assume "q \<in> (\<lambda>b. b div BLOCK_SIZE) ` set bs"
    then obtain b where b: "b \<in> set bs" "q = b div BLOCK_SIZE" by auto
    then obtain k where "b = BLOCK_SIZE * k" "b \<noteq> 0" "b + BLOCK_SIZE < 2 ^ 64"
      using assms(2) by (auto simp: is_block_def elim!: dvdE)
    with b show "q \<in> {1..<2 ^ 49}" by auto
  qed
  moreover have "inj_on (\<lambda>b. b div BLOCK_SIZE) (set bs)"
    by (rule inj_onI) (metis assms(2) is_block_def dvd_div_mult_self)
  ultimately have "card (set bs) \<le> card {1..<2 ^ 49 :: nat}"
    by (metis card_image card_mono finite_atLeastLessThan)
  then show ?thesis using distinct_card [OF assms(1)] by simp
qed

lemma BlockList_push_queue:
  assumes q: "block_queue m self bs" and b: "is_block b" "b \<notin> set bs"
  shows "\<exists>self' m'. BlockList_push self m b = (self', m') \<and> block_queue m' self' (bs @ [b])"
proof -
  have small: "b < 2 ^ 64" "b \<noteq> 0" using b by (auto simp: is_block_def)
  have few: "length (bs @ [b]) < 2 ^ 49"
    by (rule blocks_few) (use q b in \<open>auto simp: block_queue_def\<close>)
  show ?thesis
  proof (cases "bs = []")
    case True
    then have "bl_first self = 0" using BlockList_isEmpty_iff [OF q] by (simp add: BlockList_isEmpty_def)
    then show ?thesis
      using True q b few block_link.append_empty [OF small(2)]
      by (auto simp: BlockList_push_def BlockList_isEmpty_def block_queue_def Let_def)
  next
    case False
    have lst: "bl_last self = last bs" using q False by (simp add: block_queue_def list_nodes_def)
    have ne: "bl_first self \<noteq> 0" using BlockList_isEmpty_iff [OF q] False by (simp add: BlockList_isEmpty_def)
    have "list_nodes (Block_next (Block_set_next (Block_set_next m b 0) (bl_last self) b)) (bl_first self) b (bs @ [b])"
    proof (rule block_link.append_nonempty)
      show "block_apart b x" if "x \<in> set bs" for x
        using that b q by (intro block_apartI) (auto simp: block_queue_def)
      show "block_apart (bl_last self) x" if "x \<in> set (butlast bs)" for x
      proof (rule block_apartI)
        show "is_block (bl_last self)" "is_block x"
          using lst False q in_set_butlastD [OF that] by (auto simp: block_queue_def)
        have "distinct (butlast bs @ [last bs])" using q False by (simp add: block_queue_def)
        then show "bl_last self \<noteq> x" using that lst by auto
      qed
      show "block_apart (bl_last self) b"
        using lst False q b by (intro block_apartI) (auto simp: block_queue_def)
    qed (use q False small in \<open>auto simp: block_queue_def\<close>)
    then show ?thesis
      using q b ne few by (auto simp: BlockList_push_def BlockList_isEmpty_def block_queue_def Let_def)
  qed
qed

lemma BlockList_shift_queue:
  assumes "block_queue m self bs"
  shows "case bs of
      [] \<Rightarrow> BlockList_shift self m = (self, 0)
    | b # rest \<Rightarrow> \<exists>self'. BlockList_shift self m = (self', b) \<and> block_queue m self' rest"
proof (cases bs)
  case Nil
  then show ?thesis
    using BlockList_isEmpty_iff [OF assms] by (simp add: BlockList_shift_def BlockList_isEmpty_def Let_def)
next
  case (Cons b rest)
  have l: "list_nodes (Block_next m) (bl_first self) (bl_last self) (b # rest)"
    using assms Cons by (simp add: block_queue_def)
  have f: "bl_first self = b" "b \<noteq> 0"
    using list_nodes_hd [OF l] assms Cons by (auto simp: block_queue_def is_block_def)
  show ?thesis
    using block_link.remove_first [OF l] f assms Cons
    by (auto simp: BlockList_shift_def block_queue_def Let_def)
qed

text \<open>Writes that leave the links of the listed blocks alone leave the list alone.\<close>

lemma block_queue_cong:
  assumes "block_queue m self bs" and "\<And>b. b \<in> set bs \<Longrightarrow> Block_next m' b = Block_next m b"
  shows "block_queue m' self bs"
  using assms list_nodes_cong [of bs "Block_next m" "Block_next m'" "bl_first self" "bl_last self"]
  by (auto simp: block_queue_def)

end
