(* ===== verification/Chunk_List.thy ===== *)
theory Chunk_List
  imports Object Linked_List
begin

text \<open>
  The chunks of the large object space and their list (\<open>include/chunk_list.h\<close>). The large heap is one
  sequence of chunks without gaps, linked in address order; a chunk has a 16-byte header (\<open>next\<close> at 0,
  \<open>allocated\<close> at 8) before its \<open>Object\<close>. This theory translates the code; \<open>Chunk_Cells\<close> gives the list its
  abstract value and proves that the operations implement theirs.
\<close>

section \<open>Chunks\<close>

definition sizeof_Chunk :: nat where [simp]: "sizeof_Chunk = 32"
definition CHUNK_HEADER_SIZE :: nat where [simp]: "CHUNK_HEADER_SIZE = sizeof_Chunk - sizeof_Object"
definition CHUNK_MIN_SIZE :: nat where [simp]: "CHUNK_MIN_SIZE = sizeof_Chunk * 2"

definition Chunk_object :: "addr \<Rightarrow> addr" where
  [simp]: "Chunk_object chunk = chunk + 16"

definition Chunk_next :: "mem \<Rightarrow> addr \<Rightarrow> addr" where
  "Chunk_next m chunk = load 8 m chunk"

definition Chunk_set_next :: "mem \<Rightarrow> addr \<Rightarrow> addr \<Rightarrow> mem" where
  "Chunk_set_next m chunk v = store 8 m chunk v"

definition Chunk_set_allocated :: "mem \<Rightarrow> addr \<Rightarrow> nat \<Rightarrow> mem" where
  "Chunk_set_allocated m chunk v = store 1 m (chunk + 8) v"

definition Chunk_osize :: "mem \<Rightarrow> addr \<Rightarrow> nat" where
  "Chunk_osize m chunk = Object_size m (Chunk_object chunk)"

definition Chunk_set_osize :: "mem \<Rightarrow> addr \<Rightarrow> nat \<Rightarrow> mem" where
  "Chunk_set_osize m chunk v = Object_set_size m (Chunk_object chunk) v"

definition Chunk_init :: "mem \<Rightarrow> addr \<Rightarrow> nat \<Rightarrow> mem" where
  "Chunk_init m chunk sz =
     (let m = Chunk_set_next m chunk 0;
          m = Chunk_set_allocated m chunk 0;
          m = Chunk_set_osize m chunk sz;
          m = store 1 m (Chunk_object chunk + 8) 0
      in store 1 m (Chunk_object chunk + 9) 0)"

definition Chunk_allocate :: "mem \<Rightarrow> addr \<Rightarrow> nat \<Rightarrow> mem" where
  "Chunk_allocate m self atomic = store 1 (Chunk_set_allocated m self 1) (Chunk_object self + 9) atomic"

definition Chunk_isAllocated :: "mem \<Rightarrow> addr \<Rightarrow> bool" where
  "Chunk_isAllocated m self \<longleftrightarrow> load 1 m (self + 8) \<noteq> 0"

text \<open>The return type is \<open>int\<close>: the \<open>size_t\<close> sum is cut to 32 bits.\<close>

definition Chunk_size :: "mem \<Rightarrow> addr \<Rightarrow> int" where
  "Chunk_size m chunk = c_int (int (size_add (Chunk_osize m chunk) CHUNK_HEADER_SIZE))"

definition Chunk_mark :: "mem \<Rightarrow> addr \<Rightarrow> mem" where
  "Chunk_mark m chunk = Object_mark m (Chunk_object chunk)"

definition Chunk_unmark :: "mem \<Rightarrow> addr \<Rightarrow> mem" where
  "Chunk_unmark m chunk = Object_unmark m (Chunk_object chunk)"

definition Chunk_isMarked :: "mem \<Rightarrow> addr \<Rightarrow> bool" where
  "Chunk_isMarked m chunk \<longleftrightarrow> Object_isMarked m (Chunk_object chunk)"

definition Chunk_mutatorAddress :: "addr \<Rightarrow> addr" where
  "Chunk_mutatorAddress chunk = chunk + sizeof_Chunk"

definition Chunk_contains :: "mem \<Rightarrow> addr \<Rightarrow> addr \<Rightarrow> bool" where
  "Chunk_contains m chunk pointer \<longleftrightarrow>
     (let start = Chunk_mutatorAddress chunk; stop = chunk + CHUNK_HEADER_SIZE + Chunk_osize m chunk
      in pointer \<ge> start \<and> pointer < stop)"

section \<open>The list\<close>

record ChunkList =
  cl_first :: addr
  cl_last :: addr
  cl_size :: nat

definition ChunkList_clear :: "ChunkList \<Rightarrow> ChunkList" where
  "ChunkList_clear self = self\<lparr>cl_first := 0, cl_last := 0, cl_size := 0\<rparr>"

definition ChunkList_isEmpty :: "ChunkList \<Rightarrow> bool" where
  "ChunkList_isEmpty self \<longleftrightarrow> cl_first self = 0"

definition ChunkList_push :: "ChunkList \<Rightarrow> mem \<Rightarrow> addr \<Rightarrow> ChunkList \<times> mem" where
  "ChunkList_push self m chunk =
     (let m = Chunk_set_next m chunk 0;
          (self, m) = (if ChunkList_isEmpty self then (self\<lparr>cl_first := chunk\<rparr>, m)
                       else (self, Chunk_set_next m (cl_last self) chunk))
      in (self\<lparr>cl_last := chunk, cl_size := size_add (cl_size self) 1\<rparr>, m))"

definition ChunkList_insert :: "ChunkList \<Rightarrow> mem \<Rightarrow> addr \<Rightarrow> addr \<Rightarrow> ChunkList \<times> mem" where
  "ChunkList_insert self m chunk after =
     (let previous = after;
          (self, m) =
            (if after = cl_last self
             then (self\<lparr>cl_last := chunk\<rparr>, Chunk_set_next (Chunk_set_next m chunk 0) (cl_last self) chunk)
             else (self, Chunk_set_next (Chunk_set_next m chunk (Chunk_next m previous)) previous chunk))
      in (self\<lparr>cl_size := size_add (cl_size self) 1\<rparr>, m))"

text \<open>Returns the new free chunk, or \<open>NULL\<close> when the whole chunk is used.\<close>

definition ChunkList_split :: "ChunkList \<Rightarrow> mem \<Rightarrow> addr \<Rightarrow> nat \<Rightarrow> (ChunkList \<times> mem \<times> addr) prog" where
  "ChunkList_split self m chunk sz =
     (let remaining = size_sub (Chunk_osize m chunk) sz
      in if remaining < CHUNK_MIN_SIZE then ret (self, m, 0)
         else
           let m = Chunk_set_osize m chunk sz;
               free_chunk = chunk + CHUNK_HEADER_SIZE + sz;
               m = Chunk_init m free_chunk (size_sub remaining CHUNK_HEADER_SIZE);
               (self, m) = ChunkList_insert self m free_chunk chunk
           in guard (chunk + CHUNK_HEADER_SIZE + sz = free_chunk) ''chunk + header + size == free_chunk''
             (guard (Chunk_next m free_chunk \<noteq> 0 \<longrightarrow> free_chunk + remaining = Chunk_next m free_chunk)
                ''free_chunk + remaining == free_chunk->next''
               (ret (self, m, free_chunk))))"

partial_function (option) find_from :: "mem \<Rightarrow> addr \<Rightarrow> addr \<Rightarrow> addr prog" where
  "find_from m pointer chunk =
     (if chunk = 0 then ret 0
      else if Chunk_contains m chunk pointer then ret chunk
      else find_from m pointer (Chunk_next m chunk))"

definition ChunkList_find :: "ChunkList \<Rightarrow> mem \<Rightarrow> addr \<Rightarrow> addr prog" where
  "ChunkList_find self m pointer = find_from m pointer (cl_first self)"

text \<open>The lines \<open>ChunkList_debug\<close> prints: the address of each chunk, its flags and its size.\<close>

partial_function (option) debug_from :: "mem \<Rightarrow> addr \<Rightarrow> (addr \<times> bool \<times> nat \<times> bool \<times> nat) list prog" where
  "debug_from m chunk =
     (if chunk \<noteq> 0
      then pbind (debug_from m (Chunk_next m chunk)) (\<lambda>out.
             ret ((chunk, Chunk_isAllocated m chunk, Chunk_osize m chunk, Chunk_isMarked m chunk,
                   Object_atomic m (Chunk_object chunk)) # out))
      else ret [])"

definition ChunkList_debug :: "ChunkList \<Rightarrow> mem \<Rightarrow> (addr \<times> bool \<times> nat \<times> bool \<times> nat) list prog" where
  "ChunkList_debug self m = debug_from m (cl_first self)"

text \<open>Pointer arithmetic with the \<open>int\<close> that \<open>Chunk_size\<close> returns.\<close>

definition ChunkList_limit :: "ChunkList \<Rightarrow> mem \<Rightarrow> addr" where
  "ChunkList_limit self m =
     (if cl_last self = 0 then 0
      else nat ((int (cl_last self) + Chunk_size m (cl_last self)) mod 2 ^ 64))"

definition ChunkList_merge ::
  "ChunkList \<Rightarrow> mem \<Rightarrow> addr \<Rightarrow> addr \<Rightarrow> nat \<Rightarrow> (ChunkList \<times> mem) prog" where
  "ChunkList_merge self m chunk limit cnt =
     (let stop = (if limit = 0 then ChunkList_limit self m else limit);
          sz = size_sub (size_sub stop chunk) CHUNK_HEADER_SIZE
      in guard (sz > Chunk_osize m chunk) ''size > chunk->object.size''
          (let m = Chunk_set_next m chunk limit;
               m = Chunk_set_osize m chunk sz;
               self = (if limit = 0 then self\<lparr>cl_last := chunk\<rparr> else self)
           in ret (self\<lparr>cl_size := size_sub (cl_size self) cnt\<rparr>, m)))"

text \<open>The inner loop of the sweep: the first marked chunk from \<open>limit\<close> on, and the chunks passed.\<close>

partial_function (option) sweep_scan :: "mem \<Rightarrow> addr \<Rightarrow> nat \<Rightarrow> (addr \<times> nat) prog" where
  "sweep_scan m limit cnt =
     (if limit \<noteq> 0 \<and> \<not> Chunk_isMarked m limit
      then sweep_scan m (Chunk_next m limit) (size_add cnt 1)
      else ret (limit, cnt))"

partial_function (option) sweep_from :: "ChunkList \<Rightarrow> mem \<Rightarrow> addr \<Rightarrow> (ChunkList \<times> mem) prog" where
  "sweep_from self m chunk =
     (if chunk = 0 then ret (self, m)
      else if Chunk_isMarked m chunk then sweep_from self m (Chunk_next m chunk)
      else
        let m = Chunk_set_allocated m chunk 0
        in pbind (sweep_scan m (Chunk_next m chunk) 0) (\<lambda>(limit, cnt).
           pbind (if limit \<noteq> Chunk_next m chunk then ChunkList_merge self m chunk limit cnt else ret (self, m))
             (\<lambda>(self, m). sweep_from self m limit)))"

definition ChunkList_sweep :: "ChunkList \<Rightarrow> mem \<Rightarrow> (ChunkList \<times> mem) prog" where
  "ChunkList_sweep self m = sweep_from self m (cl_first self)"

partial_function (option) validate_from :: "ChunkList \<Rightarrow> mem \<Rightarrow> addr \<Rightarrow> addr \<Rightarrow> nat \<Rightarrow> unit prog" where
  "validate_from self m heap_stop chunk cnt =
     (if chunk = 0 then ret ()
      else
        let cnt = size_add cnt 1; actual = chunk + CHUNK_HEADER_SIZE + Chunk_osize m chunk
        in if Chunk_next m chunk = 0 then
             if actual \<noteq> heap_stop then abort_with ''heap_stop == chunk+header+size''
             else if chunk \<noteq> cl_last self then abort_with ''chunk == self->last''
             else if cnt \<noteq> cl_size self then abort_with ''count == self->size''
             else ret ()
           else if actual \<noteq> Chunk_next m chunk then abort_with ''chunk->next == chunk+header+size''
           else validate_from self m heap_stop (Chunk_next m chunk) cnt)"

definition ChunkList_validate :: "ChunkList \<Rightarrow> mem \<Rightarrow> addr \<Rightarrow> unit prog" where
  "ChunkList_validate self m heap_stop = validate_from self m heap_stop (cl_first self) 0"

end
