(* ===== verification/Chunk_Cells.thy ===== *)
theory Chunk_Cells
  imports Chunk_List
begin

text \<open>
  The large object space as the sequence of its cells: what each operation of \<open>Chunk_List\<close> does to that
  sequence, and the proof that the code, working on linked chunk headers in memory, does it.
\<close>

section \<open>Cells\<close>

text \<open>\<open>cell_size\<close> is the \<open>size\<close> field of the chunk's object: the payload and the object header.\<close>

record cell =
  cell_allocated :: bool
  cell_atomic :: nat
  cell_marked :: bool
  cell_size :: nat

definition cell_total :: "cell \<Rightarrow> nat" where
  "cell_total c = 16 + cell_size c"

definition extent :: "cell list \<Rightarrow> nat" where
  "extent cs = sum_list (map cell_total cs)"

lemma extent_simps [simp]:
  "extent [] = 0" "extent (c # cs) = cell_total c + extent cs" "extent (xs @ ys) = extent xs + extent ys"
  by (simp_all add: extent_def)

definition free_cell :: "nat \<Rightarrow> cell" where
  "free_cell n = \<lparr>cell_allocated = False, cell_atomic = 0, cell_marked = False, cell_size = n\<rparr>"

text \<open>Splitting: the rest becomes a free cell when it is large enough for one.\<close>

definition split_cell :: "cell \<Rightarrow> nat \<Rightarrow> cell list" where
  "split_cell c n =
     (if cell_size c - n < CHUNK_MIN_SIZE then [c]
      else [c\<lparr>cell_size := n\<rparr>, free_cell (cell_size c - n - CHUNK_HEADER_SIZE)])"

text \<open>Sweeping: each run of unmarked cells becomes one free cell.\<close>

function sweep_cells :: "cell list \<Rightarrow> cell list" where
  "sweep_cells [] = []"
| "sweep_cells (c # cs) =
     (if cell_marked c then c # sweep_cells cs
      else c\<lparr>cell_allocated := False, cell_size := cell_size c + extent (takeWhile (\<lambda>c. \<not> cell_marked c) cs)\<rparr>
           # sweep_cells (dropWhile (\<lambda>c. \<not> cell_marked c) cs))"
  by pat_completeness auto
termination
  by (relation "measure length") (auto simp: length_dropWhile_le less_Suc_eq_le)

section \<open>Cells in memory\<close>

definition cell_at :: "mem \<Rightarrow> addr \<Rightarrow> cell \<Rightarrow> bool" where
  "cell_at m a c \<longleftrightarrow> 16 \<le> cell_size c \<and> Chunk_osize m a = cell_size c \<and>
     (Chunk_isAllocated m a \<longleftrightarrow> cell_allocated c) \<and> (Chunk_isMarked m a \<longleftrightarrow> cell_marked c) \<and>
     Object_atomic m (Chunk_object a) = cell_atomic c"

text \<open>
  The cells \<open>cs\<close> one behind the other from address \<open>a\<close> on, each linked to the next and the last one to
  \<open>nx\<close>.
\<close>

primrec chunk_seg :: "mem \<Rightarrow> addr \<Rightarrow> cell list \<Rightarrow> addr \<Rightarrow> bool" where
  "chunk_seg m a [] nx \<longleftrightarrow> True"
| "chunk_seg m a (c # cs) nx \<longleftrightarrow> cell_at m a c \<and>
     Chunk_next m a = (if cs = [] then nx else a + cell_total c) \<and> chunk_seg m (a + cell_total c) cs nx"

definition chunk_list :: "mem \<Rightarrow> ChunkList \<Rightarrow> addr \<Rightarrow> cell list \<Rightarrow> bool" where
  "chunk_list m self start cs \<longleftrightarrow> cs \<noteq> [] \<and> start \<noteq> 0 \<and> start + extent cs < 2 ^ 64 \<and>
     cl_first self = start \<and> cl_last self = start + extent (butlast cs) \<and> cl_size self = length cs \<and>
     chunk_seg m start cs 0"

named_theorems chunk_defs \<open>the field accesses of a chunk\<close>

lemmas [chunk_defs] = Chunk_next_def Chunk_set_next_def Chunk_set_allocated_def Chunk_osize_def
  Chunk_set_osize_def Chunk_isAllocated_def Chunk_isMarked_def Object_isMarked_def Object_atomic_def
  Object_size_def Object_set_size_def Chunk_object_def Chunk_mark_def Chunk_unmark_def Object_mark_def
  Object_unmark_def

lemma cell_at_size: "cell_at m a c \<Longrightarrow> 16 \<le> cell_size c"
  by (simp add: cell_at_def)

lemma cell_at_bound: "cell_at m a c \<Longrightarrow> cell_size c < 2 ^ 64"
  using load8_bound [of m "a + 16"] unfolding cell_at_def chunk_defs by linarith

lemma chunk_seg_append:
  "chunk_seg m a (xs @ ys) nx \<longleftrightarrow>
     chunk_seg m a xs (if ys = [] then nx else a + extent xs) \<and> chunk_seg m (a + extent xs) ys nx"
  by (induction xs arbitrary: a) (auto simp: add.assoc)

lemma cell_at_cong:
  "same_bytes m m' a (a + 32) \<Longrightarrow> cell_at m a c = cell_at m' a c"
proof -
  assume s: "same_bytes m m' a (a + 32)"
  have l: "load k m (a + i) = load k m' (a + i)" if "i + k \<le> 32" for k i
    by (rule load_same_bytes [OF s]) (use that in auto)
  show ?thesis
    using l [of 16 8] l [of 8 1] l [of 24 1] l [of 25 1] by (simp add: cell_at_def chunk_defs add.commute)
qed

lemma Chunk_next_cong: "same_bytes m m' a (a + 32) \<Longrightarrow> Chunk_next m a = Chunk_next m' a"
  by (simp add: Chunk_next_def load_same_bytes)

lemma chunk_seg_cong:
  "same_bytes m m' a (a + extent cs) \<Longrightarrow> chunk_seg m a cs nx \<Longrightarrow> chunk_seg m' a cs nx"
proof (induction cs arbitrary: a)
  case (Cons c cs)
  have "16 \<le> cell_size c" using Cons.prems(2) by (auto dest: cell_at_size)
  then have h: "same_bytes m m' a (a + 32)"
    by (intro same_bytes_sub [OF Cons.prems(1)]) (auto simp: cell_total_def)
  have "chunk_seg m' (a + cell_total c) cs nx"
    by (rule Cons.IH) (use Cons.prems in \<open>auto intro: same_bytes_sub simp: add.assoc\<close>)
  with Cons.prems cell_at_cong [OF h] Chunk_next_cong [OF h] show ?case by simp
qed simp

lemma chunk_seg_size: "chunk_seg m a cs nx \<Longrightarrow> c \<in> set cs \<Longrightarrow> 16 \<le> cell_size c"
  by (induction cs arbitrary: a) (auto simp: cell_at_size)

lemma chunk_seg_extent: "chunk_seg m a cs nx \<Longrightarrow> 32 * length cs \<le> extent cs"
  by (induction cs arbitrary: a) (fastforce simp: cell_total_def dest: cell_at_size)+

lemma chunk_seg_next: "chunk_seg m a cs nx \<Longrightarrow> cs \<noteq> [] \<Longrightarrow> Chunk_next m (a + extent (butlast cs)) = nx"
proof (induction cs arbitrary: a)
  case (Cons c cs)
  then show ?case using Cons.IH [of "a + cell_total c"] by (cases "cs = []") (auto simp: add.assoc)
qed simp

text \<open>Relinking the last cell of a segment.\<close>

lemma chunk_seg_relink:
  assumes s: "chunk_seg m a cs nx" and ne: "cs \<noteq> []" and v: "v < 2 ^ 64"
  shows "chunk_seg (Chunk_set_next m (a + extent (butlast cs)) v) a cs v"
  using s ne
proof (induction cs arbitrary: a)
  case (Cons c cs)
  show ?case
  proof (cases "cs = []")
    case True
    with Cons.prems v show ?thesis
      by (simp add: cell_at_def chunk_defs load_store_same load_store_other)
  next
    case False
    let ?m = "Chunk_set_next m (a + extent (butlast (c # cs))) v"
    have IH: "chunk_seg ?m (a + cell_total c) cs v"
      using Cons.IH [of "a + cell_total c"] Cons.prems False by (simp add: add.assoc)
    have "same_bytes m ?m a (a + 32)"
      using Cons.prems False cell_at_size [of m a c]
      by (auto simp: Chunk_set_next_def cell_total_def intro!: same_bytes_store)
    with IH False Cons.prems cell_at_cong [of m ?m a c] Chunk_next_cong [of m ?m a] show ?thesis by simp
  qed
qed simp

section \<open>Splitting a cell\<close>

lemma chunk_init_cell:
  "16 \<le> n \<Longrightarrow> n < 2 ^ 64 \<Longrightarrow> cell_at (Chunk_init m a n) a (free_cell n) \<and> Chunk_next (Chunk_init m a n) a = 0"
  by (simp add: Chunk_init_def cell_at_def free_cell_def chunk_defs load_store_same load_store_other)

lemma chunk_init_frame: "hi \<le> a \<or> a + 32 \<le> lo \<Longrightarrow> same_bytes m (Chunk_init m a n) lo hi"
  unfolding Chunk_init_def Let_def chunk_defs
  by (auto intro!: same_bytes_trans [OF same_bytes_store same_bytes_trans [OF same_bytes_store
        same_bytes_trans [OF same_bytes_store same_bytes_trans [OF same_bytes_store same_bytes_store]]]])

text \<open>What \<open>ChunkList_split\<close> writes: the new size, the new header, and the two links.\<close>

lemma split_memory:
  assumes c: "cell_at m a c" and n: "16 \<le> n" "n + CHUNK_MIN_SIZE \<le> cell_size c"
    and free: "free = a + 16 + n" and v: "free < 2 ^ 64" "nx < 2 ^ 64"
    and m1: "m1 = Chunk_init (Chunk_set_osize m a n) free (cell_size c - n - 16)"
    and m2: "m2 = Chunk_set_next (Chunk_set_next m1 free nx) a free"
  shows "chunk_seg m2 a [c\<lparr>cell_size := n\<rparr>, free_cell (cell_size c - n - 16)] nx"
    and "same_bytes m m2 0 a" and "same_bytes m m2 (a + cell_total c) hi"
proof -
  let ?r = "cell_size c - n - 16"
  have "16 \<le> ?r" "?r < 2 ^ 64" using n cell_at_bound [OF c] by auto
  from chunk_init_cell [OF this, of "Chunk_set_osize m a n" free]
  have "cell_at m1 free (free_cell ?r)" by (simp add: m1)
  then have f: "cell_at m2 free (free_cell ?r)" "Chunk_next m2 free = nx"
    using v n free by (simp_all add: m2 cell_at_def chunk_defs load_store_same load_store_other)
  have "same_bytes (Chunk_set_osize m a n) m1 a (a + 32)"
    unfolding m1 by (rule chunk_init_frame) (use n free in simp)
  moreover have "cell_at (Chunk_set_osize m a n) a (c\<lparr>cell_size := n\<rparr>)"
    using c n v free by (simp add: cell_at_def chunk_defs load_store_same load_store_other)
  ultimately have "cell_at m1 a (c\<lparr>cell_size := n\<rparr>)" using cell_at_cong by blast
  then have "cell_at m2 a (c\<lparr>cell_size := n\<rparr>)" "Chunk_next m2 a = free"
    using v n free by (simp_all add: m2 cell_at_def chunk_defs load_store_same load_store_other)
  with f show "chunk_seg m2 a [c\<lparr>cell_size := n\<rparr>, free_cell ?r] nx"
    by (simp add: cell_total_def free add.assoc)
  have fr: "same_bytes m m2 lo hi" if "hi \<le> a \<or> a + cell_total c \<le> lo" for lo hi
  proof -
    have "same_bytes m (Chunk_set_osize m a n) lo hi"
      unfolding chunk_defs by (rule same_bytes_store) (use that n in \<open>auto simp: cell_total_def\<close>)
    also have "same_bytes (Chunk_set_osize m a n) m1 lo hi"
      unfolding m1 by (rule chunk_init_frame) (use that n free in \<open>auto simp: cell_total_def\<close>)
    finally (same_bytes_trans) have "same_bytes m m1 lo hi" .
    also have "same_bytes m1 (Chunk_set_next m1 free nx) lo hi"
      unfolding chunk_defs by (rule same_bytes_store) (use that n free in \<open>auto simp: cell_total_def\<close>)
    finally (same_bytes_trans) have "same_bytes m (Chunk_set_next m1 free nx) lo hi" .
    also have "same_bytes (Chunk_set_next m1 free nx) m2 lo hi"
      unfolding m2 chunk_defs by (rule same_bytes_store) (use that n free in \<open>auto simp: cell_total_def\<close>)
    finally (same_bytes_trans) show ?thesis .
  qed
  show "same_bytes m m2 0 a" "same_bytes m m2 (a + cell_total c) hi" using fr by auto
qed

lemma chunk_list_split:
  assumes "chunk_list m self start (xs @ c # ys)"
  defines "a \<equiv> start + extent xs"
  shows "cell_at m a c" and "a \<noteq> 0" and "a + cell_total c + extent ys < 2 ^ 64"
    and "chunk_seg m start xs a"
    and "Chunk_next m a = (if ys = [] then 0 else a + cell_total c)"
    and "chunk_seg m (a + cell_total c) ys 0"
    and "cl_last self = a \<longleftrightarrow> ys = []"
  using assms(1)
  by (auto simp: chunk_list_def a_def chunk_seg_append butlast_append add.assoc cell_total_def)

lemma chunk_listI:
  assumes "chunk_seg m start xs (if zs @ ys = [] then 0 else start + extent xs)"
    and "chunk_seg m (start + extent xs) zs (if ys = [] then 0 else start + extent xs + extent zs)"
    and "chunk_seg m (start + extent xs + extent zs) ys 0"
  shows "chunk_seg m start (xs @ zs @ ys) 0"
  using assms by (simp add: chunk_seg_append add.assoc)

text \<open>The list after a split that leaves a free chunk behind.\<close>

lemma split_list_cells:
  assumes l: "chunk_list m self start (xs @ c # ys)" and n: "16 \<le> n" and big: "n + CHUNK_MIN_SIZE \<le> cell_size c"
  defines "a \<equiv> start + extent xs"
  assumes seg: "chunk_seg m2 a (split_cell c n) (if ys = [] then 0 else a + cell_total c)"
    and low: "same_bytes m m2 0 a" and high: "\<And>hi. same_bytes m m2 (a + cell_total c) hi"
  shows "chunk_list m2 (self\<lparr>cl_last := (if ys = [] then a + 16 + n else cl_last self), cl_size := size_add (cl_size self) 1\<rparr>) start
    (xs @ split_cell c n @ ys)" (is "chunk_list m2 ?self _ _")
proof -
  note L = chunk_list_split [OF l, folded a_def]
  have sp: "split_cell c n = [c\<lparr>cell_size := n\<rparr>, free_cell (cell_size c - n - 16)]"
    using big by (simp add: split_cell_def)
  have ext: "extent (split_cell c n) = cell_total c"
    using n big by (simp add: sp cell_total_def free_cell_def)
  have "chunk_seg m2 start xs a"
    by (rule chunk_seg_cong [OF _ L(4)]) (rule same_bytes_sub [OF low], auto simp: a_def)
  moreover have "chunk_seg m2 (a + cell_total c) ys 0"
    by (rule chunk_seg_cong [OF high L(6)])
  ultimately have "chunk_seg m2 start (xs @ split_cell c n @ ys) 0"
    using seg ext by (intro chunk_listI) (auto simp: a_def sp)
  moreover have "cl_size ?self = length (xs @ split_cell c n @ ys)"
    using l chunk_seg_extent [of m start "xs @ c # ys" 0] by (auto simp: chunk_list_def sp)
  moreover have "cl_last ?self = start + extent (butlast (xs @ split_cell c n @ ys))"
    using l ext by (auto simp: chunk_list_def sp a_def butlast_append cell_total_def free_cell_def)
  ultimately show ?thesis using l ext by (auto simp: chunk_list_def)
qed

lemma ChunkList_split_cells:
  assumes l: "chunk_list m self start (xs @ c # ys)" and n: "16 \<le> n" "n \<le> cell_size c"
  shows "\<exists>self' m' r. ChunkList_split self m (start + extent xs) n = ret (self', m', r) \<and>
    chunk_list m' self' start (xs @ split_cell c n @ ys) \<and>
    same_bytes m m' 0 (start + extent xs) \<and> same_bytes m m' (start + extent xs + cell_total c) (2 ^ 64)"
proof -
  define a where "a = start + extent xs"
  note L = chunk_list_split [OF l, folded a_def]
  have sz: "Chunk_osize m a = cell_size c" and lt: "cell_size c < 2 ^ 64"
    using L(1) cell_at_bound by (auto simp: cell_at_def)
  have rem: "size_sub (Chunk_osize m a) n = cell_size c - n" using sz lt n by simp
  show ?thesis
  proof (cases "cell_size c - n < CHUNK_MIN_SIZE")
    case True
    then show ?thesis
      using l rem by (simp add: ChunkList_split_def split_cell_def a_def)
  next
    case False
    let ?nx = "if ys = [] then 0 else a + cell_total c" and ?free = "a + 16 + n"
    let ?m1 = "Chunk_init (Chunk_set_osize m a n) ?free (cell_size c - n - 16)"
    let ?m2 = "Chunk_set_next (Chunk_set_next ?m1 ?free ?nx) a ?free"
    have big: "n + CHUNK_MIN_SIZE \<le> cell_size c" using False n by simp
    have bounds: "?free < 2 ^ 64" "?nx < 2 ^ 64" using L(3) big by (auto simp: cell_total_def)
    note S = split_memory [OF L(1) n(1) big refl bounds refl refl]
    have "same_bytes (Chunk_set_osize m a n) ?m1 a (a + 16)"
      by (rule chunk_init_frame) simp
    then have "Chunk_next ?m1 a = Chunk_next (Chunk_set_osize m a n) a"
      by (simp add: Chunk_next_def load_same_bytes)
    with L(5) have next1: "Chunk_next ?m1 a = ?nx" by (simp add: chunk_defs load_store_other)
    let ?self = "self\<lparr>cl_last := (if ys = [] then ?free else cl_last self), cl_size := size_add (cl_size self) 1\<rparr>"
    have ins: "ChunkList_insert self ?m1 ?free a = (?self, ?m2)"
      using L(7) next1 by (auto simp: ChunkList_insert_def Let_def)
    have sub: "size_sub (cell_size c - n) CHUNK_HEADER_SIZE = cell_size c - n - 16"
      using big lt by simp
    have nf: "Chunk_next ?m2 ?free = ?nx" "?free + (cell_size c - n) = a + cell_total c"
      using S(1) n by (simp_all add: cell_total_def add.assoc split: if_splits)
    have "ChunkList_split self m a n = ret (?self, ?m2, ?free)"
      using rem ins sub nf False by (simp add: ChunkList_split_def Let_def)
    moreover have "chunk_list ?m2 ?self start (xs @ split_cell c n @ ys)"
      using split_list_cells [OF l n(1) big, folded a_def] S False by (simp add: split_cell_def)
    ultimately show ?thesis using S(2,3) unfolding a_def by blast
  qed
qed

section \<open>Changing one cell, and adding one\<close>

lemma chunk_list_update:
  assumes l: "chunk_list m self start (xs @ c # ys)"
    and c': "cell_at m' (start + extent xs) c'" "cell_size c' = cell_size c"
    and nx: "Chunk_next m' (start + extent xs) = Chunk_next m (start + extent xs)"
    and fr: "same_bytes m m' 0 (start + extent xs)" "same_bytes m m' (start + extent xs + 32) (2 ^ 64)"
  shows "chunk_list m' self start (xs @ c' # ys)"
proof -
  define a where "a = start + extent xs"
  note L = chunk_list_split [OF l, folded a_def]
  have tot: "cell_total c' = cell_total c" using c'(2) by (simp add: cell_total_def)
  have "chunk_seg m' start xs a"
    by (rule chunk_seg_cong [OF _ L(4)]) (rule same_bytes_sub [OF fr(1)], auto simp: a_def)
  moreover have "chunk_seg m' (a + cell_total c) ys 0"
  proof (rule chunk_seg_cong [OF _ L(6)])
    show "same_bytes m m' (a + cell_total c) (a + cell_total c + extent ys)"
      using L(3) cell_at_size [OF L(1)] by (intro same_bytes_sub [OF fr(2)]) (auto simp: a_def cell_total_def)
  qed
  ultimately have "chunk_seg m' start (xs @ [c'] @ ys) 0"
    using c' nx L(5) tot by (intro chunk_listI) (auto simp: a_def)
  with l tot show ?thesis by (auto simp: chunk_list_def butlast_append)
qed

text \<open>The writes of the allocator and of the collector to a cell: none touches its size or its link.\<close>

lemma field_frame:
  "\<lbrakk>8 \<le> i; i + n \<le> 32\<rbrakk> \<Longrightarrow> same_bytes m (store n m (a + i) v) 0 a \<and> same_bytes m (store n m (a + i) v) (a + 32) hi"
  by (auto intro!: same_bytes_store)

lemma Chunk_allocate_cells:
  assumes l: "chunk_list m self start (xs @ c # ys)" and at: "at < 256"
  shows "chunk_list (Chunk_allocate m (start + extent xs) at) self start
           (xs @ c\<lparr>cell_allocated := True, cell_atomic := at\<rparr> # ys)"
proof (rule chunk_list_update [OF l])
  note c = chunk_list_split(1) [OF l]
  show "cell_at (Chunk_allocate m (start + extent xs) at) (start + extent xs) (c\<lparr>cell_allocated := True, cell_atomic := at\<rparr>)"
    using c at by (simp add: Chunk_allocate_def cell_at_def chunk_defs load_store_same load_store_other)
qed (auto simp: Chunk_allocate_def chunk_defs load_store_other intro!: same_bytes_trans [OF same_bytes_store same_bytes_store])

lemma Chunk_free_cells:
  assumes l: "chunk_list m self start (xs @ c # ys)"
  shows "chunk_list (Chunk_set_allocated m (start + extent xs) 0) self start (xs @ c\<lparr>cell_allocated := False\<rparr> # ys)"
proof (rule chunk_list_update [OF l])
  note c = chunk_list_split(1) [OF l]
  show "cell_at (Chunk_set_allocated m (start + extent xs) 0) (start + extent xs) (c\<lparr>cell_allocated := False\<rparr>)"
    using c by (simp add: cell_at_def chunk_defs load_store_same load_store_other)
qed (auto simp: cell_at_def chunk_defs load_store_other intro!: same_bytes_store)

lemma Chunk_mark_cells:
  assumes l: "chunk_list m self start (xs @ c # ys)"
  shows "chunk_list (Chunk_mark m (start + extent xs)) self start (xs @ c\<lparr>cell_marked := True\<rparr> # ys)"
    and "chunk_list (Chunk_unmark m (start + extent xs)) self start (xs @ c\<lparr>cell_marked := False\<rparr> # ys)"
proof -
  note c = chunk_list_split(1) [OF l]
  have "cell_at (Chunk_mark m (start + extent xs)) (start + extent xs) (c\<lparr>cell_marked := True\<rparr>)"
       "cell_at (Chunk_unmark m (start + extent xs)) (start + extent xs) (c\<lparr>cell_marked := False\<rparr>)"
    using c by (simp_all add: cell_at_def chunk_defs load_store_same load_store_other)
  then show "chunk_list (Chunk_mark m (start + extent xs)) self start (xs @ c\<lparr>cell_marked := True\<rparr> # ys)"
    "chunk_list (Chunk_unmark m (start + extent xs)) self start (xs @ c\<lparr>cell_marked := False\<rparr> # ys)"
    by (auto intro!: chunk_list_update [OF l] same_bytes_store simp: chunk_defs load_store_other)
qed

text \<open>
  A new chunk behind the last one, the way the large heap grows; \<open>ChunkList_push\<close> clears its link again.
  The links are those of \<open>Linked_List\<close>.
\<close>

definition chunk_apart :: "addr \<Rightarrow> addr \<Rightarrow> bool" where
  "chunk_apart a b \<longleftrightarrow> a + 32 \<le> b \<or> b + 32 \<le> a"

interpretation chunk_link: next_field Chunk_next Chunk_set_next chunk_apart
  by unfold_locales (auto simp: Chunk_next_def Chunk_set_next_def chunk_apart_def load_store_same load_store_other)

lemma ChunkList_push_cells:
  assumes l: "chunk_list m self start cs" and stop: "stop = start + extent cs"
    and n: "16 \<le> n" "stop + 16 + n < 2 ^ 64"
  shows "\<exists>self' m'. ChunkList_push self (Chunk_init m stop n) stop = (self', m') \<and>
    chunk_list m' self' start (cs @ [free_cell n]) \<and>
    (\<forall>lo hi. (hi \<le> cl_last self \<or> cl_last self + 8 \<le> lo) \<longrightarrow> (hi \<le> stop \<or> stop + 32 \<le> lo) \<longrightarrow> same_bytes m m' lo hi)"
proof -
  let ?m1 = "Chunk_init m stop n" and ?lst = "cl_last self"
  let ?m2 = "Chunk_set_next (Chunk_set_next ?m1 stop 0) ?lst stop"
  have ne: "cs \<noteq> []" "cl_first self \<noteq> 0" and lst: "?lst = start + extent (butlast cs)"
    and seg: "chunk_seg m start cs 0"
    using l by (auto simp: chunk_list_def)
  have last_total: "?lst + cell_total (last cs) = stop" "32 \<le> cell_total (last cs)"
  proof -
    have "extent cs = extent (butlast cs @ [last cs])" using ne by simp
    then show "?lst + cell_total (last cs) = stop" by (simp only: lst stop extent_simps)
    show "32 \<le> cell_total (last cs)" using chunk_seg_size [OF seg last_in_set [OF ne(1)]] by (simp add: cell_total_def)
  qed
  have c: "cell_at ?m1 stop (free_cell n)" using chunk_init_cell n by simp
  have "chunk_seg ?m1 start cs 0"
    by (rule chunk_seg_cong [OF _ seg]) (rule chunk_init_frame, simp add: stop)
  then have "chunk_seg (Chunk_set_next ?m1 stop 0) start cs 0"
    by (rule chunk_seg_cong [rotated]) (auto simp: Chunk_set_next_def stop intro!: same_bytes_store)
  from chunk_seg_relink [OF this ne(1), of stop] n
  have "chunk_seg ?m2 start cs stop" by (simp add: lst)
  moreover have "cell_at ?m2 stop (free_cell n)" "Chunk_next ?m2 stop = 0"
    using c last_total by (simp_all add: cell_at_def chunk_defs load_store_same load_store_other)
  ultimately have "chunk_seg ?m2 start (cs @ [free_cell n]) 0" by (simp add: chunk_seg_append stop)
  moreover have "length cs < 2 ^ 64 - 1" using chunk_seg_extent [OF seg] n stop by simp
  moreover have "same_bytes m ?m2 lo hi" if "hi \<le> ?lst \<or> ?lst + 8 \<le> lo" "hi \<le> stop \<or> stop + 32 \<le> lo" for lo hi
  proof -
    have "same_bytes m ?m1 lo hi" by (rule chunk_init_frame) (use that stop in auto)
    moreover have "same_bytes ?m1 (Chunk_set_next ?m1 stop 0) lo hi"
      unfolding Chunk_set_next_def by (rule same_bytes_store) (use that stop in auto)
    moreover have "same_bytes (Chunk_set_next ?m1 stop 0) ?m2 lo hi"
      unfolding Chunk_set_next_def by (rule same_bytes_store) (use that stop last_total lst in auto)
    ultimately show ?thesis by (blast intro: same_bytes_trans)
  qed
  ultimately show ?thesis
    using l ne n stop by (auto simp: ChunkList_push_def ChunkList_isEmpty_def Let_def chunk_list_def cell_total_def free_cell_def)
qed

lemma ChunkList_init_cells:
  assumes "start \<noteq> 0" "16 \<le> n" "start + 16 + n < 2 ^ 64"
  shows "\<exists>self' m'. ChunkList_push (ChunkList_clear self) (Chunk_init m start n) start = (self', m') \<and>
    chunk_list m' self' start [free_cell n]"
  using assms chunk_init_cell [of n m start]
  by (auto simp: ChunkList_push_def ChunkList_clear_def ChunkList_isEmpty_def Let_def chunk_list_def cell_total_def
      free_cell_def cell_at_def chunk_defs load_store_same load_store_other)

section \<open>Finding the cell of a pointer\<close>

fun find_cell :: "addr \<Rightarrow> addr \<Rightarrow> cell list \<Rightarrow> addr" where
  "find_cell pointer a [] = 0"
| "find_cell pointer a (c # cs) =
     (if a + 32 \<le> pointer \<and> pointer < a + cell_total c then a else find_cell pointer (a + cell_total c) cs)"

lemma find_from_cells:
  "chunk_seg m a cs 0 \<Longrightarrow> a \<noteq> 0 \<Longrightarrow> find_from m pointer (if cs = [] then 0 else a) = ret (find_cell pointer a cs)"
proof (induction cs arbitrary: a)
  case Nil
  then show ?case by (simp add: find_from.simps)
next
  case (Cons c cs)
  have "Chunk_contains m a pointer \<longleftrightarrow> a + 32 \<le> pointer \<and> pointer < a + cell_total c"
    using Cons.prems(1) by (simp add: Chunk_contains_def Chunk_mutatorAddress_def cell_at_def cell_total_def add.assoc)
  with Cons.IH [of "a + cell_total c"] Cons.prems show ?case
    by (simp add: find_from.simps [of m pointer a])
qed

lemma ChunkList_find_cells:
  "chunk_list m self start cs \<Longrightarrow> ChunkList_find self m pointer = ret (find_cell pointer start cs)"
  using find_from_cells [of m start cs pointer] by (simp add: ChunkList_find_def chunk_list_def split: if_splits)

text \<open>\<open>ChunkList_debug\<close> shows the cells, each with its address.\<close>

fun shown :: "addr \<Rightarrow> cell list \<Rightarrow> (addr \<times> bool \<times> nat \<times> bool \<times> nat) list" where
  "shown a [] = []"
| "shown a (c # cs) = (a, cell_allocated c, cell_size c, cell_marked c, cell_atomic c) # shown (a + cell_total c) cs"

lemma debug_from_cells: "chunk_seg m a cs 0 \<Longrightarrow> a \<noteq> 0 \<Longrightarrow> debug_from m (if cs = [] then 0 else a) = ret (shown a cs)"
proof (induction cs arbitrary: a)
  case Nil
  then show ?case by (simp add: debug_from.simps)
next
  case (Cons c cs)
  with Cons.IH [of "a + cell_total c"] show ?case by (simp add: debug_from.simps [of m a] cell_at_def)
qed

lemma ChunkList_debug_cells: "chunk_list m self start cs \<Longrightarrow> ChunkList_debug self m = ret (shown start cs)"
  using debug_from_cells [of m start cs] by (simp add: ChunkList_debug_def chunk_list_def split: if_splits)

text \<open>The result is the one cell whose payload has the pointer, or \<open>NULL\<close>.\<close>

lemma find_cell_inside:
  "a + extent xs + 32 \<le> p \<Longrightarrow> p < a + extent xs + cell_total c \<Longrightarrow> find_cell p a (xs @ c # ys) = a + extent xs"
proof (induction xs arbitrary: a)
  case (Cons d xs)
  have "find_cell p (a + cell_total d) (xs @ c # ys) = a + cell_total d + extent xs"
    by (rule Cons.IH) (use Cons.prems in \<open>auto simp: add.assoc\<close>)
  with Cons.prems show ?case by (auto simp: add.assoc)
qed simp

lemma find_cell_found:
  "find_cell p a cs = r \<Longrightarrow> r \<noteq> 0 \<Longrightarrow>
   \<exists>xs c ys. cs = xs @ c # ys \<and> r = a + extent xs \<and> r + 32 \<le> p \<and> p < r + cell_total c"
proof (induction cs arbitrary: a)
  case (Cons d ds)
  show ?case
  proof (cases "a + 32 \<le> p \<and> p < a + cell_total d")
    case True
    with Cons.prems show ?thesis by (intro exI [of _ "[]"]) auto
  next
    case False
    with Cons.prems have "find_cell p (a + cell_total d) ds = r" by auto
    from Cons.IH [OF this Cons.prems(2)] obtain xs c ys where
      "ds = xs @ c # ys" "r = a + cell_total d + extent xs" "r + 32 \<le> p" "p < r + cell_total c" by auto
    then show ?thesis by (intro exI [of _ "d # xs"] exI [of _ c] exI [of _ ys]) auto
  qed
qed simp

end
