(* ===== verification/Chunk_Sweep.thy ===== *)
theory Chunk_Sweep
  imports Chunk_Cells
begin

text \<open>
  The sweep of the large object space and the consistency check of the chunk list: the sweep turns each
  run of unmarked chunks into one free chunk and leaves every marked chunk as it is.
\<close>

section \<open>The sweep\<close>

abbreviation unmarked :: "cell \<Rightarrow> bool" where
  "unmarked c \<equiv> \<not> cell_marked c"

lemma sweep_scan_cells:
  "chunk_seg m a cs 0 \<Longrightarrow> a \<noteq> 0 \<Longrightarrow> n + length cs < 2 ^ 64 \<Longrightarrow>
   sweep_scan m (if cs = [] then 0 else a) n =
     ret (if dropWhile unmarked cs = [] then 0 else a + extent (takeWhile unmarked cs),
          n + length (takeWhile unmarked cs))"
proof (induction cs arbitrary: a n)
  case Nil
  then show ?case by (simp add: sweep_scan.simps)
next
  case (Cons c cs)
  have mk: "Chunk_isMarked m a \<longleftrightarrow> cell_marked c" using Cons.prems(1) by (simp add: cell_at_def)
  show ?case
  proof (cases "cell_marked c")
    case True
    with Cons.prems mk show ?thesis by (simp add: sweep_scan.simps [of m a n])
  next
    case False
    have "sweep_scan m (if cs = [] then 0 else a + cell_total c) (n + 1) =
       ret (if dropWhile unmarked cs = [] then 0 else a + cell_total c + extent (takeWhile unmarked cs),
          n + 1 + length (takeWhile unmarked cs))"
      by (rule Cons.IH) (use Cons.prems in auto)
    with Cons.prems mk False show ?thesis by (simp add: sweep_scan.simps [of m a n] add.assoc)
  qed
qed

text \<open>Marked cells keep every byte of their object, header and payload.\<close>

primrec marked_kept :: "mem \<Rightarrow> mem \<Rightarrow> addr \<Rightarrow> cell list \<Rightarrow> bool" where
  "marked_kept m m' a [] \<longleftrightarrow> True"
| "marked_kept m m' a (c # cs) \<longleftrightarrow>
     (cell_marked c \<longrightarrow> same_bytes m m' (a + 16) (a + cell_total c)) \<and> marked_kept m m' (a + cell_total c) cs"

lemma marked_kept_refl: "same_bytes m m' a (a + extent cs) \<Longrightarrow> marked_kept m m' a cs"
proof (induction cs arbitrary: a)
  case (Cons c cs)
  have "same_bytes m m' (a + cell_total c) (a + cell_total c + extent cs)"
    "same_bytes m m' (a + 16) (a + cell_total c)"
    by (rule same_bytes_sub [OF Cons.prems]; simp)+
  with Cons.IH show ?case by simp
qed simp

lemma marked_kept_append:
  "marked_kept m m' a (xs @ ys) \<longleftrightarrow> marked_kept m m' a xs \<and> marked_kept m m' (a + extent xs) ys"
  by (induction xs arbitrary: a) (auto simp: add.assoc)

lemma marked_kept_unmarked: "(\<forall>c \<in> set cs. unmarked c) \<Longrightarrow> marked_kept m m' a cs"
  by (induction cs arbitrary: a) auto

lemma marked_kept_trans:
  "same_bytes m m1 a (a + extent cs) \<Longrightarrow> marked_kept m1 m' a cs \<Longrightarrow> marked_kept m m' a cs"
proof (induction cs arbitrary: a)
  case (Cons c cs)
  have "same_bytes m m1 (a + cell_total c) (a + cell_total c + extent cs)"
    "same_bytes m m1 (a + 16) (a + cell_total c)"
    by (rule same_bytes_sub [OF Cons.prems(1)]; simp)+
  with Cons show ?case by (auto intro: same_bytes_trans)
qed simp

lemma extent_take_drop: "extent (takeWhile P cs) + extent (dropWhile P cs) = extent cs"
  by (metis extent_simps(3) takeWhile_dropWhile_id)

lemma extent_sweep: "extent (sweep_cells cs) = extent cs"
proof (induction cs rule: sweep_cells.induct)
  case (2 c cs)
  then show ?case using extent_take_drop [of unmarked cs] by (auto simp: cell_total_def)
qed simp

lemma sweep_cells_Nil_iff [simp]: "sweep_cells cs = [] \<longleftrightarrow> cs = []"
  by (cases cs) auto

lemma length_sweep: "length (sweep_cells cs) \<le> length cs"
proof (induction cs rule: sweep_cells.induct)
  case (2 c cs)
  then show ?case using length_dropWhile_le [of unmarked cs] by (auto intro: order_trans)
qed simp

definition swept_cell :: "cell \<Rightarrow> cell list \<Rightarrow> cell" where
  "swept_cell c us = c\<lparr>cell_allocated := False, cell_size := cell_size c + extent us\<rparr>"

text \<open>Merging: the cell \<open>c\<close> at \<open>a\<close> takes in the cells \<open>us\<close> behind it.\<close>

lemma ChunkList_merge_cells:
  assumes seg: "chunk_seg m a (c # us @ ds) 0" and a: "a \<noteq> 0" "a + extent (c # us @ ds) < 2 ^ 64"
    and us: "us \<noteq> []"
    and lst: "ds = [] \<Longrightarrow> cl_last self = a + cell_total c + extent (butlast us)"
    and small: "ds = [] \<Longrightarrow> cell_total (last us) < 2 ^ 31"
    and free: "\<not> cell_allocated c"
  defines "limit \<equiv> if ds = [] then 0 else a + cell_total c + extent us"
  shows "\<exists>m'. ChunkList_merge self m a limit n =
      ret (self\<lparr>cl_last := (if ds = [] then a else cl_last self), cl_size := size_sub (cl_size self) n\<rparr>, m') \<and>
    cell_at m' a (swept_cell c us) \<and> Chunk_next m' a = limit \<and> same_bytes m m' 0 a \<and>
    same_bytes m m' (a + 24) (2 ^ 64)"
proof -
  have c: "cell_at m a c" using seg by simp
  have useg: "chunk_seg m (a + cell_total c) us limit"
    using seg by (simp add: chunk_seg_append limit_def)
  have stop: "(if limit = 0 then ChunkList_limit self m else limit) = a + cell_total c + extent us"
  proof (cases "ds = []")
    case False
    with a show ?thesis by (simp add: limit_def)
  next
    case True
    have split: "us = butlast us @ [last us]" using us by simp
    have "chunk_seg m (a + cell_total c) (butlast us @ [last us]) limit" using useg us by simp
    then have at: "cell_at m (cl_last self) (last us)"
      by (auto simp: chunk_seg_append lst [OF True])
    have ext: "extent us = extent (butlast us) + cell_total (last us)"
      by (subst split) (simp only: extent_simps)
    have "Chunk_size m (cl_last self) = int (cell_total (last us))"
      using at small [OF True] by (simp add: Chunk_size_def cell_at_def cell_total_def add.commute)
    moreover have "cl_last self \<noteq> 0" "cl_last self + cell_total (last us) < 2 ^ 64"
      using a lst [OF True] ext True by auto
    ultimately have "ChunkList_limit self m = cl_last self + cell_total (last us)"
      by (simp add: ChunkList_limit_def nat_mod_distrib nat_add_distrib)
    then show ?thesis using True lst ext by (simp add: limit_def)
  qed
  have ext32: "32 \<le> extent us" using chunk_seg_extent [OF useg] us by (cases us) auto
  have sz: "size_sub (size_sub (a + cell_total c + extent us) a) CHUNK_HEADER_SIZE = cell_size c + extent us"
    using a cell_at_size [OF c] by (simp add: cell_total_def)
  let ?m = "Chunk_set_osize (Chunk_set_next m a limit) a (cell_size c + extent us)"
  have osz: "Chunk_osize m a < cell_size c + extent us" "limit < 2 ^ 64"
    using c ext32 us a by (auto simp: cell_at_def limit_def)
  have "ChunkList_merge self m a limit n =
      ret (self\<lparr>cl_last := (if ds = [] then a else cl_last self), cl_size := size_sub (cl_size self) n\<rparr>, ?m)"
    using osz a unfolding ChunkList_merge_def Let_def stop sz by (auto simp: limit_def)
  moreover have "cell_at ?m a (swept_cell c us)" "Chunk_next ?m a = limit"
    using c osz a free by (simp_all add: swept_cell_def cell_at_def chunk_defs load_store_same load_store_other cell_total_def)
  moreover have "same_bytes m ?m 0 a" "same_bytes m ?m (a + 24) (2 ^ 64)"
    unfolding chunk_defs by (auto intro!: same_bytes_trans [OF same_bytes_store same_bytes_store])
  ultimately show ?thesis by blast
qed

text \<open>The whole sweep, from any cell on.\<close>

definition swept :: "mem \<Rightarrow> mem \<Rightarrow> ChunkList \<Rightarrow> ChunkList \<Rightarrow> addr \<Rightarrow> cell list \<Rightarrow> bool" where
  "swept m m' self self' a cs \<longleftrightarrow>
     chunk_seg m' a (sweep_cells cs) 0 \<and> cl_first self' = cl_first self \<and>
     cl_last self' = (if cs = [] then cl_last self else a + extent (butlast (sweep_cells cs))) \<and>
     cl_size self' + length cs = cl_size self + length (sweep_cells cs) \<and>
     same_bytes m m' 0 a \<and> same_bytes m m' (a + extent cs) (2 ^ 64) \<and> marked_kept m m' a cs"

lemma swept_marked:
  assumes c: "cell_at m a c" "cell_marked c" "Chunk_next m a = (if cs = [] then 0 else a + cell_total c)"
    and s: "swept m m' self self' (a + cell_total c) cs" and lst: "cs = [] \<Longrightarrow> cl_last self = a"
  shows "swept m m' self self' a (c # cs)"
proof -
  have low: "same_bytes m m' 0 (a + cell_total c)" using s by (simp add: swept_def)
  have h: "same_bytes m m' a (a + 32)"
    by (rule same_bytes_sub [OF low]) (use cell_at_size [OF c(1)] in \<open>auto simp: cell_total_def\<close>)
  have "same_bytes m m' (a + 16) (a + cell_total c)" "same_bytes m m' 0 a"
    by (rule same_bytes_sub [OF low]; simp)+
  with s c lst cell_at_cong [OF h] Chunk_next_cong [OF h] show ?thesis
    by (auto simp: swept_def add.assoc)
qed

lemma swept_run:
  assumes seg: "chunk_seg m a (c # us @ ds) 0" and un: "unmarked c" "\<forall>u \<in> set us. unmarked u"
    and stop: "ds = [] \<or> cell_marked (hd ds)"
    and m1: "cell_at m1 a (swept_cell c us)" "Chunk_next m1 a = (if ds = [] then 0 else a + cell_total c + extent us)"
      "same_bytes m m1 0 a" "same_bytes m m1 (a + 24) (2 ^ 64)"
    and bound: "a + extent (c # us @ ds) < 2 ^ 64"
    and self1: "cl_first self1 = cl_first self" "ds = [] \<Longrightarrow> cl_last self1 = a"
      "cl_size self1 + length us = cl_size self"
    and s: "swept m1 m' self1 self' (a + cell_total c + extent us) ds"
  shows "swept m m' self self' a (c # us @ ds)"
proof -
  let ?d = "a + cell_total c + extent us"
  have low: "same_bytes m1 m' 0 ?d" using s by (simp add: swept_def)
  have h: "same_bytes m1 m' a (a + 32)"
    by (rule same_bytes_sub [OF low]) (use seg in \<open>auto simp: cell_total_def dest!: cell_at_size\<close>)
  have "takeWhile unmarked (us @ ds) = us" "dropWhile unmarked (us @ ds) = ds"
    using un(2) stop by (cases ds; auto simp: takeWhile_append dropWhile_append)+
  then have sw: "sweep_cells (c # us @ ds) = swept_cell c us # sweep_cells ds"
    using un(1) by (simp add: swept_cell_def)
  have tot: "cell_total (swept_cell c us) = cell_total c + extent us"
    by (simp add: swept_cell_def cell_total_def)
  have up: "same_bytes m m1 ?d (?d + extent ds)"
    by (rule same_bytes_sub [OF m1(4)]) (use seg bound in \<open>auto simp: cell_total_def dest!: cell_at_size\<close>)
  have "marked_kept m m' a (c # us @ ds)"
    using marked_kept_unmarked [of "c # us" m m' a] un s marked_kept_trans [OF up, of m']
    by (simp add: marked_kept_append swept_def add.assoc)
  moreover have "same_bytes m m' 0 a"
    using m1(3) same_bytes_sub [OF low, of 0 a] by (auto intro: same_bytes_trans)
  moreover have "same_bytes m m' (a + extent (c # us @ ds)) (2 ^ 64)"
  proof -
    have "same_bytes m m1 (a + extent (c # us @ ds)) (2 ^ 64)"
      by (rule same_bytes_sub [OF m1(4)]) (use seg in \<open>auto simp: cell_total_def dest!: cell_at_size\<close>)
    with s show ?thesis by (auto simp: swept_def add.assoc intro: same_bytes_trans)
  qed
  moreover have "chunk_seg m' a (sweep_cells (c # us @ ds)) 0"
    using s m1(1,2) cell_at_cong [OF h] Chunk_next_cong [OF h]
    unfolding sw by (simp add: tot swept_def add.assoc)
  moreover have "cl_last self' = a + extent (butlast (sweep_cells (c # us @ ds)))"
    using s self1(2) unfolding sw by (simp add: tot swept_def add.assoc)
  ultimately show ?thesis
    using s self1 unfolding sw swept_def by simp
qed

lemma sweep_run_step:
  assumes seg: "chunk_seg m a (c # us @ ds) 0" and a: "a \<noteq> 0" "a + extent (c # us @ ds) < 2 ^ 64"
    and lst: "cl_last self = a + extent (butlast (c # us @ ds))" and small: "cell_total (last (c # us @ ds)) < 2 ^ 31"
    and sz: "cl_size self = n" "length us \<le> n" "n < 2 ^ 64" and free: "\<not> cell_allocated c"
  defines "limit \<equiv> if ds = [] then 0 else a + cell_total c + extent us"
  shows "\<exists>self1 m1. (if limit \<noteq> Chunk_next m a then ChunkList_merge self m a limit (length us) else ret (self, m))
      = ret (self1, m1) \<and> cell_at m1 a (swept_cell c us) \<and> Chunk_next m1 a = limit \<and>
      same_bytes m m1 0 a \<and> same_bytes m m1 (a + 24) (2 ^ 64) \<and> cl_first self1 = cl_first self \<and>
      (ds = [] \<longrightarrow> cl_last self1 = a) \<and> (ds \<noteq> [] \<longrightarrow> cl_last self1 = cl_last self) \<and>
      cl_size self1 + length us = n"
proof (cases "us = []")
  case True
  then have "limit = Chunk_next m a" "swept_cell c us = c"
    using seg free by (auto simp: limit_def swept_cell_def)
  then show ?thesis
    using True seg lst sz by (intro exI [of _ self] exI [of _ m]) auto
next
  case us: False
  have l: "cl_last self = a + cell_total c + extent (butlast us)" "cell_total (last us) < 2 ^ 31" if "ds = []"
    using lst small that us by (auto simp: add.assoc)
  have "32 * length us \<le> extent us" using seg by (auto simp: chunk_seg_append intro: chunk_seg_extent)
  then have "limit \<noteq> Chunk_next m a"
    using seg us a(1) by (cases us) (auto simp: limit_def cell_total_def)
  moreover have "size_sub (cl_size self) (length us) + length us = n" using sz by simp
  moreover note ChunkList_merge_cells [OF seg a us l free, of "length us"]
  ultimately show ?thesis by (auto simp: limit_def)
qed

text \<open>One unmarked run: the loop frees its first chunk, merges the others into it, and goes on behind them.\<close>

lemma sweep_from_run:
  assumes seg: "chunk_seg m a (c # us @ ds) 0" and a: "a \<noteq> 0" "a + extent (c # us @ ds) < 2 ^ 64"
    and c: "\<not> cell_marked c" and un: "\<forall>u \<in> set us. unmarked u" and stop: "ds = [] \<or> cell_marked (hd ds)"
    and lst: "cl_last self = a + extent (butlast (c # us @ ds))" "cell_total (last (c # us @ ds)) < 2 ^ 31"
    and sz: "length (us @ ds) \<le> cl_size self" "cl_size self < 2 ^ 64"
  defines "limit \<equiv> if ds = [] then 0 else a + cell_total c + extent us"
  shows "\<exists>self1 m1. sweep_from self m a = sweep_from self1 m1 limit \<and>
    cell_at m1 a (swept_cell c us) \<and> Chunk_next m1 a = limit \<and> same_bytes m m1 0 a \<and> same_bytes m m1 (a + 24) (2 ^ 64) \<and>
    cl_first self1 = cl_first self \<and> (ds = [] \<longrightarrow> cl_last self1 = a) \<and> (ds \<noteq> [] \<longrightarrow> cl_last self1 = cl_last self) \<and>
    cl_size self1 + length us = cl_size self"
proof -
  let ?m0 = "Chunk_set_allocated m a 0" and ?c0 = "c\<lparr>cell_allocated := False\<rparr>"
  have c1: "cell_at m a c" "Chunk_next m a = (if us @ ds = [] then 0 else a + cell_total c)"
    and seg1: "chunk_seg m (a + cell_total c) (us @ ds) 0"
    using seg by (auto simp del: append_is_Nil_conv)
  have mk: "\<not> Chunk_isMarked m a" using c1 c by (simp add: cell_at_def)
  have frame0: "same_bytes m ?m0 0 a" "same_bytes m ?m0 (a + 24) (2 ^ 64)"
    unfolding Chunk_set_allocated_def by (auto intro!: same_bytes_store)
  have tot0: "cell_total ?c0 = cell_total c" "16 \<le> cell_size c" using cell_at_size [OF c1(1)] by (auto simp: cell_total_def)
  have c0: "cell_at ?m0 a ?c0" "Chunk_next ?m0 a = Chunk_next m a"
    using c1(1) by (simp_all add: cell_at_def chunk_defs load_store_same load_store_other)
  have seg0: "chunk_seg ?m0 (a + cell_total c) (us @ ds) 0"
    by (rule chunk_seg_cong [OF _ seg1], rule same_bytes_sub [OF frame0(2)]) (use a(2) tot0 in \<open>auto simp: cell_total_def\<close>)
  then have seg0': "chunk_seg ?m0 a (?c0 # us @ ds) 0" using c0 c1(2) tot0 by simp
  have tw: "takeWhile unmarked (us @ ds) = us" "dropWhile unmarked (us @ ds) = ds"
    using un stop by (cases ds; auto simp: takeWhile_append2 dropWhile_append2)+
  have scan: "sweep_scan ?m0 (Chunk_next ?m0 a) 0 = ret (limit, length us)"
    using sweep_scan_cells [OF seg0, of 0] a c1(2) c0(2) sz by (auto simp: tw limit_def)
  have bound: "a + extent (?c0 # us @ ds) < 2 ^ 64" and free: "\<not> cell_allocated ?c0"
    and len: "length us \<le> cl_size self" and sc: "swept_cell ?c0 us = swept_cell c us"
    using a sz tot0 by (auto simp: swept_cell_def)
  have "cl_last self = a + extent (butlast (?c0 # us @ ds))" "cell_total (last (?c0 # us @ ds)) < 2 ^ 31"
    using lst tot0 by (auto simp: butlast_append)
  from sweep_run_step [OF seg0' a(1) bound this refl len sz(2) free, unfolded tot0(1) sc, folded limit_def]
  obtain self1 m1 where m1: "(if limit \<noteq> Chunk_next ?m0 a then ChunkList_merge self ?m0 a limit (length us) else ret (self, ?m0))
        = ret (self1, m1)" "cell_at m1 a (swept_cell c us)" "Chunk_next m1 a = limit"
        "same_bytes ?m0 m1 0 a" "same_bytes ?m0 m1 (a + 24) (2 ^ 64)" "cl_first self1 = cl_first self"
        "ds = [] \<longrightarrow> cl_last self1 = a" "ds \<noteq> [] \<longrightarrow> cl_last self1 = cl_last self"
        "cl_size self1 + length us = cl_size self" by blast
  note frame1 = same_bytes_trans [OF frame0(1) m1(4)] same_bytes_trans [OF frame0(2) m1(5)]
  have "sweep_from self m a = sweep_from self1 m1 limit"
    using mk a(1) scan m1(1) by (simp add: sweep_from.simps [of self m a] Let_def del: if_split)
  then show ?thesis using m1 frame1 by blast
qed

lemma sweep_from_cells:
  assumes "chunk_seg m a cs 0" and "a \<noteq> 0" and "a + extent cs < 2 ^ 64"
    and "cs \<noteq> [] \<longrightarrow> cl_last self = a + extent (butlast cs) \<and> cell_total (last cs) < 2 ^ 31"
    and "length cs \<le> cl_size self" and "cl_size self < 2 ^ 64"
  shows "\<exists>self' m'. sweep_from self m (if cs = [] then 0 else a) = ret (self', m') \<and> swept m m' self self' a cs"
  using assms
proof (induction cs arbitrary: m a self rule: sweep_cells.induct)
  case 1
  then show ?case by (simp add: sweep_from.simps swept_def)
next
  case (2 c cs)
  have c: "cell_at m a c" "Chunk_next m a = (if cs = [] then 0 else a + cell_total c)"
    and seg: "chunk_seg m (a + cell_total c) cs 0"
    using "2.prems"(1) by auto
  show ?case
  proof (cases "cell_marked c")
    case True
    have "\<exists>self' m'. sweep_from self m (if cs = [] then 0 else a + cell_total c) = ret (self', m') \<and>
        swept m m' self self' (a + cell_total c) cs"
      by (rule "2.IH"(1)) (use True seg "2.prems" in \<open>auto simp: add.assoc\<close>)
    then obtain self' m' where r: "sweep_from self m (Chunk_next m a) = ret (self', m')"
        "swept m m' self self' (a + cell_total c) cs"
      using c(2) by auto
    have "swept m m' self self' a (c # cs)"
      by (rule swept_marked [OF c(1) True c(2) r(2)]) (use "2.prems" in auto)
    moreover have "Chunk_isMarked m a" using c(1) True by (simp add: cell_at_def)
    ultimately show ?thesis using r(1) "2.prems"(2) by (auto simp: sweep_from.simps [of self m a])
  next
    case False
    define us where "us = takeWhile unmarked cs"
    define ds where "ds = dropWhile unmarked cs"
    have cs: "cs = us @ ds" by (simp add: us_def ds_def)
    have un: "\<forall>u \<in> set us. unmarked u" by (auto simp: us_def dest: set_takeWhileD)
    have stop: "ds = [] \<or> cell_marked (hd ds)" using hd_dropWhile [of unmarked cs] by (auto simp: ds_def)
    let ?d = "a + cell_total c + extent us"
    let ?limit = "if ds = [] then 0 else ?d"
    obtain self1 m1 where m1: "sweep_from self m a = sweep_from self1 m1 ?limit" "cell_at m1 a (swept_cell c us)"
      "Chunk_next m1 a = ?limit" "same_bytes m m1 0 a" "same_bytes m m1 (a + 24) (2 ^ 64)" "cl_first self1 = cl_first self"
      "ds = [] \<Longrightarrow> cl_last self1 = a" "ds \<noteq> [] \<Longrightarrow> cl_last self1 = cl_last self" "cl_size self1 + length us = cl_size self"
      using sweep_from_run [OF "2.prems"(1,2,3) [unfolded cs] False un stop, of self] "2.prems"(4,5,6) cs by auto
    have "chunk_seg m1 ?d ds 0"
    proof (rule chunk_seg_cong)
      show "chunk_seg m ?d ds 0" using seg by (simp add: cs chunk_seg_append)
      show "same_bytes m m1 ?d (?d + extent ds)"
        by (rule same_bytes_sub [OF m1(5)])
          (use "2.prems"(3) cell_at_size [OF c(1)] cs in \<open>auto simp: cell_total_def\<close>)
    qed
    then have "\<exists>self' m'. sweep_from self1 m1 ?limit = ret (self', m') \<and> swept m1 m' self1 self' ?d ds"
    proof (rule "2.IH"(2) [OF False, folded ds_def])
      show "ds \<noteq> [] \<longrightarrow> cl_last self1 = ?d + extent (butlast ds) \<and> cell_total (last ds) < 2 ^ 31"
        using "2.prems"(4) m1(8) cs by (auto simp: butlast_append add.assoc)
    qed (use "2.prems"(2,3,5,6) m1(9) cs in \<open>auto simp: add.assoc\<close>)
    then obtain self' m' where r: "sweep_from self1 m1 ?limit = ret (self', m')" "swept m1 m' self1 self' ?d ds" by blast
    have "swept m m' self self' a (c # us @ ds)"
      by (rule swept_run [OF _ False un stop m1(2-5) _ m1(6,7,9) r(2)]) (use "2.prems" cs in auto)
    with m1(1) r(1) cs show ?thesis by auto
  qed
qed

lemma ChunkList_sweep_cells:
  assumes l: "chunk_list m self start cs" and small: "cell_total (last cs) < 2 ^ 31"
  shows "\<exists>self' m'. ChunkList_sweep self m = ret (self', m') \<and> chunk_list m' self' start (sweep_cells cs) \<and>
    same_bytes m m' 0 start \<and> same_bytes m m' (start + extent cs) (2 ^ 64) \<and> marked_kept m m' start cs"
proof -
  have ne: "cs \<noteq> []" and seg: "chunk_seg m start cs 0" and s: "start \<noteq> 0" "start + extent cs < 2 ^ 64"
    "cl_first self = start" "cl_last self = start + extent (butlast cs)" "cl_size self = length cs"
    using l by (auto simp: chunk_list_def)
  have "length cs < 2 ^ 64" using chunk_seg_extent [OF seg] s(2) by simp
  with sweep_from_cells [OF seg s(1,2), of self] ne s small
  obtain self' m' where "sweep_from self m start = ret (self', m')" "swept m m' self self' start cs" by auto
  then show ?thesis
    using s ne by (auto simp: ChunkList_sweep_def chunk_list_def swept_def extent_sweep)
qed

section \<open>What a sweep leaves\<close>

primrec placed :: "addr \<Rightarrow> cell list \<Rightarrow> (addr \<times> cell) list" where
  "placed a [] = []"
| "placed a (c # cs) = (a, c) # placed (a + cell_total c) cs"

lemma placed_append: "placed a (xs @ ys) = placed a xs @ placed (a + extent xs) ys"
  by (induction xs arbitrary: a) (auto simp: add.assoc)

lemma placed_in_split: "(b, c) \<in> set (placed a cs) \<longleftrightarrow> (\<exists>xs ys. cs = xs @ c # ys \<and> b = a + extent xs)"
proof (induction cs arbitrary: a)
  case (Cons d ds)
  show ?case
  proof
    assume "(b, c) \<in> set (placed a (d # ds))"
    then consider "b = a" "c = d" | "(b, c) \<in> set (placed (a + cell_total d) ds)" by auto
    then show "\<exists>xs ys. d # ds = xs @ c # ys \<and> b = a + extent xs"
    proof cases
      case 1
      then show ?thesis by (intro exI [of _ "[]"] exI [of _ ds]) simp
    next
      case 2
      then obtain xs ys where "ds = xs @ c # ys" "b = a + cell_total d + extent xs" using Cons.IH by blast
      then show ?thesis by (intro exI [of _ "d # xs"] exI [of _ ys]) (simp add: add.assoc)
    qed
  next
    assume "\<exists>xs ys. d # ds = xs @ c # ys \<and> b = a + extent xs"
    then obtain xs ys where "d # ds = xs @ c # ys" "b = a + extent xs" by blast
    then have "(b, c) \<in> set (placed a (xs @ c # ys))" by (simp add: placed_append)
    with \<open>d # ds = xs @ c # ys\<close> show "(b, c) \<in> set (placed a (d # ds))" by simp
  qed
qed simp

text \<open>The marked cells stay where they are, and they are all that stays allocated.\<close>

lemma sweep_marked:
  "filter (\<lambda>(b, c). cell_marked c) (placed a (sweep_cells cs)) = filter (\<lambda>(b, c). cell_marked c) (placed a cs)"
proof (induction cs arbitrary: a rule: sweep_cells.induct)
  case (2 c cs)
  show ?case
  proof (cases "cell_marked c")
    case True
    with 2 show ?thesis by simp
  next
    case False
    have un: "filter (\<lambda>(b, c). cell_marked c) (placed b (takeWhile unmarked cs)) = []" for b
      by (auto simp: filter_empty_conv placed_in_split dest: set_takeWhileD)
        (metis in_set_conv_decomp set_takeWhileD)
    have "filter (\<lambda>(b, c). cell_marked c) (placed (a + cell_total c) cs) =
      filter (\<lambda>(b, c). cell_marked c) (placed (a + cell_total c) (takeWhile unmarked cs @ dropWhile unmarked cs))"
      by simp
    also have "\<dots> = filter (\<lambda>(b, c). cell_marked c) (placed (a + cell_total c + extent (takeWhile unmarked cs)) (dropWhile unmarked cs))"
      by (simp only: placed_append filter_append un append_Nil)
    finally show ?thesis
      using "2.IH"(2) [OF False] False by (simp add: cell_total_def add.assoc)
  qed
qed simp

lemma sweep_unmarked_free: "c \<in> set (sweep_cells cs) \<Longrightarrow> unmarked c \<Longrightarrow> \<not> cell_allocated c"
  by (induction cs rule: sweep_cells.induct) (auto split: if_splits)

lemma sweep_hd_marked: "cs \<noteq> [] \<Longrightarrow> cell_marked (hd (sweep_cells cs)) = cell_marked (hd cs)"
  by (cases cs) auto

text \<open>Two free cells never lie side by side after a sweep.\<close>

lemma sweep_separated: "successively (\<lambda>c d. cell_marked c \<or> cell_marked d) (sweep_cells cs)"
proof (induction cs rule: sweep_cells.induct)
  case (2 c cs)
  have "cell_marked (hd (dropWhile unmarked cs))" if "dropWhile unmarked cs \<noteq> []"
    using hd_dropWhile [OF that] by simp
  with 2 sweep_hd_marked [of "dropWhile unmarked cs"] show ?case
    by (auto simp: successively_Cons)
qed simp

lemma sweep_separated_id:
  "successively (\<lambda>c d. cell_marked c \<or> cell_marked d) cs \<Longrightarrow> (\<forall>c \<in> set cs. unmarked c \<longrightarrow> \<not> cell_allocated c) \<Longrightarrow>
   sweep_cells cs = cs"
proof (induction cs rule: sweep_cells.induct)
  case (2 c cs)
  show ?case
  proof (cases "cell_marked c")
    case True
    with 2 show ?thesis by (auto simp: successively_Cons)
  next
    case False
    then have "takeWhile unmarked cs = []" "dropWhile unmarked cs = cs"
      using "2.prems"(1) by (cases cs; auto)+
    with False "2.prems" "2.IH"(2) show ?thesis by (cases cs) auto
  qed
qed simp

lemma sweep_idem: "sweep_cells (sweep_cells cs) = sweep_cells cs"
  using sweep_separated_id [OF sweep_separated] sweep_unmarked_free by blast

section \<open>The consistency check\<close>

text \<open>What \<open>ChunkList_validate\<close> checks, for any memory: a gapless path from \<open>first\<close> to \<open>last\<close>.\<close>

primrec gapless :: "mem \<Rightarrow> addr list \<Rightarrow> addr \<Rightarrow> bool" where
  "gapless m [] stop \<longleftrightarrow> True"
| "gapless m (a # as) stop \<longleftrightarrow> a + 16 + Chunk_osize m a = (if as = [] then stop else hd as) \<and> gapless m as stop"

definition valid_path :: "ChunkList \<Rightarrow> mem \<Rightarrow> addr \<Rightarrow> addr \<Rightarrow> nat \<Rightarrow> addr list \<Rightarrow> bool" where
  "valid_path self m stop a n as \<longleftrightarrow> lpath (Chunk_next m) a as 0 \<and> as \<noteq> [] \<and> gapless m as stop \<and>
     last as = cl_last self \<and> size_t (n + length as) = cl_size self"

lemma size_t_add_Suc: "size_t (size_add n 1 + k) = size_t (n + Suc k)"
  by (simp add: size_t_def size_add_def mod_simps)

lemmas size_t_add_Suc1 = size_t_add_Suc [simplified]
lemmas size_t_add_Suc2 = size_t_add_Suc [of _ "Suc _", simplified]

lemma valid_path_step:
  assumes "a \<noteq> 0"
  shows "(\<exists>as. valid_path self m stop a n as) \<longleftrightarrow>
    (if Chunk_next m a = 0
     then a + 16 + Chunk_osize m a = stop \<and> a = cl_last self \<and> size_add n 1 = cl_size self
     else a + 16 + Chunk_osize m a = Chunk_next m a \<and> (\<exists>as. valid_path self m stop (Chunk_next m a) (size_add n 1) as))"
    (is "?L \<longleftrightarrow> ?R")
proof
  assume ?L
  then obtain as where v: "valid_path self m stop a n as" by blast
  then obtain as' where as: "as = a # as'" by (cases as) (auto simp: valid_path_def)
  show ?R
  proof (cases as')
    case Nil
    with v as show ?thesis by (auto simp: valid_path_def size_t_def size_add_def)
  next
    case (Cons d ds)
    with v as have "Chunk_next m a = d" "d \<noteq> 0" by (auto simp: valid_path_def)
    moreover have "valid_path self m stop d (size_add n 1) as'"
      using v Cons as by (auto simp: valid_path_def size_t_add_Suc2)
    moreover have "a + 16 + Chunk_osize m a = d" using v Cons as by (auto simp: valid_path_def)
    ultimately show ?thesis by auto
  qed
next
  assume R: ?R
  show ?L
  proof (cases "Chunk_next m a = 0")
    case True
    with R assms show ?thesis
      by (intro exI [of _ "[a]"]) (auto simp: valid_path_def size_t_def size_add_def)
  next
    case False
    with R obtain as where v: "a + 16 + Chunk_osize m a = Chunk_next m a"
      "valid_path self m stop (Chunk_next m a) (size_add n 1) as" by auto
    then have "hd as = Chunk_next m a" by (cases as) (auto simp: valid_path_def)
    with v assms show ?thesis
      by (intro exI [of _ "a # as"]) (auto simp: valid_path_def size_t_add_Suc1)
  qed
qed

lemma validate_from_complete:
  "valid_path self m stop a n as \<Longrightarrow> validate_from self m stop a n = ret ()"
proof (induction as arbitrary: a n)
  case (Cons b bs)
  have b: "b = a" "a \<noteq> 0" using Cons.prems by (auto simp: valid_path_def)
  note step = valid_path_step [OF b(2), of self m stop n]
  show ?case
  proof (cases bs)
    case Nil
    with Cons.prems b have "Chunk_next m a = 0" by (auto simp: valid_path_def)
    with Cons.prems b step show ?thesis by (subst validate_from.simps) (auto simp: Let_def)
  next
    case (Cons d ds)
    have "valid_path self m stop (Chunk_next m a) (size_add n 1) bs" "Chunk_next m a \<noteq> 0"
      using Cons.prems b Cons by (auto simp: valid_path_def size_t_add_Suc2)
    with Cons.IH [of "Chunk_next m a" "size_add n 1"] Cons.prems b step show ?thesis
      by (subst validate_from.simps) (auto simp: Let_def)
  qed
qed (simp add: valid_path_def)

lemma validate_from_sound:
  "validate_from self m stop a n = Some r \<Longrightarrow> r = Inr () \<longrightarrow> a \<noteq> 0 \<longrightarrow> (\<exists>as. valid_path self m stop a n as)"
proof (erule validate_from.raw_induct [where P = "\<lambda>self m stop a n r. r = Inr () \<longrightarrow> a \<noteq> 0 \<longrightarrow>
    (\<exists>as. valid_path self m stop a n as)", rotated])
  fix validate and self :: ChunkList and m stop a n and r :: "failure + unit"
  assume IH: "\<And>self m stop a n r. validate self m stop a n = Some r \<Longrightarrow>
      r = Inr () \<longrightarrow> a \<noteq> 0 \<longrightarrow> (\<exists>as. valid_path self m stop a n as)"
    and body: "(if a = 0 then ret ()
      else let n = size_add n 1; actual = a + CHUNK_HEADER_SIZE + Chunk_osize m a
        in if Chunk_next m a = 0 then
             if actual \<noteq> stop then abort_with ''heap_stop == chunk+header+size''
             else if a \<noteq> cl_last self then abort_with ''chunk == self->last''
             else if n \<noteq> cl_size self then abort_with ''count == self->size''
             else ret ()
           else if actual \<noteq> Chunk_next m a then abort_with ''chunk->next == chunk+header+size''
           else validate self m stop (Chunk_next m a) n) = Some r"
  show "r = Inr () \<longrightarrow> a \<noteq> 0 \<longrightarrow> (\<exists>as. valid_path self m stop a n as)"
  proof (intro impI)
    assume r: "r = Inr ()" and a: "a \<noteq> 0"
    show "\<exists>as. valid_path self m stop a n as"
    proof (cases "Chunk_next m a = 0")
      case True
      with body r a valid_path_step [OF a, of self m stop n] show ?thesis
        by (auto simp: Let_def abort_with_def split: if_splits)
    next
      case False
      then have "validate self m stop (Chunk_next m a) (size_add n 1) = Some r" "a + 16 + Chunk_osize m a = Chunk_next m a"
        using body r a by (auto simp: Let_def abort_with_def split: if_splits)
      with IH r False valid_path_step [OF a, of self m stop n] show ?thesis by auto
    qed
  qed
qed

lemma validate_iff:
  "ChunkList_validate self m stop = ret () \<longleftrightarrow> cl_first self = 0 \<or> (\<exists>as. valid_path self m stop (cl_first self) 0 as)"
proof (cases "cl_first self = 0")
  case True
  then show ?thesis by (simp add: ChunkList_validate_def validate_from.simps)
next
  case False
  then show ?thesis
    using validate_from_sound [of self m stop "cl_first self" 0 "Inr ()"] validate_from_complete
    by (auto simp: ChunkList_validate_def ret_def)
qed

lemma placed_path: "chunk_seg m a cs 0 \<Longrightarrow> a \<noteq> 0 \<Longrightarrow>
  lpath (Chunk_next m) (if cs = [] then 0 else a) (map fst (placed a cs)) 0 \<and> gapless m (map fst (placed a cs)) (a + extent cs)"
proof (induction cs arbitrary: a)
  case (Cons c cs)
  have "hd (map fst (placed (a + cell_total c) cs)) = a + cell_total c" if "cs \<noteq> []"
    using that by (cases cs) auto
  moreover have "placed b cs = [] \<longleftrightarrow> cs = []" for b by (cases cs) auto
  ultimately show ?case
    using Cons.IH [of "a + cell_total c"] Cons.prems by (auto simp: add.assoc cell_at_def cell_total_def)
qed simp

lemma placed_last: "cs \<noteq> [] \<Longrightarrow> last (map fst (placed a cs)) = a + extent (butlast cs)"
proof (induction cs arbitrary: a)
  case (Cons c cs)
  moreover have "placed b cs = [] \<longleftrightarrow> cs = []" for b by (cases cs) auto
  ultimately show ?case by (auto simp: add.assoc)
qed simp

lemma length_placed [simp]: "length (placed a cs) = length cs"
  by (induction cs arbitrary: a) auto

text \<open>A list that stands for cells passes the check.\<close>

lemma validate_cells:
  assumes "chunk_list m self start cs"
  shows "ChunkList_validate self m (start + extent cs) = ret ()"
proof -
  have "length cs < 2 ^ 64" using assms chunk_seg_extent [of m start cs 0] by (auto simp: chunk_list_def)
  moreover have "placed start cs \<noteq> []" using assms by (cases cs) (auto simp: chunk_list_def)
  ultimately have "valid_path self m (start + extent cs) start 0 (map fst (placed start cs))"
    using assms placed_path [of m start cs] placed_last [of cs start]
    by (auto simp: valid_path_def chunk_list_def)
  then show ?thesis using assms by (auto simp: validate_iff chunk_list_def)
qed

section \<open>Chunks of two gigabytes and more\<close>

text \<open>
  \<open>Chunk_size\<close> returns an \<open>int\<close>. When the last chunk has \<open>2 ^ 31\<close> bytes or more and is swept together with
  the chunk before it, the merged size is wrong: the sweep fails its assertion or leaves a list that does
  not reach the end of the heap.
\<close>

lemma c_int_wrap: "2 ^ 31 \<le> n \<Longrightarrow> n < 2 ^ 32 \<Longrightarrow> c_int n = n - 2 ^ 32"
  by (simp add: c_int_def mod_pos_geq)

lemma limit_wrap:
  assumes "cell_at m b d" and "2 ^ 31 \<le> cell_total d" and "cell_total d < 2 ^ 32"
    and "cl_last self = b" and "b \<noteq> 0" and "b < 2 ^ 64"
  shows "ChunkList_limit self m = nat ((int b + int (cell_total d) - 2 ^ 32) mod 2 ^ 64)"
proof -
  have "size_add (Chunk_osize m b) CHUNK_HEADER_SIZE = cell_total d"
    using assms(1,3) by (simp add: cell_at_def cell_total_def)
  then have "Chunk_size m b = int (cell_total d) - 2 ^ 32"
    using assms(2,3) by (simp only: Chunk_size_def) (rule c_int_wrap; simp)
  then have "int b + Chunk_size m b = int b + int (cell_total d) - 2 ^ 32" by simp
  then show ?thesis using assms(4,5) by (simp only: ChunkList_limit_def if_False)
qed

lemma int_size_sub: "y < 2 ^ 64 \<Longrightarrow> int (size_sub x y) = (int x - int y) mod 2 ^ 64"
proof -
  assume "y < 2 ^ 64"
  then have "int (x + 2 ^ 64 - y) = (int x - int y) + 2 ^ 64" by simp
  then have "int (size_sub x y) = ((int x - int y) + 2 ^ 64) mod 2 ^ 64"
    by (simp only: size_sub_def zmod_int of_nat_power of_nat_numeral)
  also have "\<dots> = (int x - int y) mod 2 ^ 64" by (rule mod_add_self2)
  finally show ?thesis .
qed

lemma size_sub_twice:
  assumes "y < 2 ^ 64" and "z < 2 ^ 64" and "int x = n mod 2 ^ 64"
  shows "int (size_sub (size_sub x y) z) = (n - int y - int z) mod 2 ^ 64"
  using int_size_sub [OF assms(1), of x] int_size_sub [OF assms(2), of "size_sub x y"]
  unfolding assms(3) by (simp only: mod_diff_left_eq)

lemma merge_wrap:
  assumes "a < 2 ^ 64" and "16 \<le> s" and l: "int l = (int (a + s) + int t - 2 ^ 32) mod 2 ^ 64"
  shows "size_sub (size_sub l a) 16 \<noteq> s + t - 16"
proof
  assume eq: "size_sub (size_sub l a) 16 = s + t - 16"
  have "int (size_sub (size_sub l a) 16) = (int (a + s) + int t - 2 ^ 32 - int a - int 16) mod 2 ^ 64"
    by (rule size_sub_twice [OF assms(1) _ l]) simp
  moreover have "int (s + t - 16) = int s + int t - 16" using assms(2) by simp
  moreover have "int s + int t - 16 = (int (a + s) + int t - 2 ^ 32 - int a - int 16) + 2 ^ 32" by simp
  ultimately have "((int (a + s) + int t - 2 ^ 32 - int a - int 16) + 2 ^ 32) mod 2 ^ 64 =
      (int (a + s) + int t - 2 ^ 32 - int a - int 16) mod 2 ^ 64"
    unfolding eq by (metis mod_mod_trivial)
  then have "(2 :: int) ^ 64 dvd 2 ^ 32" by (metis add_diff_cancel_left' mod_eq_dvd_iff)
  then show False by (auto dest: zdvd_imp_le)
qed

lemma sweep_big_last:
  assumes l: "chunk_list m self start [c, d]" and un: "unmarked c" "unmarked d"
    and big: "2 ^ 31 \<le> cell_total d" "cell_total d < 2 ^ 32"
    and sw: "ChunkList_sweep self m = ret (self', m')"
  shows "ChunkList_validate self' m' (start + extent [c, d]) \<noteq> ret ()"
proof
  assume v: "ChunkList_validate self' m' (start + extent [c, d]) = ret ()"
  let ?m0 = "Chunk_set_allocated m start 0" and ?b = "start + cell_total c"
  have s: "start \<noteq> 0" "start + cell_total c + cell_total d < 2 ^ 64" "cl_first self = start" "cl_last self = ?b"
    and c: "cell_at m start c" "Chunk_next m start = ?b" and seg: "chunk_seg m ?b [d] 0"
    using l by (auto simp: chunk_list_def add.assoc)
  have tc: "32 \<le> cell_total c" using cell_at_size [OF c(1)] by (simp add: cell_total_def)
  have fr: "same_bytes m ?m0 ?b (?b + extent [d])"
    unfolding Chunk_set_allocated_def by (rule same_bytes_store) (use tc in simp)
  have seg0: "chunk_seg ?m0 ?b [d] 0" by (rule chunk_seg_cong [OF fr seg])
  have nx: "Chunk_next ?m0 start = ?b" using c(2) by (simp add: chunk_defs load_store_other)
  have mk: "\<not> Chunk_isMarked m start" using c(1) un(1) by (simp add: cell_at_def)
  have scan: "sweep_scan ?m0 ?b 0 = ret (0, 1)"
    using sweep_scan_cells [OF seg0, of 0] s un(2) by simp
  let ?sz = "size_sub (size_sub (ChunkList_limit self ?m0) start) CHUNK_HEADER_SIZE"
  have lim: "ChunkList_limit self ?m0 = nat ((int ?b + int (cell_total d) - 2 ^ 32) mod 2 ^ 64)"
    by (rule limit_wrap [OF _ big s(4)]) (use seg0 s in auto)
  have wrong: "?sz \<noteq> cell_total c + cell_total d - 16"
    using merge_wrap [of start "cell_total c" "ChunkList_limit self ?m0" "cell_total d"] s(2) tc by (simp add: lim)
  define m2 where "m2 = Chunk_set_osize (Chunk_set_next ?m0 start 0) start ?sz"
  have body: "ChunkList_sweep self m = pbind (ChunkList_merge self ?m0 start 0 1) (\<lambda>(self, m). sweep_from self m 0)"
    using scan nx mk s by (simp add: ChunkList_sweep_def sweep_from.simps [of self m start] Let_def)
  have "m' = m2 \<and> cl_first self' = start"
    using sw s(3) unfolding body
    by (auto simp: sweep_from.simps [of _ _ 0] Let_def ChunkList_merge_def pbind_eq_ret guard_eq_ret m2_def)
  moreover have nx2: "Chunk_next m2 start = 0" and sz2: "Chunk_osize m2 start = ?sz"
    using size_bounds(3) by (simp_all add: m2_def chunk_defs load_store_same load_store_other)
  ultimately have "\<exists>as. valid_path self' m2 (start + extent [c, d]) start 0 as"
    using v s(1) by (simp add: validate_iff)
  then have "start + 16 + Chunk_osize m2 start = start + extent [c, d]"
    using valid_path_step [OF s(1), of self' m2 "start + extent [c, d]" 0] nx2 by presburger
  with wrong tc sz2 show False by simp
qed

section \<open>Heaps that hold given cells\<close>

lemma cells_exist:
  "\<lbrakk>\<forall>c \<in> set cs. 16 \<le> cell_size c \<and> cell_atomic c < 256; a \<noteq> 0; a + extent cs < 2 ^ 64\<rbrakk>
   \<Longrightarrow> \<exists>m. chunk_seg m a cs 0"
proof (induction cs arbitrary: a)
  case (Cons c cs)
  have sz: "16 \<le> cell_size c" "cell_atomic c < 256" "cell_size c < 2 ^ 64" "a + cell_total c < 2 ^ 64"
    using Cons.prems by (auto simp: cell_total_def)
  obtain m where m: "chunk_seg m (a + cell_total c) cs 0"
    using Cons.IH [of "a + cell_total c"] Cons.prems by (auto simp: add.assoc)
  let ?m1 = "Chunk_set_osize (Chunk_set_next m a (if cs = [] then 0 else a + cell_total c)) a (cell_size c)"
  let ?m2 = "Chunk_set_allocated ?m1 a (if cell_allocated c then 1 else 0)"
  let ?m3 = "store 1 (store 1 ?m2 (Chunk_object a + 8) (if cell_marked c then 1 else 0)) (Chunk_object a + 9) (cell_atomic c)"
  have "same_bytes m ?m3 lo hi" if "a + 32 \<le> lo" for lo hi
    unfolding chunk_defs using that
    by (auto intro!: same_bytes_trans [OF same_bytes_store same_bytes_trans [OF same_bytes_store
          same_bytes_trans [OF same_bytes_store same_bytes_trans [OF same_bytes_store same_bytes_store]]]])
  then have "chunk_seg ?m3 (a + cell_total c) cs 0"
    by (rule chunk_seg_cong [OF _ m]) (use sz in \<open>simp add: cell_total_def\<close>)
  moreover have "cell_at ?m3 a c" "Chunk_next ?m3 a = (if cs = [] then 0 else a + cell_total c)"
    using sz by (auto simp: cell_at_def chunk_defs load_store_same load_store_other)
  ultimately show ?case by auto
qed simp

lemma chunk_list_exists:
  assumes "\<forall>c \<in> set cs. 16 \<le> cell_size c \<and> cell_atomic c < 256" and "a \<noteq> 0" and "a + extent cs < 2 ^ 64" and "cs \<noteq> []"
  shows "\<exists>m self. chunk_list m self a cs"
proof -
  obtain m where "chunk_seg m a cs 0" using cells_exist [OF assms(1-3)] by blast
  then have "chunk_list m \<lparr>cl_first = a, cl_last = a + extent (butlast cs), cl_size = length cs\<rparr> a cs"
    using assms by (simp add: chunk_list_def)
  then show ?thesis by blast
qed

definition used_cell :: "bool \<Rightarrow> nat \<Rightarrow> cell" where
  "used_cell b n = \<lparr>cell_allocated = True, cell_atomic = 0, cell_marked = b, cell_size = n\<rparr>"

definition sample_cells :: "cell list" where
  "sample_cells = [used_cell True 10000, used_cell False 9000, free_cell 48, used_cell True 8208, used_cell False 20000]"

lemma sample_heap: "\<exists>m self. chunk_list m self 65536 sample_cells"
  by (rule chunk_list_exists) (simp_all add: sample_cells_def used_cell_def free_cell_def cell_total_def)

section \<open>Properties\<close>

text \<open>
  C8. Sweeping the large object space returns and leaves, linked in memory, exactly the swept cells: each run of
  unmarked chunks is one free chunk, no two free chunks are neighbours, every marked chunk is still at its
  address, with every byte of its object (header and payload) unchanged, nothing unmarked stays allocated, and the
  chunks still fill the heap. (The last chunk is below 2 GB.)
\<close>

theorem chunk_sweep_refines:
  assumes "chunk_list m self start cs" and "cell_total (last cs) < 2 ^ 31"
  shows "\<exists>self' m'. ChunkList_sweep self m = ret (self', m') \<and> chunk_list m' self' start (sweep_cells cs) \<and>
    extent (sweep_cells cs) = extent cs \<and>
    filter (\<lambda>(b, c). cell_marked c) (placed start (sweep_cells cs)) = filter (\<lambda>(b, c). cell_marked c) (placed start cs) \<and>
    (\<forall>(b, c) \<in> set (placed start cs). cell_marked c \<longrightarrow> same_bytes m m' (b + 16) (b + cell_total c)) \<and>
    (\<forall>c \<in> set (sweep_cells cs). cell_marked c \<or> \<not> cell_allocated c) \<and>
    successively (\<lambda>c d. cell_marked c \<or> cell_marked d) (sweep_cells cs)"
proof -
  have "marked_kept m m' a cs \<longleftrightarrow> (\<forall>(b, c) \<in> set (placed a cs). cell_marked c \<longrightarrow> same_bytes m m' (b + 16) (b + cell_total c))"
    for m' a by (induction cs arbitrary: a) auto
  with ChunkList_sweep_cells [OF assms] show ?thesis
    using sweep_marked [of start cs] sweep_unmarked_free [of _ cs] sweep_separated [of cs] extent_sweep [of cs] by blast
qed

theorem chunk_sweep_refines_witness:
  "\<exists>m self self' m'. chunk_list m self 65536 sample_cells \<and> ChunkList_sweep self m = ret (self', m') \<and>
     chunk_list m' self' 65536 [used_cell True 10000, free_cell 9064, used_cell True 8208, free_cell 20000]"
proof -
  obtain m self where l: "chunk_list m self 65536 sample_cells" using sample_heap by blast
  have "sweep_cells sample_cells = [used_cell True 10000, free_cell 9064, used_cell True 8208, free_cell 20000]"
    by (simp add: sample_cells_def used_cell_def free_cell_def cell_total_def)
  moreover have "cell_total (last sample_cells) < 2 ^ 31" by (simp add: sample_cells_def used_cell_def cell_total_def)
  ultimately show ?thesis using chunk_sweep_refines [OF l] l by (metis (no_types, lifting))
qed

text \<open>
  C10. Splitting a chunk of the list: when at least 64 bytes would remain, the chunk gets exactly the requested size
  and a free chunk with the rest follows it in the list, otherwise nothing changes; both assertions hold, and no
  byte outside the chunk is written.
\<close>

theorem chunk_split_refines:
  assumes "chunk_list m self start (xs @ c # ys)" and "16 \<le> n" and "n \<le> cell_size c"
  shows "\<exists>self' m' r. ChunkList_split self m (start + extent xs) n = ret (self', m', r) \<and>
    chunk_list m' self' start (xs @ split_cell c n @ ys) \<and>
    same_bytes m m' 0 (start + extent xs) \<and> same_bytes m m' (start + extent xs + cell_total c) (2 ^ 64)"
  by (rule ChunkList_split_cells [OF assms])

theorem chunk_split_refines_witness:
  "\<exists>m self self' m' r. ChunkList_split self m 65536 9000 = ret (self', m', r) \<and>
     chunk_list m' self' 65536 [used_cell False 9000, free_cell 984, free_cell 48]"
proof -
  obtain m self where l: "chunk_list m self 65536 ([] @ used_cell False 10000 # [free_cell 48])"
    using chunk_list_exists [of "[used_cell False 10000, free_cell 48]" 65536]
    by (auto simp: used_cell_def free_cell_def cell_total_def)
  have "split_cell (used_cell False 10000) 9000 = [used_cell False 9000, free_cell 984]"
    by (simp add: split_cell_def used_cell_def)
  moreover have "\<exists>self' m' r. ChunkList_split self m 65536 9000 = ret (self', m', r) \<and>
      chunk_list m' self' 65536 (split_cell (used_cell False 10000) 9000 @ [free_cell 48])"
    using chunk_split_refines [OF l, of 9000] by (auto simp: used_cell_def)
  ultimately show ?thesis by (simp only: append_Cons append_Nil) blast
qed

text \<open>
  C11. Looking up a pointer returns the chunk whose payload it points into, also for a pointer into its middle, and
  \<open>NULL\<close> exactly when no chunk has it (a pointer into a chunk or object header is in none).
\<close>

theorem chunk_find_correct:
  assumes "chunk_list m self start cs"
  shows "\<exists>r. ChunkList_find self m p = ret r \<and>
    (r \<noteq> 0 \<longrightarrow> (\<exists>c. (r, c) \<in> set (placed start cs) \<and> r + 32 \<le> p \<and> p < r + cell_total c)) \<and>
    (\<forall>(b, c) \<in> set (placed start cs). b + 32 \<le> p \<and> p < b + cell_total c \<longrightarrow> r = b)"
proof -
  let ?r = "find_cell p start cs"
  have "ChunkList_find self m p = ret ?r" by (rule ChunkList_find_cells [OF assms])
  moreover have "\<exists>c. (?r, c) \<in> set (placed start cs) \<and> ?r + 32 \<le> p \<and> p < ?r + cell_total c" if "?r \<noteq> 0"
    using find_cell_found [OF refl that] unfolding placed_in_split by blast
  moreover have "\<forall>(b, c) \<in> set (placed start cs). b + 32 \<le> p \<and> p < b + cell_total c \<longrightarrow> ?r = b"
    using find_cell_inside by (auto simp: placed_in_split)
  ultimately show ?thesis by blast
qed

theorem chunk_find_correct_witness:
  "\<exists>m self. chunk_list m self 65536 sample_cells \<and> ChunkList_find self m 80000 = ret 75552"
proof -
  obtain m self where l: "chunk_list m self 65536 sample_cells" using sample_heap by blast
  have "(75552, used_cell False 9000) \<in> set (placed 65536 sample_cells)"
    by (simp add: sample_cells_def used_cell_def free_cell_def cell_total_def)
  with chunk_find_correct [OF l, of 80000] l show ?thesis by (fastforce simp: used_cell_def cell_total_def)
qed

text \<open>
  C13. \<open>ChunkList_validate\<close> returns normally exactly when the list is empty or its links form a path to \<open>NULL\<close> in which
  every chunk ends where the next one begins, the last one at the end of the heap, with \<open>last\<close> and \<open>size\<close> right. The
  memory is arbitrary, so that this also says that the check ends on every such path and aborts on no other.
\<close>

theorem chunk_validate_iff:
  "ChunkList_validate self m stop = ret () \<longleftrightarrow>
     cl_first self = 0 \<or>
     (\<exists>as. lpath (Chunk_next m) (cl_first self) as 0 \<and> as \<noteq> [] \<and> gapless m as stop \<and>
        last as = cl_last self \<and> size_t (length as) = cl_size self)"
  by (simp add: validate_iff valid_path_def)



end
