(* ===== verification/Options.thy ===== *)
theory Options
  imports Prelude
begin

text \<open>
  Runtime options from environment variables (\<open>include/options.h\<close>): a number in decimal, for sizes with an
  optional multiplier. \<open>strtoul\<close> is modelled as the C standard and glibc define it for base 10; the
  environment is a parameter, and so is the value \<open>errno\<close> has before the call, which the code does not reset.
\<close>

section \<open>strtoul\<close>

definition ULONG_MAX :: nat where [simp]: "ULONG_MAX = 2 ^ 64 - 1"
definition ERANGE :: nat where [simp]: "ERANGE = 34"

definition c_isspace :: "char \<Rightarrow> bool" where
  "c_isspace c \<longleftrightarrow> (of_char c :: nat) = 32 \<or> (9 \<le> (of_char c :: nat) \<and> (of_char c :: nat) \<le> 13)"

definition c_isdigit :: "char \<Rightarrow> bool" where
  "c_isdigit c \<longleftrightarrow> 48 \<le> (of_char c :: nat) \<and> (of_char c :: nat) \<le> 57"

definition digit_value :: "char \<Rightarrow> nat" where
  "digit_value c = of_char c - 48"

definition digits_value :: "string \<Rightarrow> nat" where
  "digits_value ds = foldl (\<lambda>n c. 10 * n + digit_value c) 0 ds"

text \<open>The sign, and what follows it.\<close>

fun take_sign :: "string \<Rightarrow> bool \<times> string" where
  "take_sign (CHR ''-'' # s) = (True, s)"
| "take_sign (CHR ''+'' # s) = (False, s)"
| "take_sign s = (False, s)"

text \<open>
  The value, the rest of the string where \<open>endptr\<close> points (the whole string when there is no digit), and
  \<open>errno\<close> afterwards.
\<close>

definition strtoul :: "string \<Rightarrow> nat \<Rightarrow> nat \<times> string \<times> nat" where
  "strtoul str errno =
     (let (negative, s) = take_sign (dropWhile c_isspace str);
          ds = takeWhile c_isdigit s;
          n = digits_value ds
      in if ds = [] then (0, str, errno)
         else if ULONG_MAX < n then (ULONG_MAX, dropWhile c_isdigit s, ERANGE)
         else (if negative then size_sub 0 n else n, dropWhile c_isdigit s, errno))"

section \<open>The options\<close>

type_synonym environment = "string \<Rightarrow> string option"

definition GC_getSizeFromEnvironmentVariable :: "environment \<Rightarrow> nat \<Rightarrow> string \<Rightarrow> nat \<Rightarrow> nat" where
  "GC_getSizeFromEnvironmentVariable getenv errno name default_value =
     (case getenv name of
        None \<Rightarrow> default_value
      | Some str \<Rightarrow>
          (case strtoul str errno of (v, endptr, errno) \<Rightarrow>
             if (errno = ERANGE \<and> (v = ULONG_MAX \<or> v = 0)) \<or> (errno \<noteq> 0 \<and> v = 0) \<or> endptr = str
             then default_value
             else case endptr of
                    [] \<Rightarrow> v
                  | c # _ \<Rightarrow>
                      if c = CHR ''k'' \<or> c = CHR ''K'' then size_mul v 1024
                      else if c = CHR ''m'' \<or> c = CHR ''M'' then size_mul (size_mul v 1024) 1024
                      else if c = CHR ''g'' \<or> c = CHR ''G'' then size_mul (size_mul (size_mul v 1024) 1024) 1024
                      else v))"

definition GC_getIntegerFromEnvironmentVariable :: "environment \<Rightarrow> nat \<Rightarrow> string \<Rightarrow> nat \<Rightarrow> nat" where
  "GC_getIntegerFromEnvironmentVariable getenv errno name default_value =
     (case getenv name of
        None \<Rightarrow> default_value
      | Some str \<Rightarrow>
          (case strtoul str errno of (v, _, errno) \<Rightarrow>
             if (errno = ERANGE \<and> (v = ULONG_MAX \<or> v = 0)) \<or> (errno \<noteq> 0 \<and> v = 0)
             then default_value
             else v))"

definition GC_initialHeapSize :: "environment \<Rightarrow> nat \<Rightarrow> nat" where
  "GC_initialHeapSize getenv errno =
     GC_getSizeFromEnvironmentVariable getenv errno ''GC_INITIAL_HEAP_SIZE'' GC_INITIAL_HEAP_SIZE"

text \<open>\<open>memory_limit\<close> is what \<open>GC_getMemoryLimit\<close> computes from \<open>sysconf\<close>.\<close>

definition GC_maximumHeapSize :: "environment \<Rightarrow> nat \<Rightarrow> nat \<Rightarrow> nat" where
  "GC_maximumHeapSize getenv errno memory_limit =
     GC_getSizeFromEnvironmentVariable getenv errno ''GC_MAXIMUM_HEAP_SIZE'' memory_limit"

definition GC_freeSpaceDivisor :: "environment \<Rightarrow> nat \<Rightarrow> nat" where
  "GC_freeSpaceDivisor getenv errno =
     GC_getIntegerFromEnvironmentVariable getenv errno ''GC_FREE_SPACE_DIVISOR'' GC_FREE_SPACE_DIVISOR"

section \<open>Decimal numbers\<close>

definition digit_char :: "nat \<Rightarrow> char" where
  "digit_char n = char_of (48 + n)"

fun print_decimal :: "nat \<Rightarrow> string" where
  "print_decimal n = (if n < 10 then [digit_char n] else print_decimal (n div 10) @ [digit_char (n mod 10)])"

declare print_decimal.simps [simp del]

lemma digit_char_props: "n < 10 \<Longrightarrow> c_isdigit (digit_char n) \<and> digit_value (digit_char n) = n"
  by (simp add: c_isdigit_def digit_value_def digit_char_def of_char_of)

lemma print_decimal_digits: "print_decimal n \<noteq> [] \<and> (\<forall>c \<in> set (print_decimal n). c_isdigit c)"
proof (induction n rule: print_decimal.induct)
  case (1 n)
  then show ?case by (subst (1 2) print_decimal.simps) (auto simp: digit_char_props)
qed

lemma digits_value_print: "digits_value (print_decimal n) = n"
proof (induction n rule: print_decimal.induct)
  case (1 n)
  show ?case
  proof (cases "n < 10")
    case True
    then show ?thesis by (subst print_decimal.simps) (simp add: digits_value_def digit_char_props)
  next
    case False
    then have "digits_value (print_decimal (n div 10)) = n div 10" by (rule 1)
    with False show ?thesis
      by (subst print_decimal.simps) (simp add: digits_value_def digit_char_props)
  qed
qed

lemma digit_not_space: "c_isdigit c \<Longrightarrow> \<not> c_isspace c"
  by (auto simp: c_isdigit_def c_isspace_def)

lemma digit_not_sign: "c_isdigit c \<Longrightarrow> c \<noteq> CHR ''-'' \<and> c \<noteq> CHR ''+''"
  by (auto simp: c_isdigit_def)

lemma take_sign_digit: "c_isdigit c \<Longrightarrow> take_sign (c # s) = (False, c # s)"
  using digit_not_sign [of c] by (cases "c # s" rule: take_sign.cases) auto

lemma strtoul_print:
  assumes "n < 2 ^ 64" and "rest = [] \<or> \<not> c_isdigit (hd rest)"
  shows "strtoul (print_decimal n @ rest) errno = (n, rest, errno)"
proof -
  let ?d = "print_decimal n"
  obtain c s where d: "?d = c # s" using print_decimal_digits [of n] by (cases ?d) auto
  have c: "c_isdigit c" using print_decimal_digits [of n] d by simp
  have sp: "dropWhile c_isspace (?d @ rest) = ?d @ rest" using digit_not_space [OF c] by (simp add: d)
  have sg: "take_sign (?d @ rest) = (False, ?d @ rest)" using take_sign_digit [OF c] by (simp add: d)
  have "takeWhile c_isdigit rest = []" "dropWhile c_isdigit rest = rest" using assms(2) by (cases rest; auto)+
  then have tw: "takeWhile c_isdigit (?d @ rest) = ?d" "dropWhile c_isdigit (?d @ rest) = rest"
    using print_decimal_digits [of n] by simp_all
  have "?d \<noteq> []" "\<not> ULONG_MAX < n" using print_decimal_digits [of n] assms(1) by auto
  then show ?thesis unfolding strtoul_def sp sg by (simp add: tw digits_value_print Let_def)
qed

lemma print_neq_rest: "print_decimal n @ rest \<noteq> rest"
  using print_decimal_digits [of n] by simp

text \<open>The multiplier a suffix stands for.\<close>

definition suffix_factor :: "string \<Rightarrow> nat" where
  "suffix_factor suffix =
     (case suffix of [] \<Rightarrow> 1 | c # _ \<Rightarrow>
        if c \<in> {CHR ''k'', CHR ''K''} then 1024
        else if c \<in> {CHR ''m'', CHR ''M''} then 1024 ^ 2
        else if c \<in> {CHR ''g'', CHR ''G''} then 1024 ^ 3 else 1)"

lemma size_mul_assoc: "size_mul (size_mul n a) b = size_mul n (a * b)"
  by (simp add: size_mul_def mod_mult_left_eq mult.assoc)

section \<open>Properties\<close>

text \<open>
  C32. A size written in decimal, with any suffix that does not begin with a digit, is read back exactly: the number
  times the multiplier of the suffix (1 for an unknown one), reduced to 64 bits.
\<close>

theorem option_size_roundtrip:
  assumes "getenv name = Some (print_decimal n @ suffix)" and "n < 2 ^ 64"
    and "suffix = [] \<or> \<not> c_isdigit (hd suffix)"
  shows "GC_getSizeFromEnvironmentVariable getenv 0 name def = size_mul n (suffix_factor suffix)"
proof -
  have st: "strtoul (print_decimal n @ suffix) 0 = (n, suffix, 0)" by (rule strtoul_print [OF assms(2,3)])
  have ne: "suffix \<noteq> print_decimal n @ suffix" using print_neq_rest by metis
  have "GC_getSizeFromEnvironmentVariable getenv 0 name def =
      (case suffix of [] \<Rightarrow> n
       | c # _ \<Rightarrow>
           if c = CHR ''k'' \<or> c = CHR ''K'' then size_mul n 1024
           else if c = CHR ''m'' \<or> c = CHR ''M'' then size_mul (size_mul n 1024) 1024
           else if c = CHR ''g'' \<or> c = CHR ''G'' then size_mul (size_mul (size_mul n 1024) 1024) 1024
           else n)"
    by (simp only: GC_getSizeFromEnvironmentVariable_def assms(1) st option.case prod.case ne) simp
  also have "\<dots> = size_mul n (suffix_factor suffix)"
  proof (cases suffix)
    case (Cons c s)
    then show ?thesis using assms(2) by (simp add: suffix_factor_def size_mul_assoc)
  qed (use assms(2) in \<open>simp add: suffix_factor_def\<close>)
  finally show ?thesis .
qed

theorem option_size_roundtrip_witness:
  "GC_initialHeapSize (\<lambda>_. Some ''64m'') 0 = 64 * 1024 * 1024"
proof -
  have p: "print_decimal 64 = ''64''" by (simp add: print_decimal.simps digit_char_def char_of_def bit_0)
  show ?thesis
    using option_size_roundtrip [of "\<lambda>_. Some ''64m''" "''GC_INITIAL_HEAP_SIZE''" 64 "''m''" GC_INITIAL_HEAP_SIZE]
    by (simp add: GC_initialHeapSize_def p suffix_factor_def c_isdigit_def)
qed

end
