(* ===== verification/Global_Allocator.thy ===== *)
theory Global_Allocator
  imports Hash_Table Block_List Chunk_List Options
begin

text \<open>
  The global allocator (\<open>include/global_allocator.h\<close>, \<open>src/global_allocator.c\<close>, \<open>include/memory.h\<close>): it owns both
  heaps, hands out blocks to the local allocators, allocates large objects, grows the heaps within the memory
  limit, and rebuilds the block lists after a collection. This theory translates the code.

  The state is the record \<open>gheap\<close>: the memory, the \<open>GlobalAllocator\<close> struct, the collector's flag that
  \<open>GC_is_collecting\<close> reads and the depth of the recursive global lock. The layers above extend the record.
  \<open>GC_collect\<close> is defined by the program that uses the library; it is the parameter \<open>collect\<close>. What a finalizer
  does when it is called is the parameter \<open>call\<close>.
\<close>

section \<open>Mapping memory\<close>

text \<open>\<open>mapped\<close> is the result of \<open>mmap\<close>, \<open>None\<close> for \<open>MAP_FAILED\<close>.\<close>

definition GC_map :: "addr option \<Rightarrow> addr prog" where
  "GC_map mapped = (case mapped of None \<Rightarrow> abort_with ''GC: mmap error'' | Some a \<Rightarrow> ret a)"

definition GC_mapAndAlign :: "addr option \<Rightarrow> nat \<Rightarrow> addr prog" where
  "GC_mapAndAlign mapped alignment_size =
     pbind (GC_map mapped) (\<lambda>start.
       let alignment_mask = NOT (of_nat alignment_size - 1 :: 64 word)
       in if unat (of_nat start AND alignment_mask) \<noteq> start
          then let previous_block = unat (of_nat start AND BLOCK_SIZE_IN_BYTES_INVERSE_MASK)
               in ret (previous_block + BLOCK_SIZE)
          else ret start)"

text \<open>The product of two \<open>sysconf\<close> values; it is the parameter \<open>phys\<close> of what asks for it.\<close>

definition GC_getMemoryLimit :: "nat \<Rightarrow> nat \<Rightarrow> nat" where
  "GC_getMemoryLimit phys_pages page_size = size_mul phys_pages page_size"

section \<open>State\<close>

record GlobalAllocator =
  small_heap_size :: nat
  small_heap_start :: addr
  small_heap_stop :: addr
  free_list :: BlockList
  recyclable_list :: BlockList
  large_heap_size :: nat
  large_heap_start :: addr
  large_heap_stop :: addr
  large_chunk_list :: ChunkList
  finalizers :: Hash
  memory_limit :: nat
  free_space_divisor :: nat
  allocated_bytes_since_collect :: nat
  total_allocated_bytes :: nat

record gheap =
  heap :: mem
  global :: GlobalAllocator
  is_collecting :: bool
  lock_depth :: nat

definition upd_global :: "(GlobalAllocator \<Rightarrow> GlobalAllocator) \<Rightarrow> 'a gheap_scheme \<Rightarrow> 'a gheap_scheme" where
  "upd_global f g = g\<lparr>global := f (global g)\<rparr>"

text \<open>The global lock is a recursive mutex; locking and unlocking it by its owner does not fail.\<close>

definition GC_lock :: "'a gheap_scheme \<Rightarrow> 'a gheap_scheme" where
  "GC_lock g = g\<lparr>lock_depth := lock_depth g + 1\<rparr>"

definition GC_unlock :: "'a gheap_scheme \<Rightarrow> 'a gheap_scheme" where
  "GC_unlock g = g\<lparr>lock_depth := lock_depth g - 1\<rparr>"

definition GC_is_collecting :: "'a gheap_scheme \<Rightarrow> bool" where
  "GC_is_collecting g = is_collecting g"

section \<open>Counters and bounds\<close>

definition GlobalAllocator_inSmallHeap :: "GlobalAllocator \<Rightarrow> addr \<Rightarrow> bool" where
  "GlobalAllocator_inSmallHeap self pointer \<longleftrightarrow> pointer \<ge> small_heap_start self \<and> pointer < small_heap_stop self"

definition GlobalAllocator_inLargeHeap :: "GlobalAllocator \<Rightarrow> addr \<Rightarrow> bool" where
  "GlobalAllocator_inLargeHeap self pointer \<longleftrightarrow> pointer \<ge> large_heap_start self \<and> pointer < large_heap_stop self"

definition GlobalAllocator_inHeap :: "GlobalAllocator \<Rightarrow> addr \<Rightarrow> bool" where
  "GlobalAllocator_inHeap self pointer \<longleftrightarrow>
     GlobalAllocator_inSmallHeap self pointer \<or> GlobalAllocator_inLargeHeap self pointer"

definition GlobalAllocator_incrementCounters :: "GlobalAllocator \<Rightarrow> nat \<Rightarrow> GlobalAllocator" where
  "GlobalAllocator_incrementCounters self increment =
     self\<lparr>allocated_bytes_since_collect := size_add (allocated_bytes_since_collect self) increment,
          total_allocated_bytes := size_add (total_allocated_bytes self) increment\<rparr>"

definition GlobalAllocator_resetCounters :: "GlobalAllocator \<Rightarrow> GlobalAllocator" where
  "GlobalAllocator_resetCounters self = self\<lparr>allocated_bytes_since_collect := 0\<rparr>"

definition GlobalAllocator_allocatedBytesSinceCollect :: "GlobalAllocator \<Rightarrow> nat" where
  "GlobalAllocator_allocatedBytesSinceCollect self = allocated_bytes_since_collect self"

definition GlobalAllocator_totalAllocatedBytes :: "GlobalAllocator \<Rightarrow> nat" where
  "GlobalAllocator_totalAllocatedBytes self = total_allocated_bytes self"

definition GlobalAllocator_heapSize :: "GlobalAllocator \<Rightarrow> nat" where
  "GlobalAllocator_heapSize self = size_add (small_heap_size self) (large_heap_size self)"

section \<open>Initialisation\<close>

function init_blocks :: "addr \<Rightarrow> addr \<Rightarrow> BlockList \<Rightarrow> mem \<Rightarrow> BlockList \<times> mem" where
  "init_blocks block stop bl m =
     (if block < stop
      then let m = Block_init m block; (bl, m) = BlockList_push bl m block
           in init_blocks (block + BLOCK_SIZE) stop bl m
      else (bl, m))"
  by pat_completeness auto
termination
  by (relation "measure (\<lambda>(block, stop, bl, m). stop - block)") auto

declare init_blocks.simps [simp del]

text \<open>
  \<open>GC_GlobalAllocator_init\<close> with the results of its two mappings and the options it reads. The struct is
  fresh memory, \<open>self\<close>.
\<close>

definition GlobalAllocator_init ::
  "environment \<Rightarrow> nat \<Rightarrow> nat \<Rightarrow> addr option \<Rightarrow> addr option \<Rightarrow> mem \<Rightarrow> GlobalAllocator \<Rightarrow> nat
   \<Rightarrow> (GlobalAllocator \<times> mem) prog" where
  "GlobalAllocator_init getenv errno phys small_map large_map m self initial_size =
     guard (initial_size \<ge> BLOCK_SIZE * 2) ''initial_size >= BLOCK_SIZE * 2''
    (guard (initial_size mod BLOCK_SIZE = 0) ''initial_size % BLOCK_SIZE == 0''
      (let self = self\<lparr>memory_limit := GC_maximumHeapSize getenv errno phys,
                       free_space_divisor := GC_freeSpaceDivisor getenv errno,
                       allocated_bytes_since_collect := 0, total_allocated_bytes := 0\<rparr>
       in pbind (GC_mapAndAlign small_map initial_size) (\<lambda>heap_start.
          let self = self\<lparr>small_heap_size := initial_size, small_heap_start := heap_start,
                          small_heap_stop := heap_start + initial_size,
                          free_list := BlockList_clear (free_list self),
                          recyclable_list := BlockList_clear (recyclable_list self)\<rparr>;
              (bl, m) = init_blocks (small_heap_start self) (small_heap_stop self) (free_list self) m;
              self = self\<lparr>free_list := bl\<rparr>
          in pbind (GC_mapAndAlign large_map initial_size) (\<lambda>large_start.
             let self = self\<lparr>large_heap_size := initial_size, large_heap_start := large_start,
                             large_heap_stop := large_start + initial_size\<rparr>;
                 m = Chunk_init m large_start (size_sub initial_size CHUNK_HEADER_SIZE);
                 (cl, m) = ChunkList_push (ChunkList_clear (large_chunk_list self)) m large_start
             in pbind (Hash_create 8) (\<lambda>table.
                ret (self\<lparr>large_chunk_list := cl, finalizers := table\<rparr>, m))))))"

section \<open>Growing the heaps\<close>

function grow_blocks :: "addr \<Rightarrow> int \<Rightarrow> int \<Rightarrow> BlockList \<Rightarrow> mem \<Rightarrow> BlockList \<times> mem" where
  "grow_blocks cursor i cnt bl m =
     (if i < cnt
      then let block = cursor + nat i * BLOCK_SIZE;
               m = Block_init m block;
               (bl, m) = BlockList_push bl m block
           in grow_blocks cursor (i + 1) cnt bl m
      else (bl, m))"
  by pat_completeness auto
termination
  by (relation "measure (\<lambda>(cursor, i, cnt, bl, m). nat (cnt - i))") auto

declare grow_blocks.simps [simp del]

definition GlobalAllocator_growSmall :: "'a gheap_scheme \<Rightarrow> 'a gheap_scheme prog" where
  "GlobalAllocator_growSmall g =
     (let self = global g;
          increment = size_mul (small_heap_size self) GROWTH_RATE div 100;
          increment = ROUND_TO_NEXT_MULTIPLE increment BLOCK_SIZE
      in if size_add (size_add (small_heap_size self) (large_heap_size self)) increment > memory_limit self
         then abort_with ''GC: out of memory''
         else
           let cursor = small_heap_stop self;
               self = self\<lparr>small_heap_stop := small_heap_stop self + increment,
                           small_heap_size := size_add (small_heap_size self) increment\<rparr>;
               cnt = c_int (int (increment div BLOCK_SIZE));
               (bl, m) = grow_blocks cursor 0 cnt (free_list self) (heap g)
           in ret (g\<lparr>global := self\<lparr>free_list := bl\<rparr>, heap := m\<rparr>))"

text \<open>
  \<open>ceil(log2((double)n))\<close>: exact, as the C computation is for every \<open>n\<close> below \<open>2 ^ 48\<close>, far beyond any
  physical memory limit.
\<close>

fun ceil_log2 :: "nat \<Rightarrow> nat" where
  "ceil_log2 n = (if n \<le> 1 then 0 else Suc (ceil_log2 ((n + 1) div 2)))"

declare ceil_log2.simps [simp del]

definition GlobalAllocator_growLarge :: "'a gheap_scheme \<Rightarrow> nat \<Rightarrow> 'a gheap_scheme prog" where
  "GlobalAllocator_growLarge g increment =
     (let self = global g;
          sz = size_t (2 ^ ceil_log2 increment);
          sz = ROUND_TO_NEXT_MULTIPLE sz BLOCK_SIZE
      in if size_add (size_add (small_heap_size self) (large_heap_size self)) sz > memory_limit self
         then abort_with ''GC: out of memory''
         else
           let cursor = large_heap_stop self;
               self = self\<lparr>large_heap_stop := large_heap_stop self + sz,
                           large_heap_size := size_add (large_heap_size self) sz\<rparr>;
               m = Chunk_init (heap g) cursor (size_sub sz CHUNK_HEADER_SIZE);
               (cl, m) = ChunkList_push (large_chunk_list self) m cursor
           in ret (g\<lparr>global := self\<lparr>large_chunk_list := cl\<rparr>, heap := m\<rparr>))"

section \<open>Large objects\<close>

text \<open>The first free chunk that is large enough, from \<open>chunk\<close> on.\<close>

partial_function (option) tryAllocateLarge_from ::
  "'a gheap_scheme \<Rightarrow> nat \<Rightarrow> nat \<Rightarrow> nat \<Rightarrow> addr \<Rightarrow> ('a gheap_scheme \<times> addr) prog" where
  "tryAllocateLarge_from g object_size sz atomic chunk =
     (if chunk = 0 then ret (g, 0)
      else
        guard (chunk \<ge> large_heap_start (global g)) ''chunk >= self->large_heap_start''
       (guard (chunk < large_heap_stop (global g)) ''chunk < self->large_heap_stop''
         (if \<not> Chunk_isAllocated (heap g) chunk \<and> object_size \<le> Chunk_osize (heap g) chunk
          then pbind (ChunkList_split (large_chunk_list (global g)) (heap g) chunk object_size) (\<lambda>(cl, m, _).
               let m = Chunk_allocate m chunk atomic;
                   self = (global g)\<lparr>large_chunk_list := cl\<rparr>;
                   self = GlobalAllocator_incrementCounters self sz
               in ret (g\<lparr>global := self, heap := m\<rparr>, Chunk_mutatorAddress chunk))
          else tryAllocateLarge_from g object_size sz atomic (Chunk_next (heap g) chunk))))"

definition GlobalAllocator_tryAllocateLarge ::
  "'a gheap_scheme \<Rightarrow> nat \<Rightarrow> nat \<Rightarrow> ('a gheap_scheme \<times> addr) prog" where
  "GlobalAllocator_tryAllocateLarge g sz atomic =
     (let object_size = size_add sz sizeof_Object
      in tryAllocateLarge_from g object_size sz atomic (cl_first (large_chunk_list (global g))))"

text \<open>Integer division by zero ends the process with a signal.\<close>

definition GlobalAllocator_tryCollect ::
  "('a gheap_scheme \<Rightarrow> 'a gheap_scheme prog) \<Rightarrow> 'a gheap_scheme \<Rightarrow> ('a gheap_scheme \<times> bool) prog" where
  "GlobalAllocator_tryCollect collect g =
     (if GC_is_collecting g then ret (g, False)
      else
        let allocated = GlobalAllocator_allocatedBytesSinceCollect (global g);
            total = GlobalAllocator_heapSize (global g)
        in if free_space_divisor (global g) = 0 then abort_with ''SIGFPE''
           else if allocated < total div free_space_divisor (global g) then ret (g, False)
           else pbind (collect g) (\<lambda>g. ret (g, True)))"

definition GlobalAllocator_allocateLarge ::
  "('a gheap_scheme \<Rightarrow> 'a gheap_scheme prog) \<Rightarrow> 'a gheap_scheme \<Rightarrow> nat \<Rightarrow> nat \<Rightarrow> ('a gheap_scheme \<times> addr) prog" where
  "GlobalAllocator_allocateLarge collect g sz atomic =
     (let rsize = ROUND_TO_NEXT_MULTIPLE sz WORD_SIZE; g = GC_lock g
      in pbind (GlobalAllocator_tryAllocateLarge g rsize atomic) (\<lambda>(g, mutator).
         if mutator \<noteq> 0 then ret (GC_unlock g, mutator)
         else pbind (GlobalAllocator_tryCollect collect g) (\<lambda>(g, collected).
              pbind (if collected then GlobalAllocator_tryAllocateLarge g rsize atomic else ret (g, 0)) (\<lambda>(g, mutator).
              if mutator \<noteq> 0 then ret (GC_unlock g, mutator)
              else pbind (GlobalAllocator_growLarge g (size_add rsize sizeof_Chunk)) (\<lambda>g.
                   pbind (GlobalAllocator_tryAllocateLarge g rsize atomic) (\<lambda>(g, mutator).
                   if mutator \<noteq> 0 then ret (GC_unlock g, mutator)
                   else abort_with ''GC: failed to allocate large object''))))))"

section \<open>Finalizers\<close>

definition GlobalAllocator_registerFinalizer :: "GlobalAllocator \<Rightarrow> addr \<Rightarrow> addr \<Rightarrow> GlobalAllocator prog" where
  "GlobalAllocator_registerFinalizer self obj callback =
     pbind (Hash_insert (finalizers self) obj callback) (\<lambda>table. ret (self\<lparr>finalizers := table\<rparr>))"

definition GlobalAllocator_deleteFinalizer :: "GlobalAllocator \<Rightarrow> addr \<Rightarrow> (GlobalAllocator \<times> addr) prog" where
  "GlobalAllocator_deleteFinalizer self obj =
     pbind (Hash_delete (finalizers self) obj) (\<lambda>(table, callback). ret (self\<lparr>finalizers := table\<rparr>, callback))"

text \<open>\<open>call callback pointer\<close> is the effect of calling a finalizer on the state.\<close>

definition GlobalAllocator_finalize ::
  "(addr \<Rightarrow> addr \<Rightarrow> 'a gheap_scheme \<Rightarrow> 'a gheap_scheme) \<Rightarrow> 'a gheap_scheme \<Rightarrow> addr \<Rightarrow> 'a gheap_scheme prog" where
  "GlobalAllocator_finalize call g obj =
     pbind (GlobalAllocator_deleteFinalizer (global g) obj) (\<lambda>(self, callback).
       let g = g\<lparr>global := self\<rparr>
       in ret (if callback \<noteq> 0 then call callback (Object_mutatorAddress obj) g else g))"

definition GlobalAllocator_finalizeObjectCallback ::
  "(addr \<Rightarrow> addr \<Rightarrow> 'a gheap_scheme \<Rightarrow> 'a gheap_scheme) \<Rightarrow> addr \<Rightarrow> addr \<Rightarrow> 'a gheap_scheme \<Rightarrow> bool \<times> 'a gheap_scheme" where
  "GlobalAllocator_finalizeObjectCallback call obj callback g =
     (if \<not> Object_isMarked (heap g) obj then (True, call callback (Object_mutatorAddress obj) g)
      else (False, g))"

text \<open>The finalizers run while the table is walked; they must not touch the table.\<close>

definition GlobalAllocator_finalizeObjects ::
  "(addr \<Rightarrow> addr \<Rightarrow> 'a gheap_scheme \<Rightarrow> 'a gheap_scheme) \<Rightarrow> 'a gheap_scheme \<Rightarrow> 'a gheap_scheme prog" where
  "GlobalAllocator_finalizeObjects call g =
     pbind (Hash_deleteIf (GlobalAllocator_finalizeObjectCallback call) (finalizers (global g)) g) (\<lambda>(table, g).
       ret (upd_global (\<lambda>self. self\<lparr>finalizers := table\<rparr>) g))"

definition GlobalAllocator_deallocateLarge ::
  "(addr \<Rightarrow> addr \<Rightarrow> 'a gheap_scheme \<Rightarrow> 'a gheap_scheme) \<Rightarrow> 'a gheap_scheme \<Rightarrow> addr \<Rightarrow> 'a gheap_scheme prog" where
  "GlobalAllocator_deallocateLarge call g pointer =
     (let chunk = pointer - sizeof_Chunk; g = GC_lock g
      in pbind (GlobalAllocator_deleteFinalizer (global g) (Chunk_object chunk)) (\<lambda>(self, finalizer).
         let g = g\<lparr>global := self\<rparr>;
             g = (if finalizer \<noteq> 0 then call finalizer (Chunk_mutatorAddress chunk) g else g);
             g = g\<lparr>heap := Chunk_set_allocated (heap g) chunk 0\<rparr>
         in ret (GC_unlock g)))"

section \<open>Handing out blocks\<close>

definition shift_recyclable :: "'a gheap_scheme \<Rightarrow> 'a gheap_scheme \<times> addr" where
  "shift_recyclable g =
     (let (bl, block) = BlockList_shift (recyclable_list (global g)) (heap g)
      in (upd_global (\<lambda>self. self\<lparr>recyclable_list := bl\<rparr>) g, block))"

definition shift_free :: "'a gheap_scheme \<Rightarrow> 'a gheap_scheme \<times> addr" where
  "shift_free g =
     (let (bl, block) = BlockList_shift (free_list (global g)) (heap g)
      in (upd_global (\<lambda>self. self\<lparr>free_list := bl\<rparr>) g, block))"

definition GlobalAllocator_nextBlock ::
  "('a gheap_scheme \<Rightarrow> 'a gheap_scheme prog) \<Rightarrow> 'a gheap_scheme \<Rightarrow> ('a gheap_scheme \<times> addr) prog" where
  "GlobalAllocator_nextBlock collect g =
     (let g = GC_lock g;
          (g, block) = shift_recyclable g
      in if block \<noteq> 0 then ret (GC_unlock g, block)
         else let (g, block) = shift_free g
         in if block \<noteq> 0 then ret (GC_unlock g, block)
         else pbind (GlobalAllocator_tryCollect collect g) (\<lambda>(g, collected).
           let (g, block) = (if collected then shift_recyclable g else (g, 0))
           in if block \<noteq> 0 then ret (GC_unlock g, block)
              else pbind (if BlockList_isEmpty (free_list (global g)) then GlobalAllocator_growSmall g else ret g) (\<lambda>g.
                let (g, block) = shift_free g
                in if block \<noteq> 0 then ret (GC_unlock g, block)
                   else abort_with ''GC: failed to allocate small object (can't shift block from free list)'')))"

definition GlobalAllocator_nextFreeBlock ::
  "('a gheap_scheme \<Rightarrow> 'a gheap_scheme prog) \<Rightarrow> 'a gheap_scheme \<Rightarrow> ('a gheap_scheme \<times> addr) prog" where
  "GlobalAllocator_nextFreeBlock collect g =
     (let g = GC_lock g;
          (g, block) = shift_free g
      in if block \<noteq> 0 then ret (GC_unlock g, block)
         else pbind (GlobalAllocator_tryCollect collect g) (\<lambda>(g, collected).
           pbind (if collected
                  then (if BlockList_isEmpty (free_list (global g)) then GlobalAllocator_growSmall g else ret g)
                  else GlobalAllocator_growSmall g) (\<lambda>g.
             let (g, block) = shift_free g
             in if block \<noteq> 0 then ret (GC_unlock g, block)
                else abort_with ''GC: failed to allocate small object (can't shift block from free list)'')))"

end
