(* ===== verification/Recycle.thy ===== *)
theory Recycle
  imports Global_Allocator
begin

text \<open>
  \<open>GC_GlobalAllocator_recycleBlocks\<close> (\<open>src/global_allocator.c\<close>), the sweep of the small object space: unmarked
  blocks become free; in a marked block the runs of unmarked lines become holes, linked through their first
  words. The theory translates the code, gives the holes of a block as a function of its line marks, and proves
  that the code builds exactly these holes, without touching a byte of any other line.
\<close>

section \<open>The code\<close>

text \<open>The loop over the line headers. The \<open>line_index++\<close> inside the body skips a line.\<close>

function recycle_lines :: "addr \<Rightarrow> nat \<Rightarrow> int \<Rightarrow> addr \<Rightarrow> addr \<Rightarrow> mem \<Rightarrow> (int \<times> addr \<times> mem) prog" where
  "recycle_lines block line_index first hole previous_hole m =
     (if line_index < LINE_COUNT
      then
        let line_header = Block_lineHeaders block + line_index
        in if LineHeader_isMarked m line_header
           then if hole \<noteq> 0
                then pbind (Block_line block (int line_index)) (\<lambda>line.
                     recycle_lines block (line_index + 1) first 0 hole (Hole_set_limit m hole line))
                else recycle_lines block (line_index + 1) first hole previous_hole m
           else
             let m = LineHeader_clear m line_header
             in if hole = 0 \<and> line_index \<noteq> LINE_COUNT - 1 \<and> \<not> LineHeader_isMarked m (line_header + 1)
                then
                  let line_index = line_index + 1;
                      m = LineHeader_clear m (line_header + 1);
                      first = (if first = INVALID_LINE_INDEX then int line_index else first)
                  in pbind (Block_line block (int line_index)) (\<lambda>hole.
                     let m = Hole_init m hole;
                         m = (if previous_hole \<noteq> 0 then Hole_set_next m previous_hole hole else m)
                     in recycle_lines block (line_index + 1) first hole previous_hole m)
                else recycle_lines block (line_index + 1) first hole previous_hole m
      else ret (first, hole, m))"
  by pat_completeness auto
termination
  by (relation "measure (\<lambda>(block, line_index, first, hole, previous_hole, m). LINE_COUNT - line_index)") auto

declare recycle_lines.simps [simp del]

text \<open>One round of the loop over the blocks.\<close>

definition recycle_block :: "'a gheap_scheme \<Rightarrow> addr \<Rightarrow> 'a gheap_scheme prog" where
  "recycle_block g block =
     (if \<not> Block_isMarked (heap g) block
      then let m = Block_setFree (heap g) block;
               (bl, m) = BlockList_push (free_list (global g)) m block
           in ret ((upd_global (\<lambda>self. self\<lparr>free_list := bl\<rparr>) g)\<lparr>heap := m\<rparr>)
      else
        pbind (recycle_lines block 0 INVALID_LINE_INDEX 0 0 (heap g)) (\<lambda>(first, hole, m).
          let m = (if hole \<noteq> 0 \<and> Hole_limit m hole = 0 then Hole_set_limit m hole (Block_stop block) else m)
          in if first = INVALID_LINE_INDEX
             then ret (g\<lparr>heap := Block_setUnavailable m block\<rparr>)
             else let m = Block_setRecyclable m block first;
                      (bl, m) = BlockList_push (recyclable_list (global g)) m block
                  in ret ((upd_global (\<lambda>self. self\<lparr>recyclable_list := bl\<rparr>) g)\<lparr>heap := m\<rparr>)))"

function recycle_from :: "addr \<Rightarrow> addr \<Rightarrow> 'a gheap_scheme \<Rightarrow> 'a gheap_scheme prog" where
  "recycle_from block stop g =
     (if block < stop
      then pbind (recycle_block g block) (\<lambda>g. recycle_from (block + BLOCK_SIZE) stop g)
      else ret g)"
  by pat_completeness auto
termination
  by (relation "measure (\<lambda>(block, stop, g). stop - block)") auto

declare recycle_from.simps [simp del]

definition GlobalAllocator_recycleBlocks :: "'a gheap_scheme \<Rightarrow> 'a gheap_scheme prog" where
  "GlobalAllocator_recycleBlocks g =
     (let g = upd_global (\<lambda>self. self\<lparr>free_list := BlockList_clear (free_list self),
                                      recyclable_list := BlockList_clear (recyclable_list self)\<rparr>) g
      in recycle_from (small_heap_start (global g)) (small_heap_stop (global g)) g)"

section \<open>Lines and holes\<close>

definition line_addr :: "addr \<Rightarrow> nat \<Rightarrow> addr" where
  "line_addr block i = block + 256 + i * 256"

definition line_marked :: "mem \<Rightarrow> addr \<Rightarrow> nat \<Rightarrow> bool" where
  "line_marked m block i \<longleftrightarrow> hdr_marked (m (block + 16 + i))"

definition line_marks :: "mem \<Rightarrow> addr \<Rightarrow> nat \<Rightarrow> bool list" where
  "line_marks m block i = map (line_marked m block) [i..<127]"

text \<open>
  The holes of a sequence of line marks, as pairs of the first line and the line behind the last: each run of two
  or more unmarked lines without its first line, into which an object of the marked line before may reach.
\<close>

function hole_spec :: "nat \<Rightarrow> bool list \<Rightarrow> (nat \<times> nat) list" where
  "hole_spec i [] = []"
| "hole_spec i (marked # ms) =
     (if marked then hole_spec (i + 1) ms
      else let n = length (takeWhile Not ms)
           in (if n = 0 then [] else [(i + 1, i + 1 + n)]) @ hole_spec (i + 1 + n) (dropWhile Not ms))"
  by pat_completeness auto
termination
  by (relation "measure (\<lambda>(i, ms). length ms)") (auto simp: length_dropWhile_le less_Suc_eq_le)

abbreviation holes_from :: "mem \<Rightarrow> addr \<Rightarrow> nat \<Rightarrow> (nat \<times> nat) list" where
  "holes_from m block i \<equiv> hole_spec i (line_marks m block i)"

definition block_holes :: "mem \<Rightarrow> addr \<Rightarrow> (nat \<times> nat) list" where
  "block_holes m block = hole_spec 0 (line_marks m block 0)"

primrec hole_chain :: "mem \<Rightarrow> addr \<Rightarrow> (nat \<times> nat) list \<Rightarrow> bool" where
  "hole_chain m block [] \<longleftrightarrow> True"
| "hole_chain m block (h # hs) \<longleftrightarrow>
     Hole_limit m (line_addr block (fst h)) = line_addr block (snd h) \<and>
     Hole_next m (line_addr block (fst h)) = (if hs = [] then 0 else line_addr block (fst (hd hs))) \<and>
     hole_chain m block hs"

lemma line_marks_Cons: "i < 127 \<Longrightarrow> line_marks m block i = line_marked m block i # line_marks m block (i + 1)"
  by (simp add: line_marks_def upt_conv_Cons)

lemma line_marks_end [simp]: "127 \<le> i \<Longrightarrow> line_marks m block i = []"
  by (simp add: line_marks_def)

lemma length_line_marks [simp]: "length (line_marks m block i) = 127 - i"
  by (simp add: line_marks_def)

text \<open>Holes begin behind an unmarked line and hold unmarked lines only; they come in order.\<close>

lemma hole_spec_props:
  "(s, e) \<in> set (hole_spec i ms) \<Longrightarrow>
     i < s \<and> s < e \<and> e \<le> i + length ms \<and> (\<forall>k. s - 1 \<le> k \<longrightarrow> k < e \<longrightarrow> \<not> ms ! (k - i))"
proof (induction i ms rule: hole_spec.induct)
  case (2 i marked ms)
  show ?case
  proof (cases marked)
    case True
    then have "(s, e) \<in> set (hole_spec (i + 1) ms)" using "2.prems" by simp
    from "2.IH"(1) [OF True this] have IH: "i + 1 < s" "s < e" "e \<le> i + 1 + length ms"
      "\<And>k. s - 1 \<le> k \<Longrightarrow> k < e \<Longrightarrow> \<not> ms ! (k - (i + 1))" by auto
    have "(marked # ms) ! (k - i) = ms ! (k - (i + 1))" if "s - 1 \<le> k" for k
      using that IH(1) by (auto simp: nth_Cons')
    with IH show ?thesis by auto
  next
    case False
    let ?n = "length (takeWhile Not ms)"
    have len: "?n + length (dropWhile Not ms) = length ms" by (metis length_append takeWhile_dropWhile_id)
    consider "(s, e) = (i + 1, i + 1 + ?n)" "?n \<noteq> 0" | "(s, e) \<in> set (hole_spec (i + 1 + ?n) (dropWhile Not ms))"
      using "2.prems" False by (auto simp: Let_def split: if_splits)
    then show ?thesis
    proof cases
      case 1
      have "\<not> (marked # ms) ! (k - i)" if "s - 1 \<le> k" "k < e" for k
      proof (cases "k - i")
        case (Suc j)
        then have "j < ?n" using that 1 by simp
        then have "\<not> ms ! j" using nth_mem [of j "takeWhile Not ms"] by (metis set_takeWhileD takeWhile_nth)
        with Suc show ?thesis by simp
      qed (simp add: False)
      with 1 len show ?thesis by auto
    next
      case 2
      from "2.IH"(2) [OF False refl this] have IH: "i + 1 + ?n < s" "s < e" "e \<le> i + 1 + ?n + length (dropWhile Not ms)"
        "\<And>k. s - 1 \<le> k \<Longrightarrow> k < e \<Longrightarrow> \<not> dropWhile Not ms ! (k - (i + 1 + ?n))" by auto
      have "\<not> (marked # ms) ! (k - i)" if "s - 1 \<le> k" "k < e" for k
      proof -
        have k: "k - i = Suc (?n + (k - (i + 1 + ?n)))" using that IH(1) by simp
        have "(takeWhile Not ms @ dropWhile Not ms) ! (?n + (k - (i + 1 + ?n))) = dropWhile Not ms ! (k - (i + 1 + ?n))"
          by (rule nth_append_length_plus)
        then have "ms ! (?n + (k - (i + 1 + ?n))) = dropWhile Not ms ! (k - (i + 1 + ?n))"
          by (simp only: takeWhile_dropWhile_id)
        with IH(4) [OF that] show ?thesis by (simp add: k)
      qed
      with IH len show ?thesis by auto
    qed
  qed
qed simp

lemma hole_spec_sorted: "sorted_wrt (\<lambda>g h. snd g < fst h) (hole_spec i ms)"
proof (induction i ms rule: hole_spec.induct)
  case (2 i marked ms)
  then show ?case using hole_spec_props by (fastforce simp: Let_def)
qed simp

section \<open>What the loop writes\<close>

definition close_last :: "mem \<Rightarrow> addr \<Rightarrow> addr \<Rightarrow> mem" where
  "close_last m hole block =
     (if hole \<noteq> 0 \<and> Hole_limit m hole = 0 then Hole_set_limit m hole (Block_stop block) else m)"

definition in_hole_words :: "addr \<Rightarrow> (nat \<times> nat) list \<Rightarrow> addr \<Rightarrow> bool" where
  "in_hole_words block hs a \<longleftrightarrow> (\<exists>h \<in> set hs. line_addr block (fst h) \<le> a \<and> a < line_addr block (fst h) + 16)"

text \<open>
  From line \<open>i\<close> on: unmarked headers are cleared, the holes \<open>hs\<close> are linked behind the hole at \<open>p\<close>, and nothing
  else is written.
\<close>

definition holes_written :: "mem \<Rightarrow> mem \<Rightarrow> addr \<Rightarrow> nat \<Rightarrow> addr \<Rightarrow> (nat \<times> nat) list \<Rightarrow> bool" where
  "holes_written m m' block i p hs \<longleftrightarrow>
     (\<forall>k. i \<le> k \<longrightarrow> k < 127 \<longrightarrow> m' (block + 16 + k) = (if line_marked m block k then m (block + 16 + k) else 0)) \<and>
     hole_chain m' block hs \<and>
     (p \<noteq> 0 \<longrightarrow> hs \<noteq> [] \<longrightarrow> Hole_next m' p = line_addr block (fst (hd hs))) \<and>
     (\<forall>a. \<not> (block + 16 + i \<le> a \<and> a < block + 143) \<longrightarrow> \<not> in_hole_words block hs a \<longrightarrow>
        \<not> (p \<noteq> 0 \<and> hs \<noteq> [] \<and> p + 8 \<le> a \<and> a < p + 16) \<longrightarrow> m' a = m a)"

lemma LineHeader_clear_memzero: "LineHeader_clear m a = memzero m a 1"
  by (auto simp: LineHeader_clear_def memzero_def fun_eq_iff)

lemma memzero_memzero: "memzero (memzero m a k) (a + k) n = memzero m a (k + n)"
  by (auto simp: memzero_def fun_eq_iff)

lemma isMarked_line: "LineHeader_isMarked m (Block_lineHeaders block + i) = line_marked m block i"
  by (simp add: LineHeader_isMarked_iff line_marked_def Block_lineHeaders_def)

lemma Block_line_addr: "i < 127 \<Longrightarrow> Block_line block (int i) = ret (line_addr block i)"
  by (simp add: Block_line_def line_addr_def Block_start_def add.assoc)

lemma Block_line_addr_Suc: "i < 126 \<Longrightarrow> Block_line block (1 + int i) = ret (line_addr block (Suc i))"
  using Block_line_addr [of "Suc i" block] by simp

text \<open>While a hole is open, unmarked lines only lose their headers.\<close>

lemma recycle_open:
  assumes "i \<le> j" and "j \<le> 127" and "hole \<noteq> 0" and "\<And>k. i \<le> k \<Longrightarrow> k < j \<Longrightarrow> \<not> line_marked m block k"
  shows "recycle_lines block i first hole p m = recycle_lines block j first hole p (memzero m (block + 16 + i) (j - i))"
  using assms
proof (induction "j - i" arbitrary: i m)
  case 0
  then have "memzero m (block + 16 + i) (j - i) = m" by (auto simp: memzero_def fun_eq_iff)
  with 0 show ?case by simp
next
  case (Suc d)
  let ?m = "memzero m (block + 16 + i) 1"
  have "i < 127" using Suc.hyps(2) Suc.prems by simp
  then have "recycle_lines block i first hole p m = recycle_lines block (i + 1) first hole p ?m"
    using Suc.hyps(2) Suc.prems isMarked_line [of m block i]
    by (subst recycle_lines.simps) (simp add: LineHeader_clear_memzero Block_lineHeaders_def)
  also have "\<dots> = recycle_lines block j first hole p (memzero ?m (block + 16 + (i + 1)) (j - (i + 1)))"
    by (rule Suc.hyps(1)) (use Suc in \<open>auto simp: line_marked_def memzero_def\<close>)
  also have "memzero ?m (block + 16 + (i + 1)) (j - (i + 1)) = memzero m (block + 16 + i) (j - i)"
    using memzero_memzero [of m "block + 16 + i" 1 "j - (i + 1)"] \<open>Suc d = j - i\<close>
    by (simp add: add.assoc Suc_diff_Suc)
  finally show ?case .
qed

text \<open>The memory after one run of unmarked lines, from line \<open>i\<close> to the line \<open>e\<close> that ends it.\<close>

definition run_memory :: "mem \<Rightarrow> addr \<Rightarrow> nat \<Rightarrow> nat \<Rightarrow> addr \<Rightarrow> mem" where
  "run_memory m block i e p =
     (let line = line_addr block (i + 1);
          m = Hole_init (memzero m (block + 16 + i) 2) line;
          m = (if p \<noteq> 0 then Hole_set_next m p line else m)
      in memzero m (block + 16 + (i + 2)) (e - (i + 2)))"

lemma run_memory_spec:
  fixes m :: mem and block i e p
  assumes b: "block + 32768 < 2 ^ 64" and e: "i + 2 \<le> e" "e \<le> 127"
    and p: "p = 0 \<or> (block + 256 \<le> p \<and> p + 16 \<le> line_addr block i)"
  defines "m' \<equiv> Hole_set_limit (run_memory m block i e p) (line_addr block (i + 1)) (line_addr block e)"
  shows "\<And>k. i \<le> k \<Longrightarrow> k < e \<Longrightarrow> m' (block + 16 + k) = 0"
    and "Hole_limit m' (line_addr block (i + 1)) = line_addr block e"
    and "Hole_next m' (line_addr block (i + 1)) = 0"
    and "p \<noteq> 0 \<Longrightarrow> Hole_next m' p = line_addr block (i + 1)"
    and "\<And>a. \<not> (block + 16 + i \<le> a \<and> a < block + 16 + e) \<Longrightarrow>
      \<not> (line_addr block (i + 1) \<le> a \<and> a < line_addr block (i + 1) + 16) \<Longrightarrow>
      \<not> (p \<noteq> 0 \<and> p + 8 \<le> a \<and> a < p + 16) \<Longrightarrow> m' a = m a"
    and "Hole_limit (run_memory m block i e p) (line_addr block (i + 1)) = 0"
proof -
  let ?l = "line_addr block (i + 1)"
  have l: "?l = block + 512 + i * 256" "?l + 16 < 2 ^ 64" "line_addr block e < 2 ^ 64" "line_addr block i + 256 = ?l"
    using b e by (auto simp: line_addr_def)
  note field = m'_def run_memory_def Let_def Hole_set_limit_def Hole_set_next_def Hole_init_def Hole_limit_def Hole_next_def
  note rw = load_store_same load_store_other load_memzero_other
  show "m' (block + 16 + k) = 0" if "i \<le> k" "k < e" for k
  proof -
    have far: "block + 16 + k < ?l" "p \<noteq> 0 \<longrightarrow> block + 16 + k < p + 8" using that e l p by auto
    show ?thesis using that e far
      by (simp add: field store_frame) (auto simp: memzero_def store_frame)
  qed
  show "Hole_limit m' ?l = line_addr block e" using l by (simp add: field rw)
  show "Hole_next m' ?l = 0" "Hole_limit (run_memory m block i e p) ?l = 0"
    using l p e by (auto simp: field rw)
  show "Hole_next m' p = ?l" if "p \<noteq> 0" using l p e that by (auto simp: field rw)
  show "m' a = m a" if "\<not> (block + 16 + i \<le> a \<and> a < block + 16 + e)" "\<not> (?l \<le> a \<and> a < ?l + 16)"
    "\<not> (p \<noteq> 0 \<and> p + 8 \<le> a \<and> a < p + 16)" for a
  proof -
    have "store 8 mm ?l v a = mm a" "store 8 mm (?l + 8) v a = mm a" for mm v
      using that(2) by (auto intro!: store_frame)
    moreover have "store 8 mm (p + 8) v a = mm a" if "p \<noteq> 0" for mm v
      using that \<open>\<not> (p \<noteq> 0 \<and> p + 8 \<le> a \<and> a < p + 16)\<close> by (auto intro!: store_frame)
    ultimately show ?thesis using that(1) e by (simp add: field) (auto simp: memzero_def)
  qed
qed

lemma line_addr_mono: "i < j \<Longrightarrow> line_addr block i + 256 \<le> line_addr block j"
  by (simp add: line_addr_def)

lemma line_addr_inj [simp]: "line_addr block i = line_addr block j \<longleftrightarrow> i = j"
  by (auto simp: line_addr_def)

lemma line_marks_run:
  assumes "i \<le> 127" and n: "n = length (takeWhile Not (line_marks m block i))"
  shows "i + n \<le> 127" and "\<And>k. i \<le> k \<Longrightarrow> k < i + n \<Longrightarrow> \<not> line_marked m block k"
    and "i + n < 127 \<Longrightarrow> line_marked m block (i + n)"
    and "dropWhile Not (line_marks m block i) = line_marks m block (i + n)"
proof -
  let ?ms = "line_marks m block i"
  show le: "i + n \<le> 127" using length_takeWhile_le [of Not ?ms] assms by simp
  have nth: "?ms ! j = line_marked m block (i + j)" if "i + j < 127" for j
    using that by (simp add: line_marks_def)
  show "\<not> line_marked m block k" if "i \<le> k" "k < i + n" for k
  proof -
    have "takeWhile Not ?ms ! (k - i) \<in> set (takeWhile Not ?ms)" using that n by (intro nth_mem) simp
    from set_takeWhileD [OF this] have "\<not> takeWhile Not ?ms ! (k - i)" by simp
    with that n nth [of "k - i"] le show ?thesis by (simp add: takeWhile_nth)
  qed
  show "line_marked m block (i + n)" if "i + n < 127"
    using nth_length_takeWhile [of Not ?ms] nth [of n] that n by simp
  show "dropWhile Not ?ms = line_marks m block (i + n)"
    unfolding dropWhile_eq_drop n [symmetric] by (simp add: line_marks_def drop_map)
qed

lemma line_marks_cong:
  "(\<And>k. i \<le> k \<Longrightarrow> k < 127 \<Longrightarrow> line_marked m' block k = line_marked m block k) \<Longrightarrow>
   line_marks m' block i = line_marks m block i"
  by (simp add: line_marks_def)

lemma hole_chain_cong:
  assumes "hole_chain m block hs"
    and "\<And>a. in_hole_words block hs a \<Longrightarrow> m' a = m a"
  shows "hole_chain m' block hs"
proof -
  have "Hole_limit m' (line_addr block (fst h)) = Hole_limit m (line_addr block (fst h)) \<and>
        Hole_next m' (line_addr block (fst h)) = Hole_next m (line_addr block (fst h))" if "h \<in> set hs" for h
    unfolding Hole_limit_def Hole_next_def
    by (intro conjI load_cong assms(2)) (use that in \<open>auto simp: in_hole_words_def intro!: bexI [of _ h]\<close>)
  moreover have "hole_chain m' block hs'" if "hole_chain m block hs'" "set hs' \<subseteq> set hs" for hs'
    using that calculation by (induction hs') auto
  ultimately show ?thesis using assms(1) by blast
qed

text \<open>Two writes of holes one behind the other.\<close>

lemma holes_written_skip:
  assumes "holes_written m1 m' block (i + 1) p hs" and i: "i < 127"
    and m1: "m1 = (if line_marked m block i then m else memzero m (block + 16 + i) 1)"
    and p: "p = 0 \<or> block + 256 \<le> p" and hs: "\<And>h. h \<in> set hs \<Longrightarrow> i < fst h"
  shows "holes_written m m' block i p hs"
proof -
  have mk: "line_marked m1 block k = line_marked m block k" if "i < k" for k
    using that m1 by (auto simp: line_marked_def memzero_def)
  have same: "m1 a = m a" if "\<not> (a = block + 16 + i)" for a
    using that m1 by (auto simp: memzero_def)
  have at: "m' (block + 16 + i) = (if line_marked m block i then m (block + 16 + i) else 0)"
  proof -
    have "\<not> in_hole_words block hs (block + 16 + i)" using i by (auto simp: in_hole_words_def line_addr_def)
    then have "m' (block + 16 + i) = m1 (block + 16 + i)"
      using assms(1) i p by (auto simp: holes_written_def)
    then show ?thesis by (simp add: m1 memzero_def)
  qed
  show ?thesis
    unfolding holes_written_def
  proof (intro conjI allI impI)
    fix k assume "i \<le> k" "k < 127"
    then show "m' (block + 16 + k) = (if line_marked m block k then m (block + 16 + k) else 0)"
      using assms(1) at mk [of k] same [of "block + 16 + k"] by (cases "k = i") (auto simp: holes_written_def)
  next
    fix a assume "\<not> (block + 16 + i \<le> a \<and> a < block + 143)" "\<not> in_hole_words block hs a"
      "\<not> (p \<noteq> 0 \<and> hs \<noteq> [] \<and> p + 8 \<le> a \<and> a < p + 16)"
    then show "m' a = m a" using assms(1) same [of a] i by (auto simp: holes_written_def)
  qed (use assms(1) in \<open>auto simp: holes_written_def\<close>)
qed

abbreviation hole_before :: "addr \<Rightarrow> addr \<Rightarrow> nat \<Rightarrow> bool" where
  "hole_before p block i \<equiv> p = 0 \<or> (block + 256 \<le> p \<and> p + 16 \<le> line_addr block i)"

text \<open>The hole at the head of the chain, after the loop has gone on behind it.\<close>

lemma run_hole_written:
  assumes b: "block + 32768 < 2 ^ 64" and e: "i + 2 \<le> e" "e \<le> 127" and p: "hole_before p block i"
    and m1: "m1 = Hole_set_limit (run_memory m block i e p) (line_addr block (i + 1)) (line_addr block e)"
    and w: "holes_written m1 m' block e (line_addr block (i + 1)) hs"
    and hs: "\<And>h. h \<in> set hs \<Longrightarrow> e < fst h"
  defines "l \<equiv> line_addr block (i + 1)"
  shows "a < line_addr block e \<Longrightarrow> \<not> (block + 16 + e \<le> a \<and> a < block + 143) \<Longrightarrow> \<not> (l + 8 \<le> a \<and> a < l + 16) \<Longrightarrow> m' a = m1 a"
    and "Hole_limit m' l = line_addr block e"
    and "Hole_next m' l = (if hs = [] then 0 else line_addr block (fst (hd hs)))"
proof -
  note R = run_memory_spec [OF b e p, where m = m, folded m1 l_def]
  have l: "l = block + 512 + i * 256" "line_addr block e = block + 256 + e * 256" by (auto simp: line_addr_def l_def)
  show keep: "m' a = m1 a" if "a < line_addr block e" "\<not> (block + 16 + e \<le> a \<and> a < block + 143)" "\<not> (l + 8 \<le> a \<and> a < l + 16)" for a
  proof -
    have "\<not> in_hole_words block hs a"
      using that(1) line_addr_mono [of e _ block] hs by (force simp: in_hole_words_def)
    then show ?thesis using w that by (auto simp: holes_written_def l_def)
  qed
  have "Hole_limit m' l = Hole_limit m1 l"
    unfolding Hole_limit_def by (rule load_cong, rule keep) (use l e in auto)
  with R(2) show "Hole_limit m' l = line_addr block e" by simp
  show "Hole_next m' l = (if hs = [] then 0 else line_addr block (fst (hd hs)))"
  proof (cases "hs = []")
    case True
    have "Hole_next m' l = Hole_next m1 l"
      unfolding Hole_next_def
    proof (rule load_cong)
      fix a assume "l + 8 \<le> a" "a < l + 8 + 8"
      then show "m' a = m1 a" using w True l e by (auto simp: holes_written_def in_hole_words_def)
    qed
    with R(3) True show ?thesis by simp
  next
    case False
    have "l \<noteq> 0" using l by simp
    with w False show ?thesis by (simp add: holes_written_def l_def)
  qed
qed

text \<open>A closed hole in front of further ones.\<close>

lemma holes_written_run:
  assumes b: "block + 32768 < 2 ^ 64" and e: "i + 2 \<le> e" "e \<le> 127"
    and un: "\<And>k. i \<le> k \<Longrightarrow> k < e \<Longrightarrow> \<not> line_marked m block k" and p: "hole_before p block i"
    and m1: "m1 = Hole_set_limit (run_memory m block i e p) (line_addr block (i + 1)) (line_addr block e)"
    and w: "holes_written m1 m' block e (line_addr block (i + 1)) hs"
    and hs: "\<And>h. h \<in> set hs \<Longrightarrow> e < fst h"
  shows "holes_written m m' block i p ((i + 1, e) # hs)"
  unfolding holes_written_def
proof (intro conjI allI impI)
  let ?l = "line_addr block (i + 1)"
  note R = run_memory_spec [OF b e p, where m = m, folded m1] and H = run_hole_written [OF b e p m1 w hs]
  have l: "?l = block + 512 + i * 256" "line_addr block e = block + 256 + e * 256"
    "line_addr block i + 256 = ?l" by (auto simp: line_addr_def)
  show "m' (block + 16 + k) = (if line_marked m block k then m (block + 16 + k) else 0)" if k: "i \<le> k" "k < 127" for k
  proof (cases "k < e")
    case True
    have "m' (block + 16 + k) = m1 (block + 16 + k)" by (rule H(1)) (use True l k e in auto)
    with R(1) [OF k(1) True] un [OF k(1) True] show ?thesis by simp
  next
    case False
    have "m1 (block + 16 + k) = m (block + 16 + k)" by (rule R(5)) (use False l k p in auto)
    then show ?thesis using w False k by (auto simp: holes_written_def line_marked_def)
  qed
  show "hole_chain m' block ((i + 1, e) # hs)" using w H(2,3) by (simp add: holes_written_def)
  show "Hole_next m' p = line_addr block (fst (hd ((i + 1, e) # hs)))" if "p \<noteq> 0"
  proof -
    have "Hole_next m' p = Hole_next m1 p"
      unfolding Hole_next_def by (rule load_cong, rule H(1)) (use p that e l in auto)
    with R(4) [OF that] show ?thesis by simp
  qed
  fix a assume a: "\<not> (block + 16 + i \<le> a \<and> a < block + 143)" "\<not> in_hole_words block ((i + 1, e) # hs) a"
    "\<not> (p \<noteq> 0 \<and> (i + 1, e) # hs \<noteq> [] \<and> p + 8 \<le> a \<and> a < p + 16)"
  then have "\<not> (?l \<le> a \<and> a < ?l + 16)" "\<not> in_hole_words block hs a" by (auto simp: in_hole_words_def)
  moreover from this have "m' a = m1 a" using w a e by (auto simp: holes_written_def)
  ultimately show "m' a = m a" using R(5) [of a] a e by auto
qed

lemma recycle_marked:
  "e < 127 \<Longrightarrow> hole \<noteq> 0 \<Longrightarrow> line_marked m block e \<Longrightarrow>
   recycle_lines block e first hole p m =
     recycle_lines block (e + 1) first 0 hole (Hole_set_limit m hole (line_addr block e))"
  by (subst recycle_lines.simps) (simp add: isMarked_line Block_line_addr)

text \<open>What the loop does from line \<open>i\<close> on, with no hole open and \<open>p\<close> the last hole written.\<close>

definition recycled_from :: "addr \<Rightarrow> nat \<Rightarrow> int \<Rightarrow> addr \<Rightarrow> mem \<Rightarrow> bool" where
  "recycled_from block i first p m \<longleftrightarrow> (\<exists>hole m'. recycle_lines block i first 0 p m =
      ret (if first = -1 \<and> holes_from m block i \<noteq> [] then int (fst (hd (holes_from m block i))) else first, hole, m') \<and>
    holes_written m (close_last m' hole block) block i p (holes_from m block i))"

lemma recycled_skip:
  assumes i: "i < 127" and p: "hole_before p block i"
    and m1: "m1 = (if line_marked m block i then m else memzero m (block + 16 + i) 1)"
    and step: "recycle_lines block i first 0 p m = recycle_lines block (i + 1) first 0 p m1"
    and spec: "holes_from m block i = holes_from m block (i + 1)"
    and rest: "recycled_from block (i + 1) first p m1"
  shows "recycled_from block i first p m"
proof -
  have "line_marks m1 block (i + 1) = line_marks m block (i + 1)"
    by (rule line_marks_cong) (auto simp: m1 line_marked_def memzero_def)
  with rest spec obtain hole m' where r: "recycle_lines block (i + 1) first 0 p m1 =
      ret (if first = -1 \<and> holes_from m block i \<noteq> [] then int (fst (hd (holes_from m block i))) else first, hole, m')"
    "holes_written m1 (close_last m' hole block) block (i + 1) p (holes_from m block i)"
    by (auto simp: recycled_from_def)
  have "holes_written m (close_last m' hole block) block i p (holes_from m block i)"
    by (rule holes_written_skip [OF r(2) i m1]) (use p hole_spec_props [of _ _ "i + 1" "line_marks m block (i + 1)"] spec in fastforce)+
  with r(1) step show ?thesis by (auto simp: recycled_from_def)
qed

lemma recycle_clears:
  assumes i: "i < 127" and un: "\<not> line_marked m block i" and last: "i = 126 \<or> line_marked m block (i + 1)"
  shows "recycle_lines block i first 0 p m = recycle_lines block (i + 1) first 0 p (memzero m (block + 16 + i) 1)"
proof -
  have "LineHeader_isMarked (memzero m (block + 16 + i) 1) (Block_lineHeaders block + i + 1) = line_marked m block (i + 1)"
    using isMarked_line [of "memzero m (block + 16 + i) 1" block "i + 1"] by (simp add: line_marked_def memzero_def)
  moreover have "LineHeader_clear m (Block_lineHeaders block + i) = memzero m (block + 16 + i) 1"
    by (simp add: LineHeader_clear_memzero Block_lineHeaders_def)
  ultimately show ?thesis
    using un i last by (subst recycle_lines.simps) (auto simp: isMarked_line Let_def)
qed

text \<open>An unmarked line in front of another one opens a hole, and the loop clears the run of unmarked lines behind it.\<close>

lemma recycle_opens:
  assumes e: "i + 2 \<le> e" "e \<le> 127" and p: "hole_before p block i"
    and un: "\<And>k. i \<le> k \<Longrightarrow> k < e \<Longrightarrow> \<not> line_marked m block k"
  shows "recycle_lines block i first 0 p m = recycle_lines block e (if first = -1 then int (i + 1) else first)
    (line_addr block (i + 1)) p (run_memory m block i e p)"
proof -
  let ?l = "line_addr block (i + 1)" and ?f = "if first = -1 then int (i + 1) else first"
  let ?m1 = "memzero m (block + 16 + i) 1" and ?m2 = "Hole_init (memzero m (block + 16 + i) 2) ?l"
  let ?m3 = "if p \<noteq> 0 then Hole_set_next ?m2 p ?l else ?m2"
  have u: "\<not> line_marked m block i" "\<not> line_marked m block (i + 1)" by (rule un; use e in simp)+
  have l0: "?l \<noteq> 0" by (simp add: line_addr_def)
  have clr: "LineHeader_clear m (Block_lineHeaders block + i) = ?m1"
    by (simp add: LineHeader_clear_memzero Block_lineHeaders_def)
  have clr2: "LineHeader_clear ?m1 (Block_lineHeaders block + i + 1) = memzero m (block + 16 + i) 2"
    using memzero_memzero [of m "block + 16 + i" 1 1]
    by (simp add: LineHeader_clear_memzero Block_lineHeaders_def add.assoc numeral_2_eq_2)
  have "LineHeader_isMarked ?m1 (Block_lineHeaders block + i + 1) = line_marked m block (i + 1)"
    using isMarked_line [of ?m1 block "i + 1"] by (simp add: line_marked_def memzero_def)
  then have "recycle_lines block i first 0 p m = recycle_lines block (i + 2) ?f ?l p ?m3"
    using u e clr2 by (subst recycle_lines.simps) (simp add: isMarked_line clr Let_def Block_line_addr_Suc)
  also have "\<dots> = recycle_lines block e ?f ?l p (run_memory m block i e p)"
  proof -
    have "?m3 (block + 16 + k) = m (block + 16 + k)" if "i + 2 \<le> k" "k < 127" for k
      using that p by (auto simp: Hole_set_next_def Hole_set_limit_def Hole_init_def store_frame line_addr_def memzero_def)
    then have "\<not> line_marked ?m3 block k" if "i + 2 \<le> k" "k < e" for k
      using that e un [of k] by (simp add: line_marked_def)
    from recycle_open [OF e l0 this, where first = ?f and p = p] show ?thesis by (simp add: run_memory_def Let_def)
  qed
  finally show ?thesis .
qed

text \<open>The last hole reaches the end of the block, and is closed after the loop.\<close>

lemma recycled_run_last:
  assumes b: "block + 32768 < 2 ^ 64" and e: "i + 2 \<le> 127" and p: "hole_before p block i"
    and un: "\<And>k. i \<le> k \<Longrightarrow> k < 127 \<Longrightarrow> \<not> line_marked m block k"
    and hs: "holes_from m block i = [(i + 1, 127)]"
  shows "recycled_from block i first p m"
proof -
  let ?l = "line_addr block (i + 1)" and ?m = "run_memory m block i 127 p"
  note R = run_memory_spec [OF b e order_refl p, where m = m]
  have "close_last ?m ?l block = Hole_set_limit ?m ?l (line_addr block 127)"
    using R(6) by (simp add: close_last_def Block_stop_def line_addr_def add.commute)
  moreover have "holes_written m (Hole_set_limit ?m ?l (line_addr block 127)) block i p [(i + 1, 127)]"
    by (rule holes_written_run [OF b e order_refl un p refl]) (simp_all add: holes_written_def)
  moreover have "recycle_lines block 127 f ?l p ?m = ret (f, ?l, ?m)" for f by (subst recycle_lines.simps) simp
  with recycle_opens [OF e order_refl p un]
  have "recycle_lines block i first 0 p m = ret (if first = -1 then int (i + 1) else first, ?l, ?m)" by simp
  ultimately show ?thesis by (simp add: recycled_from_def hs)
qed

text \<open>A marked line closes the hole, and the loop goes on behind it.\<close>

lemma recycled_run:
  assumes b: "block + 32768 < 2 ^ 64" and e2: "i + 2 \<le> e" and e: "e < 127" and p: "hole_before p block i"
    and un: "\<And>k. i \<le> k \<Longrightarrow> k < e \<Longrightarrow> \<not> line_marked m block k" and mke: "line_marked m block e"
    and hs: "holes_from m block i = (i + 1, e) # holes_from m block e"
    and rest: "\<And>first m. recycled_from block (e + 1) first (line_addr block (i + 1)) m"
  shows "recycled_from block i first p m"
proof -
  let ?l = "line_addr block (i + 1)" and ?f = "if first = -1 then int (i + 1) else first"
  let ?m = "run_memory m block i e p"
  let ?m1 = "Hole_set_limit ?m ?l (line_addr block e)"
  have e': "e \<le> 127" using e by simp
  have mk: "line_marked ?m1 block k = line_marked m block k" if "e \<le> k" "k < 127" for k
    using that run_memory_spec(5) [OF b e2 e' p, where m = m and a = "block + 16 + k"] p by (auto simp: line_marked_def line_addr_def)
  have "line_marked ?m block e = line_marked ?m1 block e"
    using e by (simp add: line_marked_def Hole_set_limit_def store_frame line_addr_def)
  with mke mk [of e] e have "recycle_lines block e ?f ?l p ?m = recycle_lines block (e + 1) ?f 0 ?l ?m1"
    by (intro recycle_marked e) (simp_all add: line_addr_def)
  with recycle_opens [OF e2 e' p un] have step: "recycle_lines block i first 0 p m = recycle_lines block (e + 1) ?f 0 ?l ?m1" by simp
  have "line_marks ?m1 block (e + 1) = line_marks m block (e + 1)" by (rule line_marks_cong) (use mk in auto)
  moreover have "holes_from m block e = holes_from m block (e + 1)"
    using mke line_marks_Cons [OF e, of m block] by simp
  ultimately have hs1: "holes_from ?m1 block (e + 1) = holes_from m block e" by simp
  have "?f \<noteq> -1" by simp
  with rest [of ?f ?m1] obtain hole m' where r: "recycle_lines block (e + 1) ?f 0 ?l ?m1 = ret (?f, hole, m')"
    "holes_written ?m1 (close_last m' hole block) block (e + 1) ?l (holes_from m block e)"
    unfolding recycled_from_def hs1 by auto
  have after: "e < fst h" if "h \<in> set (holes_from m block e)" for h
    using hole_spec_props [of "fst h" "snd h" e "line_marks m block e"] that by simp
  have "holes_written ?m1 (close_last m' hole block) block e ?l (holes_from m block e)"
    by (rule holes_written_skip [OF r(2) e]) (use mk [of e] mke e after in \<open>auto simp: line_addr_def\<close>)
  then have "holes_written m (close_last m' hole block) block i p (holes_from m block i)"
    unfolding hs by - (rule holes_written_run [OF b e2 e' _ p refl], erule (1) un, assumption, erule after)
  with step r(1) show ?thesis by (auto simp: recycled_from_def hs)
qed

lemma recycled_from_any:
  assumes b: "block + 32768 < 2 ^ 64" and "i \<le> 127" and "hole_before p block i"
  shows "recycled_from block i first p m"
  using assms(2,3)
proof (induction "127 - i" arbitrary: i first p m rule: less_induct)
  case (less i first p m)
  show ?case
  proof (cases "i = 127")
    case True
    then show ?thesis by (simp add: recycled_from_def recycle_lines.simps holes_written_def close_last_def in_hole_words_def)
  next
    case i: False
    then have i127: "i < 127" using less.prems(1) by simp
    have "hole_before p block (i + 1)" using less.prems(2) by (auto simp: line_addr_def)
    then have IH: "recycled_from block (i + 1) first p m1" for m1 using i127 by (intro less.hyps) auto
    have ms: "line_marks m block i = line_marked m block i # line_marks m block (i + 1)" by (rule line_marks_Cons [OF i127])
    show ?thesis
    proof (cases "line_marked m block i")
      case True
      show ?thesis
        by (rule recycled_skip [where ?m1.0 = m, OF i127 less.prems(2) _ _ _ IH])
          (use True i127 ms in \<open>simp_all add: recycle_lines.simps [of block i] isMarked_line\<close>)
    next
      case un: False
      define n where "n = length (takeWhile Not (line_marks m block (i + 1)))"
      have i1: "i + 1 \<le> 127" using i127 by simp
      note run = line_marks_run [OF i1 n_def]
      have spec: "holes_from m block i = (if n = 0 then [] else [(i + 1, i + 1 + n)]) @ holes_from m block (i + 1 + n)"
        unfolding ms using un run(4) by (simp add: n_def [symmetric] del: One_nat_def)
      have unrun: "\<not> line_marked m block k" if "i \<le> k" "k < i + 1 + n" for k
        using that un run(2) [of k] by (cases "k = i") auto
      consider "n = 0" | "0 < n" "i + 1 + n = 127" | "0 < n" "i + 1 + n < 127" using run(1) by linarith
      then show ?thesis
      proof cases
        case 1
        have "i = 126 \<or> line_marked m block (i + 1)" by (cases "i = 126") (use run(3) 1 i127 in auto)
        with recycle_clears [OF i127 un] show ?thesis
          by (intro recycled_skip [OF i127 less.prems(2) refl _ _ IH]) (use un spec 1 in auto)
      next
        case 2
        then show ?thesis using spec unrun by (intro recycled_run_last [OF b _ less.prems(2)]) auto
      next
        case 3
        show ?thesis
          by (rule recycled_run [OF b _ 3(2) less.prems(2) unrun run(3) [OF 3(2)]])
            (use 3 spec in \<open>auto simp: line_addr_def intro!: less.hyps\<close>)
      qed
    qed
  qed
qed

lemma recycle_lines_spec:
  assumes "block + 32768 < 2 ^ 64" and "i \<le> 127" and "hole_before p block i"
  shows "\<exists>hole m'. recycle_lines block i first 0 p m =
      ret (if first = -1 \<and> holes_from m block i \<noteq> [] then int (fst (hd (holes_from m block i))) else first, hole, m') \<and>
    holes_written m (close_last m' hole block) block i p (holes_from m block i)"
  using recycled_from_any [OF assms] by (simp add: recycled_from_def)

end
