(* ===== verification/Block_Sweep.thy ===== *)
theory Block_Sweep
  imports Recycle
begin

text \<open>
  The sweep of the small object space on top of \<open>Recycle\<close>: what one round of the loop does to a block and to the two
  block lists, then the whole loop, and what it means for marked objects.
\<close>

section \<open>One block\<close>

lemma BlockList_push_frame:
  assumes "block_queue m self bs" and "\<not> (b + 8 \<le> a \<and> a < b + 16)" and "\<And>x. x \<in> set bs \<Longrightarrow> \<not> (x + 8 \<le> a \<and> a < x + 16)"
    and push: "BlockList_push self m b = (self', m')"
  shows "m' a = m a"
proof -
  have s: "Block_set_next mm x v a = mm a" if "\<not> (x + 8 \<le> a \<and> a < x + 16)" for mm x v
    using that by (auto simp: Block_set_next_def intro!: store_frame)
  show ?thesis
  proof (cases "bs = []")
    case True
    with assms(1) BlockList_isEmpty_iff push s [OF assms(2)] show ?thesis
      by (auto simp: BlockList_push_def Let_def)
  next
    case False
    then have "bl_last self \<in> set bs" using assms(1) by (auto simp: block_queue_def list_nodes_def)
    from s [OF assms(3) [OF this]] False assms(1) BlockList_isEmpty_iff push s [OF assms(2)] show ?thesis
      by (auto simp: BlockList_push_def Let_def)
  qed
qed

text \<open>What a round does to one block \<open>b\<close>, apart from its link.\<close>

definition recycled :: "mem \<Rightarrow> mem \<Rightarrow> addr \<Rightarrow> bool" where
  "recycled m m' b \<longleftrightarrow>
     (if Block_isMarked m b
      then (\<forall>k < 127. m' (b + 16 + k) = (if line_marked m b k then m (b + 16 + k) else 0)) \<and>
           (if block_holes m b = [] then Block_isUnavailable m' b
            else Block_isRecyclable m' b \<and> hole_chain m' b (block_holes m b) \<and>
                 Block_first_free_line_index m' b = int (fst (hd (block_holes m b)))) \<and>
           (\<forall>a. b + 256 \<le> a \<longrightarrow> a < b + 32768 \<longrightarrow> \<not> in_hole_words b (block_holes m b) a \<longrightarrow> m' a = m a)
      else Block_isFree m' b \<and> (\<forall>k < 127. m' (b + 16 + k) = 0) \<and>
           (\<forall>a. b + 256 \<le> a \<longrightarrow> a < b + 32768 \<longrightarrow> m' a = m a))"

lemma recycled_cong:
  assumes "recycled m m' b" and "\<And>a. b \<le> a \<Longrightarrow> a < b + 32768 \<Longrightarrow> \<not> (b + 8 \<le> a \<and> a < b + 16) \<Longrightarrow> m'' a = m' a"
    and "\<And>h. h \<in> set (block_holes m b) \<Longrightarrow> fst h < 127"
  shows "recycled m m'' b"
proof -
  have "Block_flag m'' b = Block_flag m' b" "Block_first_free_line_index m'' b = Block_first_free_line_index m' b"
    unfolding Block_flag_def Block_first_free_line_index_def
    by (auto intro!: load_cong arg_cong [where f = int16] assms(2))
  moreover have "hole_chain m'' b (block_holes m b)" if "hole_chain m' b (block_holes m b)"
    by (rule hole_chain_cong [OF that], rule assms(2)) (use assms(3) in \<open>fastforce simp: in_hole_words_def line_addr_def\<close>)+
  ultimately show ?thesis
    using assms(1,2) unfolding recycled_def Block_isFree_def Block_isRecyclable_def Block_isUnavailable_def
    by (simp split: if_splits)
qed

lemma block_holes_bound: "h \<in> set (block_holes m b) \<Longrightarrow> 0 < fst h \<and> fst h < snd h \<and> snd h \<le> 127"
  using hole_spec_props [of "fst h" "snd h" 0 "line_marks m b 0"] by (auto simp: block_holes_def)

text \<open>A marked block: its headers, its holes, its flag.\<close>

lemma recycle_marked_block:
  assumes b: "b + 32768 < 2 ^ 64"
  shows "\<exists>hole m1. recycle_lines b 0 (-1) 0 0 m =
      ret (if block_holes m b \<noteq> [] then int (fst (hd (block_holes m b))) else -1, hole, m1) \<and>
    holes_written m (close_last m1 hole b) b 0 0 (block_holes m b)"
  using recycle_lines_spec [OF b, of 0 0 "-1" m] by (auto simp: block_holes_def)

lemma recycled_marked:
  assumes "Block_isMarked m b" and w: "holes_written m m1 b 0 0 (block_holes m b)" and "b + 32768 < 2 ^ 64"
    and m2: "m2 = (if block_holes m b = [] then Block_setUnavailable m1 b
                   else Block_setRecyclable m1 b (int (fst (hd (block_holes m b)))))"
  shows "recycled m m2 b" and "\<And>a. \<not> (b \<le> a \<and> a < b + 32768) \<Longrightarrow> m2 a = m a"
proof -
  have same: "m2 a = m1 a" if "\<not> (b < a \<and> a < b + 4)" for a
    using that by (auto simp: m2 Block_setUnavailable_def Block_setRecyclable_def store_frame)
  have inside: "b + 256 \<le> a \<and> a < b + 32768" if "in_hole_words b (block_holes m b) a" for a
  proof -
    from that obtain h where h: "h \<in> set (block_holes m b)" "line_addr b (fst h) \<le> a" "a < line_addr b (fst h) + 16"
      unfolding in_hole_words_def by blast
    from block_holes_bound [OF h(1)] have "fst h \<le> 126" by linarith
    then have "line_addr b (fst h) \<le> b + 256 + 126 * 256" by (simp add: line_addr_def)
    moreover have "b + 256 \<le> line_addr b (fst h)" by (simp add: line_addr_def)
    ultimately show ?thesis using h by linarith
  qed
  have chain: "hole_chain m2 b (block_holes m b)"
  proof (rule hole_chain_cong)
    show "hole_chain m1 b (block_holes m b)" using w by (simp add: holes_written_def)
    show "m2 a = m1 a" if "in_hole_words b (block_holes m b) a" for a using inside [OF that] same by simp
  qed
  have idx: "fst (hd (block_holes m b)) < 127" if "block_holes m b \<noteq> []"
    using block_holes_bound [of "hd (block_holes m b)" m b] that by auto
  have flag: "if block_holes m b = [] then Block_isUnavailable m2 b
      else Block_isRecyclable m2 b \<and> Block_first_free_line_index m2 b = int (fst (hd (block_holes m b)))"
    using idx
    by (auto simp: m2 Block_setUnavailable_def Block_setRecyclable_def Block_isUnavailable_def Block_isRecyclable_def
        Block_flag_def Block_first_free_line_index_def int16_def load_store_same load_store_other nat_mod_distrib)
  have outer: "m1 a = m a" if "\<not> (b + 16 \<le> a \<and> a < b + 143)" "\<not> in_hole_words b (block_holes m b) a" for a
    using w that by (auto simp: holes_written_def)
  have hdr: "m2 (b + 16 + k) = (if line_marked m b k then m (b + 16 + k) else 0)" if "k < 127" for k
    using w that same [of "b + 16 + k"] by (auto simp: holes_written_def)
  show "recycled m m2 b"
    using assms(1) chain flag hdr outer same by (auto simp: recycled_def)
  show "m2 a = m a" if "\<not> (b \<le> a \<and> a < b + 32768)" for a
  proof -
    have "\<not> in_hole_words b (block_holes m b) a" using that inside [of a] by auto
    then have "m1 a = m a" by (intro outer) (use that in auto)
    moreover have "m2 a = m1 a" by (rule same) (use that in auto)
    ultimately show ?thesis by simp
  qed
qed

text \<open>The lists and the heap of a state, as the loop changes them.\<close>

definition with_lists :: "'a gheap_scheme \<Rightarrow> BlockList \<Rightarrow> BlockList \<Rightarrow> mem \<Rightarrow> 'a gheap_scheme" where
  "with_lists g fl rl m = g\<lparr>global := (global g)\<lparr>free_list := fl, recyclable_list := rl\<rparr>, heap := m\<rparr>"

lemma with_lists_sel [simp]:
  "heap (with_lists g fl rl m) = m" "free_list (global (with_lists g fl rl m)) = fl"
  "recyclable_list (global (with_lists g fl rl m)) = rl"
  "small_heap_start (global (with_lists g fl rl m)) = small_heap_start (global g)"
  "small_heap_stop (global (with_lists g fl rl m)) = small_heap_stop (global g)"
  "with_lists (with_lists g fl rl m) fl' rl' m' = with_lists g fl' rl' m'"
  by (simp_all add: with_lists_def)

definition free_part :: "mem \<Rightarrow> addr list \<Rightarrow> addr list" where
  "free_part m bs = filter (\<lambda>b. \<not> Block_isMarked m b) bs"

definition recyclable_part :: "mem \<Rightarrow> addr list \<Rightarrow> addr list" where
  "recyclable_part m bs = filter (\<lambda>b. Block_isMarked m b \<and> block_holes m b \<noteq> []) bs"

lemma Block_next_cong: "(\<And>a. b + 8 \<le> a \<Longrightarrow> a < b + 16 \<Longrightarrow> m' a = m a) \<Longrightarrow> Block_next m' b = Block_next m b"
  unfolding Block_next_def by (rule load_cong) auto

text \<open>Pushing onto one queue keeps the other.\<close>

lemma push_two_queues:
  assumes q: "block_queue m l xs" "block_queue m k ys" and b: "is_block b"
    and sub: "b \<notin> set xs" "b \<notin> set ys" "set xs \<inter> set ys = {}"
  shows "\<exists>l' m'. BlockList_push l m b = (l', m') \<and> block_queue m' l' (xs @ [b]) \<and> block_queue m' k ys \<and>
      (\<forall>a. \<not> (b + 8 \<le> a \<and> a < b + 16) \<longrightarrow> (\<forall>x \<in> set xs. \<not> (x + 8 \<le> a \<and> a < x + 16)) \<longrightarrow> m' a = m a)"
proof -
  obtain l' m' where p: "BlockList_push l m b = (l', m')" "block_queue m' l' (xs @ [b])"
    using BlockList_push_queue [OF q(1) b sub(1)] by blast
  have fr: "m' a = m a" if "\<not> (b + 8 \<le> a \<and> a < b + 16)" "\<And>x. x \<in> set xs \<Longrightarrow> \<not> (x + 8 \<le> a \<and> a < x + 16)" for a
    by (rule BlockList_push_frame [OF q(1) that p(1)])
  have "block_queue m' k ys"
  proof (rule block_queue_cong [OF q(2)], rule Block_next_cong, rule fr)
    fix y a assume y: "y \<in> set ys" "y + 8 \<le> a" "a < y + 16"
    have blocks: "is_block y" "\<forall>x \<in> set xs. is_block x" using q y(1) by (auto simp: block_queue_def)
    have "y \<noteq> b" using y(1) sub(2) by auto
    then show "\<not> (b + 8 \<le> a \<and> a < b + 16)" using blocks_disjoint [OF blocks(1) b] y by auto
    show "\<not> (x + 8 \<le> a \<and> a < x + 16)" if "x \<in> set xs" for x
    proof -
      have "x \<noteq> y" "is_block x" using that y(1) sub(3) blocks(2) by auto
      then show ?thesis using blocks_disjoint [of x y] blocks(1) y by auto
    qed
  qed
  with p fr show ?thesis by blast
qed

text \<open>The three cases of a block: no marked object in it, no hole in it, or both.\<close>

definition block_recycled :: "'a gheap_scheme \<Rightarrow> mem \<Rightarrow> BlockList \<Rightarrow> addr list \<Rightarrow> BlockList \<Rightarrow> addr list \<Rightarrow> addr \<Rightarrow> bool" where
  "block_recycled g m fl fs rl rs b \<longleftrightarrow>
     (\<exists>fl' rl' m'. recycle_block (with_lists g fl rl m) b = ret (with_lists g fl' rl' m') \<and>
    block_queue m' fl' (fs @ free_part m [b]) \<and> block_queue m' rl' (rs @ recyclable_part m [b]) \<and> recycled m m' b \<and>
    (\<forall>a. \<not> (b \<le> a \<and> a < b + 32768) \<longrightarrow> (\<forall>x \<in> set fs \<union> set rs. \<not> (x + 8 \<le> a \<and> a < x + 16)) \<longrightarrow> m' a = m a))"

lemma queue_before:
  assumes "block_queue m l xs" and "\<And>x. x \<in> set xs \<Longrightarrow> x + 32768 \<le> b" and "\<And>a. \<not> (b \<le> a \<and> a < b + 32768) \<Longrightarrow> m1 a = m a"
  shows "block_queue m1 l xs"
  by (rule block_queue_cong [OF assms(1)], rule Block_next_cong, rule assms(3)) (use assms(2) in fastforce)

lemma recycle_unmarked_block:
  assumes fl: "block_queue m fl fs" and rl: "block_queue m rl rs" and b: "is_block b"
    and far: "\<And>x. x \<in> set fs \<union> set rs \<Longrightarrow> x + 32768 \<le> b" and dis: "set fs \<inter> set rs = {}" and un: "\<not> Block_isMarked m b"
  shows "block_recycled g m fl fs rl rs b"
proof -
  let ?m1 = "Block_setFree m b"
  have nin: "b \<notin> set fs" "b \<notin> set rs" using far [of b] by auto
  have out: "?m1 a = m a" if "\<not> (b \<le> a \<and> a < b + 144)" for a
    using that by (auto simp: Block_setFree_def Block_init_def memzero_def)
  have q1: "block_queue ?m1 fl fs" "block_queue ?m1 rl rs"
    by (rule queue_before [OF fl, of b]; use far out in auto) (rule queue_before [OF rl, of b]; use far out in auto)
  obtain fl' m' where p: "BlockList_push fl ?m1 b = (fl', m')" "block_queue m' fl' (fs @ [b])" "block_queue m' rl rs"
    "\<And>a. \<not> (b + 8 \<le> a \<and> a < b + 16) \<Longrightarrow> (\<forall>x \<in> set fs. \<not> (x + 8 \<le> a \<and> a < x + 16)) \<Longrightarrow> m' a = ?m1 a"
    using push_two_queues [OF q1 b nin dis] by blast
  have "Block_flag ?m1 b = 0"
    by (simp add: Block_flag_def Block_setFree_def Block_init_def load_memzero_inside)
  then have "recycled m ?m1 b"
    using un out by (auto simp: recycled_def Block_isFree_def) (simp add: Block_setFree_def Block_init_def memzero_def)
  then have "recycled m m' b"
    by (rule recycled_cong) (use p(4) far block_holes_bound in fastforce)+
  moreover have "recycle_block (with_lists g fl rl m) b = ret (with_lists g fl' rl m')"
    using un p(1) by (simp add: recycle_block_def upd_global_def with_lists_def)
  moreover have "m' a = m a" if "\<not> (b \<le> a \<and> a < b + 32768)" "\<forall>x \<in> set fs \<union> set rs. \<not> (x + 8 \<le> a \<and> a < x + 16)" for a
    using p(4) [of a] out [of a] that by auto
  ultimately show ?thesis
    unfolding block_recycled_def
    using p(2,3) un by (intro exI [of _ fl'] exI [of _ rl] exI [of _ m']) (simp add: free_part_def recyclable_part_def)
qed

lemma recycle_full_block:
  assumes fl: "block_queue m fl fs" and rl: "block_queue m rl rs" and b: "is_block b"
    and far: "\<And>x. x \<in> set fs \<union> set rs \<Longrightarrow> x + 32768 \<le> b" and mk: "Block_isMarked m b" and nil: "block_holes m b = []"
  shows "block_recycled g m fl fs rl rs b"
proof -
  have b64: "b + 32768 < 2 ^ 64" using b by (simp add: is_block_def)
  obtain hole m0 where r: "recycle_lines b 0 (-1) 0 0 m = ret (-1, hole, m0)"
    "holes_written m (close_last m0 hole b) b 0 0 (block_holes m b)"
    using recycle_marked_block [OF b64, of m] nil by auto
  let ?m2 = "Block_setUnavailable (close_last m0 hole b) b"
  have R: "recycled m ?m2 b" "\<And>a. \<not> (b \<le> a \<and> a < b + 32768) \<Longrightarrow> ?m2 a = m a"
    using recycled_marked [OF mk r(2) b64, of ?m2] nil by auto
  have "recycle_block (with_lists g fl rl m) b = ret (with_lists g fl rl ?m2)"
    using mk r(1) by (simp add: recycle_block_def with_lists_def close_last_def)
  moreover have "block_queue ?m2 fl fs" "block_queue ?m2 rl rs"
    by (rule queue_before [OF fl _ R(2)]; use far in auto) (rule queue_before [OF rl _ R(2)]; use far in auto)
  ultimately show ?thesis
    unfolding block_recycled_def using R nil mk
    by (intro exI [of _ fl] exI [of _ rl] exI [of _ ?m2]) (simp add: free_part_def recyclable_part_def)
qed

lemma recycle_holey_block:
  assumes fl: "block_queue m fl fs" and rl: "block_queue m rl rs" and b: "is_block b"
    and far: "\<And>x. x \<in> set fs \<union> set rs \<Longrightarrow> x + 32768 \<le> b" and dis: "set fs \<inter> set rs = {}"
    and mk: "Block_isMarked m b" and some: "block_holes m b \<noteq> []"
  shows "block_recycled g m fl fs rl rs b"
proof -
  have b64: "b + 32768 < 2 ^ 64" and nin: "b \<notin> set fs" "b \<notin> set rs" using b far [of b] by (auto simp: is_block_def)
  obtain hole m0 where r: "recycle_lines b 0 (-1) 0 0 m = ret (int (fst (hd (block_holes m b))), hole, m0)"
    "holes_written m (close_last m0 hole b) b 0 0 (block_holes m b)"
    using recycle_marked_block [OF b64, of m] some by auto
  let ?m2 = "Block_setRecyclable (close_last m0 hole b) b (int (fst (hd (block_holes m b))))"
  have R: "recycled m ?m2 b" "\<And>a. \<not> (b \<le> a \<and> a < b + 32768) \<Longrightarrow> ?m2 a = m a"
    using recycled_marked [OF mk r(2) b64, of ?m2] some by auto
  have q2: "block_queue ?m2 rl rs" "block_queue ?m2 fl fs"
    by (rule queue_before [OF rl _ R(2)]; use far in auto) (rule queue_before [OF fl _ R(2)]; use far in auto)
  obtain rl' m' where p: "BlockList_push rl ?m2 b = (rl', m')" "block_queue m' rl' (rs @ [b])" "block_queue m' fl fs"
    "\<And>a. \<not> (b + 8 \<le> a \<and> a < b + 16) \<Longrightarrow> (\<forall>x \<in> set rs. \<not> (x + 8 \<le> a \<and> a < x + 16)) \<Longrightarrow> m' a = ?m2 a"
    using push_two_queues [OF q2 b nin(2,1)] dis by blast
  have "recycled m m' b"
    by (rule recycled_cong [OF R(1)]) (use p(4) far block_holes_bound in fastforce)+
  moreover have "recycle_block (with_lists g fl rl m) b = ret (with_lists g fl rl' m')"
    using mk r(1) p(1) some by (simp add: recycle_block_def upd_global_def with_lists_def close_last_def)
  moreover have "m' a = m a" if "\<not> (b \<le> a \<and> a < b + 32768)" "\<forall>x \<in> set fs \<union> set rs. \<not> (x + 8 \<le> a \<and> a < x + 16)" for a
    using p(4) [of a] R(2) [of a] that by auto
  ultimately show ?thesis
    unfolding block_recycled_def using p(2,3) mk some
    by (intro exI [of _ fl] exI [of _ rl'] exI [of _ m']) (simp add: free_part_def recyclable_part_def)
qed

lemma recycle_block_spec:
  assumes "block_queue m fl fs" and "block_queue m rl rs" and "is_block b"
    and "\<And>x. x \<in> set fs \<union> set rs \<Longrightarrow> x + 32768 \<le> b" and "set fs \<inter> set rs = {}"
  shows "\<exists>fl' rl' m'. recycle_block (with_lists g fl rl m) b = ret (with_lists g fl' rl' m') \<and>
    block_queue m' fl' (fs @ free_part m [b]) \<and> block_queue m' rl' (rs @ recyclable_part m [b]) \<and> recycled m m' b \<and>
    (\<forall>a. \<not> (b \<le> a \<and> a < b + 32768) \<longrightarrow> (\<forall>x \<in> set fs \<union> set rs. \<not> (x + 8 \<le> a \<and> a < x + 16)) \<longrightarrow> m' a = m a)"
  unfolding block_recycled_def [symmetric]
  using recycle_unmarked_block [OF assms] recycle_full_block [OF assms(1-4)] recycle_holey_block [OF assms] by blast

section \<open>All blocks\<close>

definition blocks_from :: "addr \<Rightarrow> nat \<Rightarrow> addr list" where
  "blocks_from a n = map (\<lambda>i. a + i * BLOCK_SIZE) [0..<n]"

lemma blocks_from_Suc: "blocks_from a (Suc n) = a # blocks_from (a + BLOCK_SIZE) n"
proof -
  have "map (\<lambda>i. a + i * BLOCK_SIZE) [Suc 0..<Suc n] = map (\<lambda>i. a + BLOCK_SIZE + i * BLOCK_SIZE) [0..<n]"
    unfolding map_Suc_upt [symmetric] map_map by simp
  then show ?thesis by (simp only: blocks_from_def upt_conv_Cons [of 0 "Suc n"] zero_less_Suc list.map) simp
qed

lemma blocks_from_bounds: "b \<in> set (blocks_from a n) \<Longrightarrow> a \<le> b \<and> b + BLOCK_SIZE \<le> a + n * BLOCK_SIZE"
proof -
  assume "b \<in> set (blocks_from a n)"
  then obtain i where i: "i < n" "b = a + i * BLOCK_SIZE" by (auto simp: blocks_from_def)
  have "(i + 1) * BLOCK_SIZE \<le> n * BLOCK_SIZE" using i(1) by (intro mult_le_mono1) simp
  with i(2) show ?thesis by (simp only: add_mult_distrib) simp
qed

lemma blocks_from_blocks:
  "is_block a \<Longrightarrow> a + n * BLOCK_SIZE < 2 ^ 64 \<Longrightarrow> b \<in> set (blocks_from a n) \<Longrightarrow> is_block b"
  using blocks_from_bounds [of b a n] by (auto simp: is_block_def blocks_from_def)

lemma Block_isMarked_cong: "m' b = m b \<Longrightarrow> Block_isMarked m' b = Block_isMarked m b"
  unfolding Block_isMarked_def by (rule arg_cong [where f = "\<lambda>x. x = 1"], rule load_cong) (auto simp: less_Suc_eq_le dest: le_antisym)

lemma recycled_from_cong:
  assumes "\<And>a. b \<le> a \<Longrightarrow> a < b + 32768 \<Longrightarrow> m1 a = m0 a"
  shows "recycled m1 m' b = recycled m0 m' b" and "Block_isMarked m1 b = Block_isMarked m0 b"
    and "block_holes m1 b = block_holes m0 b"
proof -
  show mk: "Block_isMarked m1 b = Block_isMarked m0 b" using assms by (intro Block_isMarked_cong) simp
  have lm: "line_marked m1 b k = line_marked m0 b k" if "k < 127" for k
    using assms [of "b + 16 + k"] that by (simp add: line_marked_def)
  then show bh: "block_holes m1 b = block_holes m0 b"
    unfolding block_holes_def by (intro arg_cong [where f = "hole_spec 0"] line_marks_cong) simp
  show "recycled m1 m' b = recycled m0 m' b"
    unfolding recycled_def mk bh using lm assms by (auto; simp)
qed

text \<open>
  The loop over blocks: from \<open>b\<close> on, with the blocks before \<open>b\<close> already on their lists. Later rounds only
  change links in them.
\<close>

text \<open>What the loop over the blocks has done when it stops, from block \<open>b\<close> on.\<close>

definition blocks_recycled :: "'a gheap_scheme \<Rightarrow> mem \<Rightarrow> BlockList \<Rightarrow> addr list \<Rightarrow> BlockList \<Rightarrow> addr list \<Rightarrow> addr \<Rightarrow> nat \<Rightarrow> bool" where
  "blocks_recycled g m fl fs rl rs b n \<longleftrightarrow>
     (\<exists>fl' rl' m'. recycle_from b (b + n * BLOCK_SIZE) (with_lists g fl rl m) = ret (with_lists g fl' rl' m') \<and>
    block_queue m' fl' (fs @ free_part m (blocks_from b n)) \<and>
    block_queue m' rl' (rs @ recyclable_part m (blocks_from b n)) \<and>
    (\<forall>c \<in> set (blocks_from b n). recycled m m' c) \<and>
    (\<forall>a. \<not> (b \<le> a \<and> a < b + n * BLOCK_SIZE) \<longrightarrow> (\<forall>x \<in> set fs \<union> set rs. \<not> (x + 8 \<le> a \<and> a < x + 16)) \<longrightarrow> m' a = m a))"

lemma recycle_from_step:
  assumes far: "\<And>x. x \<in> set fs \<union> set rs \<Longrightarrow> x + 32768 \<le> b"
    and s: "recycle_block (with_lists g fl rl m) b = ret (with_lists g fl1 rl1 m1)" "recycled m m1 b"
      "\<And>a. \<not> (b \<le> a \<and> a < b + 32768) \<Longrightarrow> (\<forall>x \<in> set fs \<union> set rs. \<not> (x + 8 \<le> a \<and> a < x + 16)) \<Longrightarrow> m1 a = m a"
    and rest: "blocks_recycled g m1 fl1 (fs @ free_part m [b]) rl1 (rs @ recyclable_part m [b]) (b + BLOCK_SIZE) n"
  shows "blocks_recycled g m fl fs rl rs b (Suc n)"
proof -
  let ?c = "b + BLOCK_SIZE"
  have sub: "set (fs @ free_part m [b]) \<union> set (rs @ recyclable_part m [b]) \<subseteq> set fs \<union> set rs \<union> {b}"
    by (auto simp: free_part_def recyclable_part_def)
  obtain fl' rl' m' where r: "recycle_from ?c (?c + n * BLOCK_SIZE) (with_lists g fl1 rl1 m1) = ret (with_lists g fl' rl' m')"
    "block_queue m' fl' ((fs @ free_part m [b]) @ free_part m1 (blocks_from ?c n))"
    "block_queue m' rl' ((rs @ recyclable_part m [b]) @ recyclable_part m1 (blocks_from ?c n))"
    "\<forall>d \<in> set (blocks_from ?c n). recycled m1 m' d"
    "\<And>a. \<not> (?c \<le> a \<and> a < ?c + n * BLOCK_SIZE) \<Longrightarrow>
      (\<forall>x \<in> set (fs @ free_part m [b]) \<union> set (rs @ recyclable_part m [b]). \<not> (x + 8 \<le> a \<and> a < x + 16)) \<Longrightarrow> m' a = m1 a"
    using rest unfolding blocks_recycled_def by blast
  have later: "m1 a = m a" if "d \<in> set (blocks_from ?c n)" "d \<le> a" for d a
    using blocks_from_bounds [OF that(1)] that(2) far by (intro s(3)) fastforce+
  note L = recycled_from_cong [OF later]
  have parts: "free_part m1 (blocks_from ?c n) = free_part m (blocks_from ?c n)"
    "recyclable_part m1 (blocks_from ?c n) = recyclable_part m (blocks_from ?c n)"
    using L unfolding free_part_def recyclable_part_def by (auto intro!: filter_cong)
  have "recycled m m' b"
  proof (rule recycled_cong [OF s(2)])
    fix a assume a: "b \<le> a" "a < b + 32768" "\<not> (b + 8 \<le> a \<and> a < b + 16)"
    then show "m' a = m1 a" using sub far by (intro r(5)) fastforce+
  qed (use block_holes_bound in fastforce)
  moreover have "\<forall>d \<in> set (blocks_from ?c n). recycled m m' d" using r(4) L by auto
  moreover have "m' a = m a" if "\<not> (b \<le> a \<and> a < b + Suc n * BLOCK_SIZE)"
    "\<forall>x \<in> set fs \<union> set rs. \<not> (x + 8 \<le> a \<and> a < x + 16)" for a
  proof -
    have "m' a = m1 a" using that sub by (intro r(5)) fastforce+
    moreover have "m1 a = m a" using that by (intro s(3)) auto
    ultimately show ?thesis by simp
  qed
  moreover have "recycle_from b (b + Suc n * BLOCK_SIZE) (with_lists g fl rl m) = ret (with_lists g fl' rl' m')"
    using s(1) r(1) by (subst recycle_from.simps) (simp add: add.assoc)
  ultimately show ?thesis
    unfolding blocks_recycled_def using r(2,3) unfolding parts
    by (intro exI [of _ fl'] exI [of _ rl'] exI [of _ m'])
      (simp add: blocks_from_Suc free_part_def recyclable_part_def split: if_splits)
qed

lemma blocks_recycled_any:
  assumes "block_queue m fl fs" and "block_queue m rl rs" and "is_block b \<or> n = 0" and "b + n * BLOCK_SIZE < 2 ^ 64"
    and "\<And>x. x \<in> set fs \<union> set rs \<Longrightarrow> x + 32768 \<le> b" and "set fs \<inter> set rs = {}"
  shows "blocks_recycled g m fl fs rl rs b n"
  using assms
proof (induction n arbitrary: b fl rl m fs rs)
  case 0
  then show ?case unfolding blocks_recycled_def
    by (intro exI [of _ fl] exI [of _ rl] exI [of _ m]) (simp add: recycle_from.simps blocks_from_def free_part_def recyclable_part_def)
next
  case (Suc n)
  have b: "is_block b" using Suc.prems(3) by simp
  obtain fl1 rl1 m1 where s: "recycle_block (with_lists g fl rl m) b = ret (with_lists g fl1 rl1 m1)"
    "block_queue m1 fl1 (fs @ free_part m [b])" "block_queue m1 rl1 (rs @ recyclable_part m [b])" "recycled m m1 b"
    "\<And>a. \<not> (b \<le> a \<and> a < b + 32768) \<Longrightarrow> (\<forall>x \<in> set fs \<union> set rs. \<not> (x + 8 \<le> a \<and> a < x + 16)) \<Longrightarrow> m1 a = m a"
    using recycle_block_spec [OF Suc.prems(1,2) b Suc.prems(5,6), of g] by blast
  have "n \<noteq> 0 \<Longrightarrow> n * BLOCK_SIZE \<ge> BLOCK_SIZE" by simp
  with b Suc.prems(4) have c: "is_block (b + BLOCK_SIZE) \<or> n = 0" "b + BLOCK_SIZE + n * BLOCK_SIZE < 2 ^ 64"
    by (auto simp: is_block_def)
  have below: "x + 32768 \<le> b + BLOCK_SIZE" if "x \<in> set (fs @ free_part m [b]) \<union> set (rs @ recyclable_part m [b])" for x
  proof -
    have "x \<in> set fs \<union> set rs \<or> x = b" using that by (auto simp: free_part_def recyclable_part_def split: if_splits)
    then show ?thesis using Suc.prems(5) [of x] by auto
  qed
  have dis: "set (fs @ free_part m [b]) \<inter> set (rs @ recyclable_part m [b]) = {}"
    using Suc.prems(5) [of b] Suc.prems(6) by (auto simp: free_part_def recyclable_part_def)
  show ?case by (rule recycle_from_step [OF Suc.prems(5) s(1,4,5) Suc.IH [OF s(2,3) c below dis]])
qed

lemma recycle_from_spec:
  assumes "block_queue m fl fs" and "block_queue m rl rs" and "is_block b" and "b + n * BLOCK_SIZE < 2 ^ 64"
    and "\<And>x. x \<in> set fs \<union> set rs \<Longrightarrow> x + 32768 \<le> b" and "set fs \<inter> set rs = {}"
  shows "\<exists>fl' rl' m'. recycle_from b (b + n * BLOCK_SIZE) (with_lists g fl rl m) = ret (with_lists g fl' rl' m') \<and>
    block_queue m' fl' (fs @ free_part m (blocks_from b n)) \<and>
    block_queue m' rl' (rs @ recyclable_part m (blocks_from b n)) \<and>
    (\<forall>c \<in> set (blocks_from b n). recycled m m' c) \<and>
    (\<forall>a. \<not> (b \<le> a \<and> a < b + n * BLOCK_SIZE) \<longrightarrow> (\<forall>x \<in> set fs \<union> set rs. \<not> (x + 8 \<le> a \<and> a < x + 16)) \<longrightarrow> m' a = m a)"
  unfolding blocks_recycled_def [symmetric] by (rule blocks_recycled_any [OF assms(1,2) disjI1 [OF assms(3)] assms(4-6)])

section \<open>Which lines are in a hole\<close>

lemma hole_spec_covers:
  "\<lbrakk>i < j; j < i + length ms; \<not> ms ! (j - i); \<not> ms ! (j - 1 - i)\<rbrakk> \<Longrightarrow> \<exists>h \<in> set (hole_spec i ms). fst h \<le> j \<and> j < snd h"
proof (induction i ms rule: hole_spec.induct)
  case (2 i marked ms)
  have shift: "(marked # ms) ! (j - i) = ms ! (j - (i + 1))" using "2.prems"(1) by (simp add: nth_Cons')
  show ?case
  proof (cases marked)
    case True
    have "j - 1 - i \<noteq> 0" using "2.prems"(4) True by (cases "j - 1 - i") auto
    then have j: "i + 1 < j" "(marked # ms) ! (j - 1 - i) = ms ! (j - 1 - (i + 1))" by (auto simp: nth_Cons')
    have "\<exists>h \<in> set (hole_spec (i + 1) ms). fst h \<le> j \<and> j < snd h"
      by (rule "2.IH"(1) [OF True j(1)]) (use "2.prems" shift j(2) in auto)
    with True show ?thesis by simp
  next
    case False
    let ?n = "length (takeWhile Not ms)" and ?r = "dropWhile Not ms"
    have len: "?n + length ?r = length ms" by (metis length_append takeWhile_dropWhile_id)
    have drop: "ms ! (?n + k) = ?r ! k" for k
      using nth_append_length_plus [of "takeWhile Not ms" ?r k] by (simp only: takeWhile_dropWhile_id)
    show ?thesis
    proof (cases "j < i + 1 + ?n")
      case True
      then show ?thesis using False "2.prems"(1) by (auto simp: Let_def)
    next
      case past: False
      have "j \<noteq> i + 1 + ?n"
      proof
        assume eq: "j = i + 1 + ?n"
        have ne: "?r \<noteq> []" using "2.prems"(2) len unfolding eq by (cases ?r) simp_all
        have "ms ! (j - (i + 1)) = hd ?r" using drop [of 0] ne unfolding eq by (simp add: hd_conv_nth)
        with hd_dropWhile [OF ne] have "ms ! (j - (i + 1))" by simp
        with "2.prems"(3) shift show False by simp
      qed
      with past have lt: "i + 1 + ?n < j" by simp
      have "\<exists>h \<in> set (hole_spec (i + 1 + ?n) ?r). fst h \<le> j \<and> j < snd h"
      proof (rule "2.IH"(2) [OF False refl lt])
        show "j < i + 1 + ?n + length ?r" using "2.prems"(2) len by simp
        show "\<not> ?r ! (j - (i + 1 + ?n))" using "2.prems"(3) shift drop [of "j - (i + 1 + ?n)"] lt by simp
        have "(marked # ms) ! (j - 1 - i) = ms ! (?n + (j - 1 - (i + 1 + ?n)))" using lt by (simp add: nth_Cons')
        then show "\<not> ?r ! (j - 1 - (i + 1 + ?n))" using "2.prems"(4) drop [of "j - 1 - (i + 1 + ?n)"] by simp
      qed
      moreover have "set (hole_spec (i + 1 + ?n) ?r) \<subseteq> set (hole_spec i (marked # ms))"
        using False by (simp only: hole_spec.simps Let_def if_False set_append) blast
      ultimately show ?thesis by blast
    qed
  qed
qed simp

lemma in_hole_iff:
  assumes "j < 127"
  shows "(\<exists>h \<in> set (block_holes m b). fst h \<le> j \<and> j < snd h) \<longleftrightarrow>
    0 < j \<and> \<not> line_marked m b j \<and> \<not> line_marked m b (j - 1)"
proof -
  have nth: "line_marks m b 0 ! k = line_marked m b k" if "k < 127" for k
    using that by (simp add: line_marks_def)
  show ?thesis
  proof
    assume "\<exists>h \<in> set (block_holes m b). fst h \<le> j \<and> j < snd h"
    then obtain h where h: "(fst h, snd h) \<in> set (hole_spec 0 (line_marks m b 0))" "fst h \<le> j" "j < snd h"
      by (auto simp: block_holes_def)
    from hole_spec_props [OF h(1)] h(2,3) nth assms
    show "0 < j \<and> \<not> line_marked m b j \<and> \<not> line_marked m b (j - 1)" by auto
  next
    assume "0 < j \<and> \<not> line_marked m b j \<and> \<not> line_marked m b (j - 1)"
    then show "\<exists>h \<in> set (block_holes m b). fst h \<le> j \<and> j < snd h"
      unfolding block_holes_def using assms nth by (intro hole_spec_covers) auto
  qed
qed

text \<open>The line an address of the block is in.\<close>

definition line_of :: "addr \<Rightarrow> addr \<Rightarrow> nat" where
  "line_of b a = (a - (b + 256)) div 256"

lemma line_of_bounds: "b + 256 \<le> a \<Longrightarrow> line_addr b (line_of b a) \<le> a \<and> a < line_addr b (line_of b a) + 256"
  unfolding line_of_def line_addr_def using div_mult_mod_eq [of "a - (b + 256)" 256] by (auto simp: algebra_simps)

lemma line_of_less: "b + 256 \<le> a \<Longrightarrow> a < b + 32768 \<Longrightarrow> line_of b a < 127"
  unfolding line_of_def by (rule less_mult_imp_div_less) simp

lemma hole_words_line: "in_hole_words b hs a \<Longrightarrow> \<exists>h \<in> set hs. line_of b a = fst h"
proof -
  assume "in_hole_words b hs a"
  then obtain h where h: "h \<in> set hs" "line_addr b (fst h) \<le> a" "a < line_addr b (fst h) + 16"
    unfolding in_hole_words_def by blast
  have "line_of b a = fst h"
    unfolding line_of_def using h(2,3) by (intro div_nat_eqI) (auto simp: line_addr_def)
  with h(1) show ?thesis by blast
qed

text \<open>
  How the collector marks: the line an object begins in when it is at most one line long, otherwise every line it
  has a byte in.
\<close>

definition lines_marked_for :: "mem \<Rightarrow> addr \<Rightarrow> addr \<Rightarrow> nat \<Rightarrow> bool" where
  "lines_marked_for m b obj sz \<longleftrightarrow>
     (if sz \<le> 256 then line_marked m b (line_of b obj)
      else (\<forall>a. obj \<le> a \<longrightarrow> a < obj + sz \<longrightarrow> line_marked m b (line_of b a)))"

lemma marked_object_lines:
  assumes mk: "lines_marked_for m b obj sz" and a: "obj \<le> a" "a < obj + sz" and o: "b + 256 \<le> obj"
  shows "line_marked m b (line_of b a) \<or> (0 < line_of b a \<and> line_marked m b (line_of b a - 1))"
proof (cases "sz \<le> 256")
  case False
  with mk a show ?thesis by (simp add: lines_marked_for_def)
next
  case True
  have "line_of b a = line_of b obj \<or> line_of b a = Suc (line_of b obj)"
  proof -
    have "line_of b obj \<le> line_of b a" unfolding line_of_def using a(1) o by (intro div_le_mono) simp
    moreover have "line_of b a \<le> line_of b (obj + 256)"
      unfolding line_of_def using a(2) True o by (intro div_le_mono) simp
    moreover have "line_of b (obj + 256) = Suc (line_of b obj)" unfolding line_of_def using o by simp
    ultimately show ?thesis by linarith
  qed
  with True mk show ?thesis by (auto simp: lines_marked_for_def)
qed

section \<open>The whole sweep\<close>

lemma recycle_blocks_spec:
  assumes "is_block (small_heap_start (global g))"
    and "small_heap_stop (global g) = small_heap_start (global g) + n * BLOCK_SIZE" and "small_heap_stop (global g) < 2 ^ 64"
  shows "\<exists>fl rl m'. GlobalAllocator_recycleBlocks g = ret (with_lists g fl rl m') \<and>
    block_queue m' fl (free_part (heap g) (blocks_from (small_heap_start (global g)) n)) \<and>
    block_queue m' rl (recyclable_part (heap g) (blocks_from (small_heap_start (global g)) n)) \<and>
    (\<forall>b \<in> set (blocks_from (small_heap_start (global g)) n). recycled (heap g) m' b) \<and>
    (\<forall>a. \<not> (small_heap_start (global g) \<le> a \<and> a < small_heap_stop (global g)) \<longrightarrow> m' a = heap g a)"
proof -
  let ?fl = "BlockList_clear (free_list (global g))" and ?rl = "BlockList_clear (recyclable_list (global g))"
  have "GlobalAllocator_recycleBlocks g = recycle_from (small_heap_start (global g))
      (small_heap_start (global g) + n * BLOCK_SIZE) (with_lists g ?fl ?rl (heap g))"
    using assms(2) by (simp add: GlobalAllocator_recycleBlocks_def upd_global_def with_lists_def Let_def)
  with recycle_from_spec [OF BlockList_clear_queue BlockList_clear_queue assms(1), where m = "heap g" and n = n and g = g] assms(2,3)
  show ?thesis by fastforce
qed

text \<open>An object whose lines are marked by the collector's rule.\<close>

lemma recycled_keeps_object:
  assumes "recycled m m' b" and "Block_isMarked m b" and "lines_marked_for m b obj sz"
    and "b + 256 \<le> obj" and "obj + sz \<le> b + 32768" and "0 < sz"
  shows "same_bytes m m' obj (obj + sz) \<and>
    (\<forall>h \<in> set (block_holes m b). obj + sz \<le> line_addr b (fst h) \<or> line_addr b (snd h) \<le> obj)"
proof -
  have no_hole: "\<not> (fst h \<le> line_of b a \<and> line_of b a < snd h)" if "h \<in> set (block_holes m b)" "obj \<le> a" "a < obj + sz" for h a
  proof -
    have "line_of b a < 127" by (rule line_of_less) (use that assms in auto)
    with in_hole_iff [of "line_of b a" m b] marked_object_lines [OF assms(3) that(2,3) assms(4)] that(1) show ?thesis by auto
  qed
  have "m a = m' a" if a: "obj \<le> a" "a < obj + sz" for a
  proof -
    have "\<not> in_hole_words b (block_holes m b) a"
      using hole_words_line [of b "block_holes m b" a] no_hole [OF _ a] block_holes_bound [of _ m b] by fastforce
    with assms a show ?thesis by (auto simp: recycled_def)
  qed
  moreover have "obj + sz \<le> line_addr b (fst h) \<or> line_addr b (snd h) \<le> obj" if h: "h \<in> set (block_holes m b)" for h
  proof (rule ccontr)
    assume "\<not> ?thesis"
    then have "\<exists>a. obj \<le> a \<and> a < obj + sz \<and> line_addr b (fst h) \<le> a \<and> a < line_addr b (snd h)"
      using block_holes_bound [OF h] line_addr_mono [of "fst h" "snd h" b] assms(6)
      by (intro exI [of _ "max obj (line_addr b (fst h))"]) auto
    then obtain a where a: "obj \<le> a" "a < obj + sz" "line_addr b (fst h) \<le> a" "a < line_addr b (snd h)" by blast
    have "fst h \<le> line_of b a \<and> line_of b a < snd h"
      using line_of_bounds [of b a] a assms(4) by (auto simp: line_addr_def)
    with no_hole [OF h a(1,2)] show False by blast
  qed
  ultimately show ?thesis by (auto simp: same_bytes_def)
qed

section \<open>Properties\<close>

text \<open>
  C21. \<open>GlobalAllocator_recycleBlocks\<close> returns; the free list is the sequence of the unmarked blocks and the
  recyclable list that of the marked blocks with a hole, both in address order; every block is rebuilt as described
  by \<open>recycled\<close> (flags, line headers, the chain of holes, nothing else written), and no byte outside the small heap
  changes.
\<close>

theorem recycle_blocks_refines:
  assumes "is_block (small_heap_start (global g))"
    and "small_heap_stop (global g) = small_heap_start (global g) + n * BLOCK_SIZE" and "small_heap_stop (global g) < 2 ^ 64"
  shows "\<exists>fl rl m'. GlobalAllocator_recycleBlocks g = ret (with_lists g fl rl m') \<and>
    block_queue m' fl (free_part (heap g) (blocks_from (small_heap_start (global g)) n)) \<and>
    block_queue m' rl (recyclable_part (heap g) (blocks_from (small_heap_start (global g)) n)) \<and>
    (\<forall>b \<in> set (blocks_from (small_heap_start (global g)) n). recycled (heap g) m' b) \<and>
    (\<forall>a. \<not> (small_heap_start (global g) \<le> a \<and> a < small_heap_stop (global g)) \<longrightarrow> m' a = heap g a)"
  by (rule recycle_blocks_spec [OF assms])

text \<open>Test data: a small heap of one block at 65536 whose first line is marked.\<close>

definition one_block_heap :: mem where
  "one_block_heap = (\<lambda>_. 0)(65536 := 1, 65552 := 1)"

definition one_block_state :: gheap where
  "one_block_state =
     \<lparr>heap = one_block_heap,
      global = \<lparr>small_heap_size = 32768, small_heap_start = 65536, small_heap_stop = 98304,
                free_list = \<lparr>bl_first = 0, bl_last = 0, bl_size = 0\<rparr>,
                recyclable_list = \<lparr>bl_first = 0, bl_last = 0, bl_size = 0\<rparr>,
                large_heap_size = 0, large_heap_start = 0, large_heap_stop = 0,
                large_chunk_list = \<lparr>cl_first = 0, cl_last = 0, cl_size = 0\<rparr>,
                finalizers = \<lparr>entries = [], mask = 0, used = 0, deleted = 0\<rparr>,
                memory_limit = 2 ^ 40, free_space_divisor = 3,
                allocated_bytes_since_collect = 0, total_allocated_bytes = 0\<rparr>,
      is_collecting = False, lock_depth = 0\<rparr>"

lemma one_block_marks:
  "Block_isMarked one_block_heap 65536" "line_marked one_block_heap 65536 0"
  "0 < k \<Longrightarrow> \<not> line_marked one_block_heap 65536 k"
  by (simp_all add: one_block_heap_def Block_isMarked_def line_marked_def hdr_marked_def load.simps)

lemma one_block_is_block: "is_block 65536"
  by (simp add: is_block_def)

lemma one_block_has_hole: "block_holes one_block_heap 65536 \<noteq> []"
  using in_hole_iff [of 2 one_block_heap 65536] one_block_marks(3) [of 1] one_block_marks(3) [of 2] by auto

theorem recycle_blocks_refines_witness:
  "\<exists>fl rl m'. GlobalAllocator_recycleBlocks one_block_state = ret (with_lists one_block_state fl rl m') \<and>
     block_queue m' fl [] \<and> block_queue m' rl [65536]"
proof -
  have parts: "free_part one_block_heap (blocks_from 65536 1) = []"
    "recyclable_part one_block_heap (blocks_from 65536 1) = [65536]"
    using one_block_marks(1) one_block_has_hole by (simp_all add: free_part_def recyclable_part_def blocks_from_def)
  have st: "small_heap_start (global one_block_state) = 65536" "small_heap_stop (global one_block_state) = 98304"
    "heap one_block_state = one_block_heap" by (simp_all add: one_block_state_def)
  from recycle_blocks_refines [of one_block_state 1] one_block_is_block parts show ?thesis
    unfolding st by (auto simp: one_block_is_block)
qed





end
