(* ===== verification/Local_Allocator.thy ===== *)
theory Local_Allocator
  imports Global_Allocator
begin

text \<open>
  The thread-local allocators (\<open>include/local_allocator.h\<close>, \<open>src/local_allocator.c\<close>): bump allocation of small
  objects into the holes of a block, medium objects that do not fit the current hole into an overflow block. This
  theory translates the code.

  The structs live in the C heap, outside the memory the collector manages; the state maps the address of each to
  its value. All of them point to the one global allocator, so that field is left out.
\<close>

section \<open>State\<close>

record LocalAllocator =
  la_block :: addr
  la_cursor :: addr
  la_limit :: addr
  la_next :: addr
  overflow_block :: addr
  overflow_cursor :: addr
  overflow_limit :: addr

record lheap = gheap +
  locals :: "addr \<Rightarrow> LocalAllocator"

definition upd_local :: "addr \<Rightarrow> (LocalAllocator \<Rightarrow> LocalAllocator) \<Rightarrow> 'a lheap_scheme \<Rightarrow> 'a lheap_scheme" where
  "upd_local self f g = g\<lparr>locals := (locals g)(self := f (locals g self))\<rparr>"

section \<open>Cursors\<close>

definition LocalAllocator_initCursor ::
  "('a lheap_scheme \<Rightarrow> 'a lheap_scheme prog) \<Rightarrow> 'a lheap_scheme \<Rightarrow> addr \<Rightarrow> 'a lheap_scheme prog" where
  "LocalAllocator_initCursor collect g self =
     pbind (GlobalAllocator_nextBlock collect g) (\<lambda>(g, block).
       let g = upd_local self (\<lambda>l. l\<lparr>la_block := block\<rparr>) g
       in if Block_isFree (heap g) block
          then ret (upd_local self (\<lambda>l. l\<lparr>la_cursor := Block_start block, la_limit := Block_stop block\<rparr>) g)
          else if Block_isRecyclable (heap g) block
          then pbind (Block_firstFreeLine (heap g) block) (\<lambda>hole.
                 ret (upd_local self (\<lambda>l. l\<lparr>la_cursor := hole, la_limit := Hole_limit (heap g) hole,
                                           la_next := Hole_next (heap g) hole\<rparr>) g))
          else abort_with ''GC: can't init cursors into unavailable block'')"

definition LocalAllocator_findNextHole :: "'a lheap_scheme \<Rightarrow> addr \<Rightarrow> 'a lheap_scheme \<times> bool" where
  "LocalAllocator_findNextHole g self =
     (let hole = la_next (locals g self)
      in if hole \<noteq> 0
         then (upd_local self (\<lambda>l. l\<lparr>la_cursor := hole, la_limit := Hole_limit (heap g) hole,
                                    la_next := Hole_next (heap g) hole\<rparr>) g, True)
         else (g, False))"

definition LocalAllocator_initOverflowCursor ::
  "('a lheap_scheme \<Rightarrow> 'a lheap_scheme prog) \<Rightarrow> 'a lheap_scheme \<Rightarrow> addr \<Rightarrow> 'a lheap_scheme prog" where
  "LocalAllocator_initOverflowCursor collect g self =
     pbind (GlobalAllocator_nextFreeBlock collect g) (\<lambda>(g, block).
       ret (upd_local self (\<lambda>l. l\<lparr>overflow_block := block, overflow_cursor := Block_start block,
                                 overflow_limit := Block_stop block\<rparr>) g))"

definition LocalAllocator_reset ::
  "('a lheap_scheme \<Rightarrow> 'a lheap_scheme prog) \<Rightarrow> 'a lheap_scheme \<Rightarrow> addr \<Rightarrow> 'a lheap_scheme prog" where
  "LocalAllocator_reset collect g self =
     pbind (LocalAllocator_initCursor collect g self) (\<lambda>g. LocalAllocator_initOverflowCursor collect g self)"

definition LocalAllocator_init ::
  "('a lheap_scheme \<Rightarrow> 'a lheap_scheme prog) \<Rightarrow> 'a lheap_scheme \<Rightarrow> addr \<Rightarrow> 'a lheap_scheme prog" where
  "LocalAllocator_init collect g self = LocalAllocator_reset collect g self"

section \<open>Allocation\<close>

text \<open>
  The block and line bookkeeping of an object placed at \<open>obj\<close>: the line header, and the cleared size behind it. Both
  allocation loops have these lines.
\<close>

definition place_object :: "mem \<Rightarrow> addr \<Rightarrow> addr \<Rightarrow> addr \<Rightarrow> addr \<Rightarrow> mem prog" where
  "place_object m block obj stop limit =
     pbind (Line_update m block obj) (\<lambda>m. ret (if stop < limit then Object_set_size m stop 0 else m))"

partial_function (option) LocalAllocator_overflowAllocateSmall ::
  "('a lheap_scheme \<Rightarrow> 'a lheap_scheme prog) \<Rightarrow> 'a lheap_scheme \<Rightarrow> addr \<Rightarrow> nat \<Rightarrow> ('a lheap_scheme \<times> addr) prog" where
  "LocalAllocator_overflowAllocateSmall collect g self sz =
     (let l = locals g self; cursor = overflow_cursor l; stop = cursor + sz
      in if stop \<le> overflow_limit l
         then pbind (place_object (heap g) (overflow_block l) cursor stop (overflow_limit l)) (\<lambda>m.
                ret (upd_local self (\<lambda>l. l\<lparr>overflow_cursor := stop\<rparr>) (g\<lparr>heap := m\<rparr>), cursor))
         else pbind (LocalAllocator_initOverflowCursor collect g self) (\<lambda>g.
                LocalAllocator_overflowAllocateSmall collect g self sz))"

partial_function (option) LocalAllocator_tryAllocateSmall ::
  "('a lheap_scheme \<Rightarrow> 'a lheap_scheme prog) \<Rightarrow> 'a lheap_scheme \<Rightarrow> addr \<Rightarrow> nat \<Rightarrow> ('a lheap_scheme \<times> addr) prog" where
  "LocalAllocator_tryAllocateSmall collect g self sz =
     (let l = locals g self; cursor = la_cursor l; stop = cursor + sz
      in if stop \<le> la_limit l
         then pbind (place_object (heap g) (la_block l) cursor stop (la_limit l)) (\<lambda>m.
                ret (upd_local self (\<lambda>l. l\<lparr>la_cursor := stop\<rparr>) (g\<lparr>heap := m\<rparr>), cursor))
         else if sz > LINE_SIZE \<and> int (la_limit l) - int cursor > int LINE_SIZE
         then LocalAllocator_overflowAllocateSmall collect g self sz
         else case LocalAllocator_findNextHole g self of
                (g, found) \<Rightarrow> if found then LocalAllocator_tryAllocateSmall collect g self sz else ret (g, 0))"

text \<open>The loop of \<open>allocateSmall\<close>: take another block until the object fits.\<close>

partial_function (option) allocateSmall_loop ::
  "('a lheap_scheme \<Rightarrow> 'a lheap_scheme prog) \<Rightarrow> 'a lheap_scheme \<Rightarrow> addr \<Rightarrow> nat \<Rightarrow> nat \<Rightarrow> nat
   \<Rightarrow> ('a lheap_scheme \<times> addr) prog" where
  "allocateSmall_loop collect g self sz rsize atomic =
     pbind (LocalAllocator_tryAllocateSmall collect g self rsize) (\<lambda>(g, obj).
       if obj \<noteq> 0
       then ret (upd_global (\<lambda>a. GlobalAllocator_incrementCounters a sz)
                   (g\<lparr>heap := Object_allocate (heap g) obj rsize atomic\<rparr>), Object_mutatorAddress obj)
       else pbind (LocalAllocator_initCursor collect g self) (\<lambda>g. allocateSmall_loop collect g self sz rsize atomic))"

definition LocalAllocator_allocateSmall ::
  "('a lheap_scheme \<Rightarrow> 'a lheap_scheme prog) \<Rightarrow> 'a lheap_scheme \<Rightarrow> addr \<Rightarrow> nat \<Rightarrow> nat \<Rightarrow> ('a lheap_scheme \<times> addr) prog" where
  "LocalAllocator_allocateSmall collect g self sz atomic =
     (let rsize = ROUND_TO_NEXT_MULTIPLE (size_add sz sizeof_Object) WORD_SIZE
      in guard (rsize \<le> LARGE_OBJECT_SIZE) ''rsize <= LARGE_OBJECT_SIZE''
          (allocateSmall_loop collect g self sz rsize atomic))"

end
