(* ===== verification/Collector.thy ===== *)
theory Collector
  imports Recycle Stack Local_Allocator
begin

text \<open>
  The collector (\<open>include/collector.h\<close>, \<open>src/collector.c\<close>): unmark every object, push the roots, mark what can be
  reached from them with an explicit stack of address ranges, finalize, sweep. This theory translates the code.

  What the program that uses the library provides is the record \<open>client\<close>: its \<open>GC_collect\<close>, the effect of calling one
  of its finalizers or its collect callback, and the bounds of its data sections (\<open>include/config.h\<close>).
\<close>

section \<open>State\<close>

record cheap = lheap +
  roots :: Stack
  collect_callback :: addr

record 's client =
  program_collect :: "'s \<Rightarrow> 's prog"
  call_finalizer :: "addr \<Rightarrow> addr \<Rightarrow> 's \<Rightarrow> 's"
  call_callback :: "addr \<Rightarrow> 's \<Rightarrow> 's prog"
  DATA_START :: addr
  DATA_END :: addr
  BSS_START :: addr
  BSS_END :: addr

definition Collector_init :: "nat \<Rightarrow> 'a cheap_scheme \<Rightarrow> 'a cheap_scheme" where
  "Collector_init phys g = g\<lparr>collect_callback := 0, roots := Stack_init phys, is_collecting := False\<rparr>"

definition Collector_registerCollectCallback :: "'a cheap_scheme \<Rightarrow> addr \<Rightarrow> 'a cheap_scheme" where
  "Collector_registerCollectCallback g callback = g\<lparr>collect_callback := callback\<rparr>"

definition Collector_callCollectCallback ::
  "'a cheap_scheme client \<Rightarrow> 'a cheap_scheme \<Rightarrow> 'a cheap_scheme prog" where
  "Collector_callCollectCallback env g =
     (let callback = collect_callback g in if callback \<noteq> 0 then call_callback env callback g else ret g)"

definition Collector_setCollecting :: "'a gheap_scheme \<Rightarrow> int \<Rightarrow> 'a gheap_scheme prog" where
  "Collector_setCollecting g v =
     guard (v = 0 \<or> v = 1) ''value == 0 || value == 1'' (ret (g\<lparr>is_collecting := (v \<noteq> 0)\<rparr>))"

definition Collector_isCollecting :: "'a gheap_scheme \<Rightarrow> bool" where
  "Collector_isCollecting g = is_collecting g"

section \<open>Unmarking\<close>

text \<open>The objects of one line, from \<open>offset\<close> on; \<open>offset\<close> is an \<open>int\<close>.\<close>

partial_function (option) unmark_line :: "addr \<Rightarrow> int \<Rightarrow> mem \<Rightarrow> mem prog" where
  "unmark_line line offset m =
     (if offset < int LINE_SIZE
      then let obj = nat (int line + offset)
           in if Object_size m obj = 0 then ret m
              else let m = Object_unmark m obj
                   in unmark_line line (c_int (offset + int (Object_size m obj))) m
      else ret m)"

function unmark_lines :: "addr \<Rightarrow> nat \<Rightarrow> mem \<Rightarrow> mem prog" where
  "unmark_lines block line_index m =
     (if line_index < LINE_COUNT
      then let line_header = Block_lineHeaders block + line_index;
               m = LineHeader_unmark m line_header
           in pbind (if LineHeader_containsObject m line_header
                     then pbind (Block_line block (int line_index)) (\<lambda>line.
                          pbind (LineHeader_getOffset m line_header) (\<lambda>offset. unmark_line line offset m))
                     else ret m)
                (\<lambda>m. unmark_lines block (line_index + 1) m)
      else ret m)"
  by pat_completeness auto
termination
  by (relation "measure (\<lambda>(block, line_index, m). LINE_COUNT - line_index)") auto

function unmark_blocks :: "addr \<Rightarrow> addr \<Rightarrow> mem \<Rightarrow> mem prog" where
  "unmark_blocks block stop m =
     (if block < stop
      then pbind (unmark_lines block 0 (Block_unmark m block)) (\<lambda>m. unmark_blocks (block + BLOCK_SIZE) stop m)
      else ret m)"
  by pat_completeness auto
termination
  by (relation "measure (\<lambda>(block, stop, m). stop - block)") auto

declare unmark_lines.simps [simp del] unmark_blocks.simps [simp del]

definition Collector_unmarkSmallObjects :: "'a gheap_scheme \<Rightarrow> 'a gheap_scheme prog" where
  "Collector_unmarkSmallObjects g =
     pbind (unmark_blocks (small_heap_start (global g)) (small_heap_stop (global g)) (heap g)) (\<lambda>m.
       ret (g\<lparr>heap := m\<rparr>))"

partial_function (option) unmark_chunks :: "addr \<Rightarrow> mem \<Rightarrow> mem prog" where
  "unmark_chunks chunk m =
     (if chunk \<noteq> 0
      then let m = Chunk_unmark m chunk in unmark_chunks (Chunk_next m chunk) m
      else ret m)"

definition Collector_unmarkLargeObjects :: "'a gheap_scheme \<Rightarrow> 'a gheap_scheme prog" where
  "Collector_unmarkLargeObjects g =
     pbind (unmark_chunks (cl_first (large_chunk_list (global g))) (heap g)) (\<lambda>m. ret (g\<lparr>heap := m\<rparr>))"

section \<open>Marking\<close>

definition Collector_scanObject :: "'a cheap_scheme \<Rightarrow> addr \<Rightarrow> 'a cheap_scheme" where
  "Collector_scanObject g obj =
     (if Object_atomic (heap g) obj = 0
      then g\<lparr>roots := Stack_push (roots g) (Object_mutatorAddress obj) (obj + Object_size (heap g) obj)\<rparr>
      else g)"

definition Collector_markChunk :: "'a cheap_scheme \<Rightarrow> addr \<Rightarrow> 'a cheap_scheme" where
  "Collector_markChunk g chunk =
     (if chunk \<noteq> 0 \<and> Chunk_isAllocated (heap g) chunk
      then let obj = Chunk_object chunk
           in if \<not> Object_isMarked (heap g) obj
              then Collector_scanObject (g\<lparr>heap := Object_mark (heap g) obj\<rparr>) obj
              else g
      else g)"

text \<open>The \<open>do ... while\<close> loop that marks every line of a medium object.\<close>

function mark_object_lines :: "addr \<Rightarrow> addr \<Rightarrow> addr \<Rightarrow> mem \<Rightarrow> mem" where
  "mark_object_lines line_header line limit m =
     (let m = LineHeader_mark m line_header
      in if line + LINE_SIZE < limit then mark_object_lines (line_header + 1) (line + LINE_SIZE) limit m else m)"
  by pat_completeness auto
termination
  by (relation "measure (\<lambda>(line_header, line, limit, m). limit - line)") auto

declare mark_object_lines.simps [simp del]

text \<open>Marking a small object that was not marked yet.\<close>

definition mark_small :: "'a cheap_scheme \<Rightarrow> addr \<Rightarrow> addr \<Rightarrow> addr \<Rightarrow> addr \<Rightarrow> 'a cheap_scheme" where
  "mark_small g block line_header line obj =
     (let m = Object_mark (heap g) obj;
          m = Block_mark m block;
          m = (if Object_size m obj \<le> LINE_SIZE then LineHeader_mark m line_header
               else mark_object_lines line_header line (obj + Object_size m obj) m)
      in Collector_scanObject (g\<lparr>heap := m\<rparr>) obj)"

text \<open>The objects of one line, from \<open>offset\<close> on, up to the one that holds \<open>pointer\<close>.\<close>

partial_function (option) find_in_line ::
  "'a cheap_scheme \<Rightarrow> addr \<Rightarrow> addr \<Rightarrow> addr \<Rightarrow> addr \<Rightarrow> int \<Rightarrow> 'a cheap_scheme prog" where
  "find_in_line g pointer block line_header line offset =
     (if offset < int LINE_SIZE
      then let obj = nat (int line + offset)
           in if Object_size (heap g) obj = 0 then ret g
              else if Object_size (heap g) obj > LARGE_OBJECT_SIZE then abort_with ''GC: invalid small object size''
              else if Object_contains (heap g) obj pointer
              then ret (if \<not> Object_isMarked (heap g) obj then mark_small g block line_header line obj else g)
              else find_in_line g pointer block line_header line (c_int (offset + int (Object_size (heap g) obj)))
      else ret g)"

text \<open>The search of the previous lines.\<close>

function find_in_lines :: "'a cheap_scheme \<Rightarrow> addr \<Rightarrow> addr \<Rightarrow> int \<Rightarrow> 'a cheap_scheme prog" where
  "find_in_lines g pointer block line_index =
     (if line_index \<ge> 0
      then pbind (Block_lineHeader block line_index) (\<lambda>line_header.
           if LineHeader_containsObject (heap g) line_header
           then pbind (Block_line block line_index) (\<lambda>line.
                pbind (LineHeader_getOffset (heap g) line_header) (\<lambda>offset.
                find_in_line g pointer block line_header line offset))
           else find_in_lines g pointer block (line_index - 1))
      else ret g)"
  by pat_completeness auto
termination
  by (relation "measure (\<lambda>(g, pointer, block, line_index). nat (line_index + 1))") auto

declare find_in_lines.simps [simp del]

definition Collector_findAndMarkSmallObject :: "'a cheap_scheme \<Rightarrow> addr \<Rightarrow> 'a cheap_scheme prog" where
  "Collector_findAndMarkSmallObject g pointer =
     (let block = Block_from pointer
      in pbind (Block_lineIndex block pointer) (\<lambda>line_index.
         if line_index < 0 then ret g
         else pbind (Block_lineHeader block line_index) (\<lambda>line_header.
              pbind (if LineHeader_containsObject (heap g) line_header
                     then pbind (Block_line block line_index) (\<lambda>line.
                          pbind (LineHeader_getOffset (heap g) line_header) (\<lambda>offset.
                          ret (if int pointer < int line + offset then line_index - 1 else line_index)))
                     else ret line_index)
                (\<lambda>line_index. if line_index < 0 then ret g else find_in_lines g pointer block line_index))))"

definition Collector_addRoots :: "'a cheap_scheme \<Rightarrow> addr \<Rightarrow> addr \<Rightarrow> 'a cheap_scheme prog" where
  "Collector_addRoots g stack_top bottom =
     guard (stack_top \<le> bottom) ''top <= bottom'' (ret (g\<lparr>roots := Stack_push (roots g) stack_top bottom\<rparr>))"

text \<open>One word of a range: its value, taken as a pointer into the heap.\<close>

definition mark_word :: "'a cheap_scheme \<Rightarrow> addr \<Rightarrow> 'a cheap_scheme prog" where
  "mark_word g pointer =
     (if GlobalAllocator_inSmallHeap (global g) pointer then Collector_findAndMarkSmallObject g pointer
      else if GlobalAllocator_inLargeHeap (global g) pointer
      then pbind (ChunkList_find (large_chunk_list (global g)) (heap g) pointer) (\<lambda>chunk. ret (Collector_markChunk g chunk))
      else ret g)"

function mark_range :: "addr \<Rightarrow> addr \<Rightarrow> 'a cheap_scheme \<Rightarrow> 'a cheap_scheme prog" where
  "mark_range sp bottom g =
     (if sp < bottom
      then pbind (mark_word g (load 8 (heap g) sp)) (\<lambda>g. mark_range (sp + WORD_SIZE) bottom g)
      else ret g)"
  by pat_completeness auto
termination
  by (relation "measure (\<lambda>(sp, bottom, g). bottom - sp)") auto

declare mark_range.simps [simp del]

partial_function (option) Collector_mark :: "'a cheap_scheme \<Rightarrow> 'a cheap_scheme prog" where
  "Collector_mark g =
     (case Stack_pop (roots g) of
        (stack, None) \<Rightarrow> ret (g\<lparr>roots := stack\<rparr>)
      | (stack, Some (sp, bottom)) \<Rightarrow> pbind (mark_range sp bottom (g\<lparr>roots := stack\<rparr>)) Collector_mark)"

section \<open>The collection\<close>

definition Collector_sweep :: "'a gheap_scheme \<Rightarrow> 'a gheap_scheme prog" where
  "Collector_sweep g =
     pbind (GlobalAllocator_recycleBlocks g) (\<lambda>g.
     pbind (ChunkList_sweep (large_chunk_list (global g)) (heap g)) (\<lambda>(cl, m).
       ret ((upd_global (\<lambda>self. self\<lparr>large_chunk_list := cl\<rparr>) g)\<lparr>heap := m\<rparr>)))"

definition Collector_collect :: "'a cheap_scheme client \<Rightarrow> 'a cheap_scheme \<Rightarrow> 'a cheap_scheme prog" where
  "Collector_collect env g =
     pbind (Collector_unmarkSmallObjects g) (\<lambda>g.
     pbind (Collector_unmarkLargeObjects g) (\<lambda>g.
     pbind (Collector_addRoots g (DATA_START env) (DATA_END env)) (\<lambda>g.
     pbind (Collector_addRoots g (BSS_START env) (BSS_END env)) (\<lambda>g.
     pbind (Collector_callCollectCallback env g) (\<lambda>g.
     pbind (Collector_mark g) (\<lambda>g.
     let g = upd_global GlobalAllocator_resetCounters g
     in pbind (GlobalAllocator_finalizeObjects (call_finalizer env) g) Collector_sweep))))))"

end
