(* ===== verification/Immix.thy ===== *)
theory Immix
  imports Array Collector
begin

text \<open>
  The interface of the library (\<open>include/immix.h\<close>, \<open>src/immix.c\<close>): allocation by size class, reallocation,
  finalizers, collections, threads and statistics. This theory translates the code.

  The static variables of the file are fields of the state \<open>gc\<close>; \<open>current\<close> is the local allocator of the calling
  thread, what \<open>pthread_getspecific\<close> returns. Addresses \<open>malloc\<close> returns are parameters, as are the contents of fresh
  memory (\<open>junk\<close>) and the word behind the array's buffer (\<open>past\<close>).
\<close>

section \<open>State\<close>

record gc = cheap +
  local_allocators :: Array
  current :: addr

type_synonym 'a program = "'a gc_scheme client"

section \<open>Initialisation and threads\<close>

text \<open>\<open>err\<close> is what \<open>pthread_setspecific\<close> returns.\<close>

definition setLocalAllocator :: "nat \<Rightarrow> addr \<Rightarrow> 'a gc_scheme \<Rightarrow> 'a gc_scheme prog" where
  "setLocalAllocator err local_allocator g =
     (if err \<noteq> 0 then abort_with ''pthread_setspecific failed'' else ret (g\<lparr>current := local_allocator\<rparr>))"

definition getLocalAllocator :: "'a gc_scheme \<Rightarrow> addr" where
  [simp]: "getLocalAllocator g = current g"

lemma setLocalAllocator_0 [simp]: "setLocalAllocator 0 a g = ret (g\<lparr>current := a\<rparr>)"
  by (simp add: setLocalAllocator_def)

definition GC_init_thread :: "'a program \<Rightarrow> (nat \<Rightarrow> addr) \<Rightarrow> addr \<Rightarrow> 'a gc_scheme \<Rightarrow> 'a gc_scheme prog" where
  "GC_init_thread env junk local_allocator g =
     (if local_allocator = 0 then abort_with ''malloc failed''
      else pbind (LocalAllocator_init (program_collect env) g local_allocator) (\<lambda>g.
      pbind (setLocalAllocator 0 local_allocator g) (\<lambda>g.
        let g = GC_lock g
        in pbind (Array_push junk (local_allocators g) local_allocator) (\<lambda>ary.
             ret (GC_unlock (g\<lparr>local_allocators := ary\<rparr>))))))"

definition GC_deinit_thread :: "addr \<Rightarrow> addr \<Rightarrow> 'a gc_scheme \<Rightarrow> 'a gc_scheme" where
  "GC_deinit_thread past local_allocator g =
     (let g = GC_lock g;
          g = g\<lparr>local_allocators := Array_delete past (local_allocators g) local_allocator\<rparr>
      in GC_unlock g)"

definition GC_init ::
  "'a program \<Rightarrow> environment \<Rightarrow> nat \<Rightarrow> nat \<Rightarrow> addr option \<Rightarrow> addr option \<Rightarrow> (nat \<Rightarrow> addr) \<Rightarrow> addr \<Rightarrow> 'a gc_scheme
   \<Rightarrow> 'a gc_scheme prog" where
  "GC_init env getenv errno phys small_map large_map junk local_allocator g =
     pbind (GlobalAllocator_init getenv errno phys small_map large_map (heap g) (global g) (GC_initialHeapSize getenv errno))
       (\<lambda>(self, m).
     pbind (Array_init junk (local_allocators g) 16) (\<lambda>ary.
     let g = Collector_init phys (g\<lparr>global := self, heap := m, local_allocators := ary\<rparr>)
     in GC_init_thread env junk local_allocator g))"

section \<open>Collections\<close>

definition GC_collect_once :: "'a program \<Rightarrow> 'a gc_scheme \<Rightarrow> 'a gc_scheme prog" where
  "GC_collect_once env g =
     pbind (Collector_setCollecting g 1) (\<lambda>g.
     pbind (Collector_collect env g) (\<lambda>g.
     pbind (Array_each (local_allocators g) (\<lambda>self g. LocalAllocator_reset (program_collect env) g self) g) (\<lambda>g.
     Collector_setCollecting g 0)))"

definition GC_register_collect_callback :: "'a gc_scheme \<Rightarrow> addr \<Rightarrow> 'a gc_scheme" where
  "GC_register_collect_callback g callback = Collector_registerCollectCallback g callback"

definition GC_add_roots :: "'a gc_scheme \<Rightarrow> addr \<Rightarrow> addr \<Rightarrow> 'a gc_scheme prog" where
  "GC_add_roots g stack_pointer stack_bottom = Collector_addRoots g stack_pointer stack_bottom"

definition GC_in_heap :: "'a gc_scheme \<Rightarrow> addr \<Rightarrow> bool" where
  "GC_in_heap g pointer = GlobalAllocator_inHeap (global g) pointer"

section \<open>Allocation\<close>

definition GC_malloc_with_atomic :: "'a program \<Rightarrow> 'a gc_scheme \<Rightarrow> nat \<Rightarrow> nat \<Rightarrow> ('a gc_scheme \<times> addr) prog" where
  "GC_malloc_with_atomic env g sz atomic =
     (if sz \<le> LARGE_OBJECT_SIZE - sizeof_Object
      then LocalAllocator_allocateSmall (program_collect env) g (getLocalAllocator g) sz atomic
      else GlobalAllocator_allocateLarge (program_collect env) g sz atomic)"

definition GC_malloc :: "'a program \<Rightarrow> 'a gc_scheme \<Rightarrow> nat \<Rightarrow> ('a gc_scheme \<times> addr) prog" where
  "GC_malloc env g sz = GC_malloc_with_atomic env g sz 0"

definition GC_malloc_atomic :: "'a program \<Rightarrow> 'a gc_scheme \<Rightarrow> nat \<Rightarrow> ('a gc_scheme \<times> addr) prog" where
  "GC_malloc_atomic env g sz = GC_malloc_with_atomic env g sz 1"

definition GC_free :: "'a program \<Rightarrow> 'a gc_scheme \<Rightarrow> addr \<Rightarrow> 'a gc_scheme prog" where
  "GC_free env g pointer =
     (if GlobalAllocator_inLargeHeap (global g) pointer
      then GlobalAllocator_deallocateLarge (call_finalizer env) g pointer
      else ret g)"

definition GC_realloc :: "'a program \<Rightarrow> 'a gc_scheme \<Rightarrow> addr \<Rightarrow> nat \<Rightarrow> ('a gc_scheme \<times> addr) prog" where
  "GC_realloc env g pointer sz =
     (if pointer = 0 then GC_malloc env g sz
      else if sz = 0 then pbind (GC_free env g pointer) (\<lambda>g. ret (g, 0))
      else
        let obj = pointer - sizeof_Object;
            available = Object_mutatorSize (heap g) obj
        in if sz \<le> available then ret (g, pointer)
           else pbind (GC_malloc_with_atomic env g sz (Object_atomic (heap g) obj)) (\<lambda>(g, new_pointer).
             let g = g\<lparr>heap := memcpy (heap g) new_pointer pointer available\<rparr>
             in pbind (GlobalAllocator_deleteFinalizer (global g) obj) (\<lambda>(self, finalizer).
                pbind (if finalizer \<noteq> 0
                       then GlobalAllocator_registerFinalizer self (new_pointer - sizeof_Object) finalizer
                       else ret self) (\<lambda>self.
                pbind (GC_free env (g\<lparr>global := self\<rparr>) pointer) (\<lambda>g. ret (g, new_pointer))))))"

definition GC_register_finalizer :: "'a gc_scheme \<Rightarrow> addr \<Rightarrow> addr \<Rightarrow> 'a gc_scheme prog" where
  "GC_register_finalizer g pointer callback =
     pbind (GlobalAllocator_registerFinalizer (global g) (pointer - sizeof_Object) callback) (\<lambda>self.
       ret (g\<lparr>global := self\<rparr>))"

section \<open>Statistics\<close>

text \<open>The number of objects and their bytes, as accumulated \<open>size_t\<close> counters.\<close>

definition count_object :: "mem \<Rightarrow> addr \<Rightarrow> nat \<times> nat \<Rightarrow> nat \<times> nat" where
  "count_object m obj st = (size_add (fst st) 1, size_add (snd st) (size_sub (Object_size m obj) sizeof_Object))"

partial_function (option) stats_line :: "mem \<Rightarrow> addr \<Rightarrow> int \<Rightarrow> nat \<times> nat \<Rightarrow> (nat \<times> nat) prog" where
  "stats_line m line offset st =
     (if offset < int LINE_SIZE
      then let obj = nat (int line + offset)
           in if Object_size m obj = 0 then ret st
              else stats_line m line (c_int (offset + int (Object_size m obj))) (count_object m obj st)
      else ret st)"

function stats_lines :: "mem \<Rightarrow> addr \<Rightarrow> nat \<Rightarrow> nat \<times> nat \<Rightarrow> (nat \<times> nat) prog" where
  "stats_lines m block line_index st =
     (if line_index < LINE_COUNT
      then let line_header = Block_lineHeaders block + line_index
           in pbind (if LineHeader_containsObject m line_header
                     then pbind (Block_line block (int line_index)) (\<lambda>line.
                          pbind (LineHeader_getOffset m line_header) (\<lambda>offset. stats_line m line offset st))
                     else ret st)
                (\<lambda>st. stats_lines m block (line_index + 1) st)
      else ret st)"
  by pat_completeness auto
termination
  by (relation "measure (\<lambda>(m, block, line_index, st). LINE_COUNT - line_index)") auto

function stats_blocks :: "mem \<Rightarrow> addr \<Rightarrow> addr \<Rightarrow> nat \<times> nat \<Rightarrow> (nat \<times> nat) prog" where
  "stats_blocks m block stop st =
     (if block < stop
      then pbind (stats_lines m block 0 st) (\<lambda>st. stats_blocks m (block + BLOCK_SIZE) stop st)
      else ret st)"
  by pat_completeness auto
termination
  by (relation "measure (\<lambda>(m, block, stop, st). stop - block)") auto

declare stats_lines.simps [simp del] stats_blocks.simps [simp del]

definition GC_small_heap_stats :: "'a gc_scheme \<Rightarrow> (nat \<times> nat) prog" where
  "GC_small_heap_stats g = stats_blocks (heap g) (small_heap_start (global g)) (small_heap_stop (global g)) (0, 0)"

partial_function (option) stats_chunks :: "mem \<Rightarrow> addr \<Rightarrow> nat \<times> nat \<Rightarrow> (nat \<times> nat) prog" where
  "stats_chunks m chunk st =
     (if chunk \<noteq> 0
      then stats_chunks m (Chunk_next m chunk)
             (if Chunk_isAllocated m chunk then count_object m (Chunk_object chunk) st else st)
      else ret st)"

definition GC_large_heap_stats :: "'a gc_scheme \<Rightarrow> (nat \<times> nat) prog" where
  "GC_large_heap_stats g = stats_chunks (heap g) (cl_first (large_chunk_list (global g))) (0, 0)"

definition GC_get_memory_use :: "'a gc_scheme \<Rightarrow> nat" where
  "GC_get_memory_use g = GlobalAllocator_heapSize (global g)"

definition GC_get_heap_usage :: "'a gc_scheme \<Rightarrow> nat prog" where
  "GC_get_heap_usage g =
     pbind (GC_small_heap_stats g) (\<lambda>(_, small_bytes).
     pbind (GC_large_heap_stats g) (\<lambda>(_, large_bytes). ret (size_add small_bytes large_bytes)))"

end
