(* ===== verification/Layout.thy ===== *)
theory Layout
  imports Block_Sweep Collector
begin

text \<open>
  Where the objects of a block are: the relation between the line headers, the sizes in memory and the set of objects
  that can be walked to. Every pass over the small object space (unmarking, finding an object from a pointer, the
  statistics) starts at the first object a line header names and follows the sizes to the end of the line or to
  a size of zero; this theory states when these walks visit exactly the objects of the line.
\<close>

section \<open>Lines\<close>

lemma line_of_iff:
  "b + 256 \<le> x \<Longrightarrow> line_of b x = i \<longleftrightarrow> line_addr b i \<le> x \<and> x < line_addr b i + 256"
  using line_of_bounds [of b x] line_addr_mono [of "line_of b x" i b] line_addr_mono [of i "line_of b x" b]
  by (cases "line_of b x" i rule: linorder_cases) auto

lemma line_of_mono: "x \<le> y \<Longrightarrow> line_of b x \<le> line_of b y"
  unfolding line_of_def by (intro div_le_mono) simp

lemma line_of_less_iff: "b + 256 \<le> x \<Longrightarrow> line_of b x < i \<longleftrightarrow> x < line_addr b i"
  using line_of_bounds [of b x] line_addr_mono [of "line_of b x" i b] line_addr_mono [of i "line_of b x" b]
  by (cases "line_of b x" i rule: linorder_cases) auto

lemma line_of_ge_iff: "b + 256 \<le> x \<Longrightarrow> i \<le> line_of b x \<longleftrightarrow> line_addr b i \<le> x"
  using line_of_less_iff [of b x i] by (simp add: linorder_not_less [symmetric])

lemma line_addr_0 [simp]: "line_addr b 0 = b + 256"
  by (simp add: line_addr_def)

lemma line_addr_Suc: "line_addr b (Suc i) = line_addr b i + 256"
  by (simp add: line_addr_def)

lemma line_addr_ge [simp]: "b + 256 \<le> line_addr b i"
  by (simp add: line_addr_def)

lemma line_addr_dvd: "8 dvd b \<Longrightarrow> 8 dvd line_addr b i"
  by (simp add: line_addr_def dvd_add)

lemma dvd_step: "(8::nat) dvd x \<Longrightarrow> 8 dvd y \<Longrightarrow> x < y \<Longrightarrow> x + 8 \<le> y"
  by (auto elim!: dvdE)

lemma is_block_dvd8: "is_block b \<Longrightarrow> 8 dvd b"
  unfolding is_block_def by (auto intro: dvd_trans [of 8 BLOCK_SIZE])

section \<open>The layout of a block\<close>

definition well_placed :: "mem \<Rightarrow> addr \<Rightarrow> addr \<Rightarrow> bool" where
  "well_placed m b x \<longleftrightarrow>
     b + 256 \<le> x \<and> x + Object_size m x \<le> b + 32768 \<and> 16 \<le> Object_size m x \<and> Object_size m x \<le> 8192 \<and>
     8 dvd x \<and> 8 dvd Object_size m x"

text \<open>The header of a line names its first object, if there is one.\<close>

definition header_ok :: "mem \<Rightarrow> addr \<Rightarrow> addr set \<Rightarrow> nat \<Rightarrow> bool" where
  "header_ok m b S i \<longleftrightarrow>
     (let h = m (b + 16 + i); x = line_addr b i + hdr_offset h
      in if hdr_object h then x \<in> S \<and> line_of b x = i \<and> (\<forall>y \<in> S. line_of b y = i \<longrightarrow> x \<le> y)
         else (\<forall>y \<in> S. line_of b y \<noteq> i))"

text \<open>Behind an object comes the next object, the end of the line, or a size of zero.\<close>

definition chain_ok :: "mem \<Rightarrow> addr \<Rightarrow> addr set \<Rightarrow> addr \<Rightarrow> bool" where
  "chain_ok m b S x \<longleftrightarrow>
     (let e = x + Object_size m x
      in e < line_addr b (line_of b x) + 256 \<longrightarrow>
         e \<in> S \<or> (Object_size m e = 0 \<and> (\<forall>y \<in> S. line_of b y = line_of b x \<longrightarrow> y \<le> x)))"

text \<open>
  An object may extend into the place of another one only when it is dead, was left in a marked line, and its
  later lines have become a hole: a hole begins behind an unmarked line, at least two lines further.
\<close>

definition apart :: "mem \<Rightarrow> addr \<Rightarrow> addr \<Rightarrow> addr \<Rightarrow> bool" where
  "apart m b x y \<longleftrightarrow> x + Object_size m x \<le> y \<or> line_of b x + 2 \<le> line_of b y"

definition layout :: "mem \<Rightarrow> addr \<Rightarrow> addr set \<Rightarrow> bool" where
  "layout m b S \<longleftrightarrow>
     (\<forall>x \<in> S. well_placed m b x \<and> chain_ok m b S x) \<and>
     (\<forall>x \<in> S. \<forall>y \<in> S. x < y \<longrightarrow> apart m b x y) \<and> (\<forall>i < 127. header_ok m b S i)"

lemma layoutD:
  assumes "layout m b S" and "x \<in> S"
  shows "b + 256 \<le> x" "x + Object_size m x \<le> b + 32768" "16 \<le> Object_size m x" "Object_size m x \<le> 8192"
    "8 dvd x" "8 dvd Object_size m x" "chain_ok m b S x" "line_of b x < 127"
proof -
  show g: "b + 256 \<le> x" "x + Object_size m x \<le> b + 32768" "16 \<le> Object_size m x" "Object_size m x \<le> 8192"
    "8 dvd x" "8 dvd Object_size m x" "chain_ok m b S x"
    using assms by (auto simp: layout_def well_placed_def)
  from g show "line_of b x < 127" by (intro line_of_less) auto
qed

lemma layout_apart: "layout m b S \<Longrightarrow> x \<in> S \<Longrightarrow> y \<in> S \<Longrightarrow> x < y \<Longrightarrow> apart m b x y"
  by (simp add: layout_def)

lemma layout_same_line:
  "layout m b S \<Longrightarrow> x \<in> S \<Longrightarrow> y \<in> S \<Longrightarrow> x < y \<Longrightarrow> line_of b x = line_of b y \<Longrightarrow> x + Object_size m x \<le> y"
  using layout_apart [of m b S x y] by (simp add: apart_def)

lemma layout_header:
  assumes "layout m b S" and "i < 127"
  shows "hdr_object (m (b + 16 + i)) \<longleftrightarrow> (\<exists>y \<in> S. line_of b y = i)"
    and "hdr_object (m (b + 16 + i)) \<Longrightarrow> line_addr b i + hdr_offset (m (b + 16 + i)) \<in> S \<and>
      line_of b (line_addr b i + hdr_offset (m (b + 16 + i))) = i \<and>
      (\<forall>y \<in> S. line_of b y = i \<longrightarrow> line_addr b i + hdr_offset (m (b + 16 + i)) \<le> y)"
  using assms by (auto simp: layout_def header_ok_def Let_def split: if_splits)

lemma layout_next:
  assumes l: "layout m b S" and x: "x \<in> S"
  defines "e \<equiv> x + Object_size m x"
  shows "e < line_addr b (line_of b x) + 256 \<Longrightarrow>
      e \<in> S \<and> line_of b e = line_of b x \<or> Object_size m e = 0 \<and> (\<forall>y \<in> S. line_of b y = line_of b x \<longrightarrow> y \<le> x)"
    and "line_addr b (line_of b x) + 256 \<le> e \<Longrightarrow> \<forall>y \<in> S. line_of b y = line_of b x \<longrightarrow> y \<le> x"
proof -
  note d = layoutD [OF l x]
  have lx: "line_addr b (line_of b x) \<le> x" using line_of_bounds [OF d(1)] by simp
  assume "e < line_addr b (line_of b x) + 256"
  moreover from this have "line_of b e = line_of b x"
    using lx d(1) by (subst line_of_iff) (auto simp: e_def)
  ultimately show "e \<in> S \<and> line_of b e = line_of b x \<or> Object_size m e = 0 \<and> (\<forall>y \<in> S. line_of b y = line_of b x \<longrightarrow> y \<le> x)"
    using d(7) by (auto simp: chain_ok_def e_def Let_def)
next
  assume e: "line_addr b (line_of b x) + 256 \<le> e"
  show "\<forall>y \<in> S. line_of b y = line_of b x \<longrightarrow> y \<le> x"
  proof (intro ballI impI, rule ccontr)
    fix y assume y: "y \<in> S" "line_of b y = line_of b x" "\<not> y \<le> x"
    then have "e \<le> y" using layout_same_line [OF l x y(1)] by (simp add: e_def)
    moreover have "y < line_addr b (line_of b x) + 256"
      using line_of_bounds [OF layoutD(1) [OF l y(1)]] y(2) by simp
    ultimately show False using e by simp
  qed
qed

section \<open>Walking a line\<close>

lemma c_int_offset:
  assumes "line_addr b i \<le> x" and "x < line_addr b i + 256" and "n \<le> 8192"
  shows "c_int (int x - int (line_addr b i) + int n) = int (x + n) - int (line_addr b i)"
  using assms by (subst c_int_small) auto

text \<open>The line walk of an object search: the objects from \<open>x\<close> on are tried in turn.\<close>

lemma find_in_line_spec:
  assumes l: "layout (heap g) b S" and x: "x \<in> S" "line_of b x = i"
  shows "(\<forall>y \<in> S. line_of b y = i \<longrightarrow> x \<le> y \<longrightarrow> Object_contains (heap g) y p \<longrightarrow>
        find_in_line g p b hdr (line_addr b i) (int x - int (line_addr b i)) =
          ret (if \<not> Object_isMarked (heap g) y then mark_small g b hdr (line_addr b i) y else g)) \<and>
    ((\<forall>y \<in> S. line_of b y = i \<longrightarrow> x \<le> y \<longrightarrow> \<not> Object_contains (heap g) y p) \<longrightarrow>
        find_in_line g p b hdr (line_addr b i) (int x - int (line_addr b i)) = ret g)"
  using x
proof (induction "line_addr b i + 256 - x" arbitrary: x rule: less_induct)
  case less
  note x = less.prems
  note d = layoutD [OF l x(1)]
  let ?m = "heap g" and ?L = "line_addr b i"
  let ?e = "x + Object_size ?m x"
  have lx: "?L \<le> x" "x < ?L + 256" using line_of_bounds [OF d(1)] x(2) by auto
  have unf: "find_in_line g p b hdr ?L (int x - int ?L) =
      (if Object_contains ?m x p then ret (if \<not> Object_isMarked ?m x then mark_small g b hdr ?L x else g)
       else find_in_line g p b hdr ?L (int ?e - int ?L))"
    using lx d(3,4) c_int_offset [OF lx d(4)]
    by (subst find_in_line.simps) (simp add: Let_def diff_add_eq)
  show ?case
  proof (cases "Object_contains ?m x p")
    case True
    have "y = x" if y: "y \<in> S" "line_of b y = i" "x \<le> y" "Object_contains ?m y p" for y
      using layout_same_line [OF l x(1) y(1)] y x(2) True
      by (cases "y = x") (auto simp: Object_contains_def Object_mutatorAddress_def)
    moreover have "find_in_line g p b hdr ?L (int x - int ?L) =
        ret (if \<not> Object_isMarked ?m x then mark_small g b hdr ?L x else g)"
      using unf True by simp
    ultimately show ?thesis using True x by (metis order_refl)
  next
    case False
    then have step: "find_in_line g p b hdr ?L (int x - int ?L) = find_in_line g p b hdr ?L (int ?e - int ?L)"
      using unf by simp
    show ?thesis
    proof (cases "?e < ?L + 256 \<and> ?e \<in> S")
      case True
      with layout_next(1) [OF l x(1)] x(2) lx d(1) have e: "?e \<in> S" "line_of b ?e = i"
        by (auto simp: line_of_iff)
      have rest: "x \<le> y \<longleftrightarrow> y = x \<or> ?e \<le> y" if "y \<in> S" "line_of b y = i" for y
        using layout_same_line [OF l x(1) that(1)] that(2) x(2) d(3) by force
      have dec: "?L + 256 - ?e < ?L + 256 - x" using d(3) lx True by linarith
      note IH = less.hyps [OF dec e]
      show ?thesis unfolding step using IH rest False by blast
    next
      case fin: False
      have stop: "find_in_line g p b hdr ?L (int ?e - int ?L) = ret g"
      proof (cases "?e < ?L + 256")
        case True
        with layout_next(1) [OF l x(1)] x(2) fin have "Object_size ?m ?e = 0" by auto
        with True lx show ?thesis by (subst find_in_line.simps) (simp add: Let_def nat_int_add)
      qed (subst find_in_line.simps, simp)
      have "y = x" if "y \<in> S" "line_of b y = i" "x \<le> y" for y
        using layout_next(1) [OF l x(1), unfolded x(2)] layout_next(2) [OF l x(1), unfolded x(2)] fin that
        by (cases "?e < ?L + 256") (simp_all add: le_antisym)
      with stop step False show ?thesis by metis
    qed
  qed
qed

section \<open>From a pointer to its object\<close>

text \<open>
  The object a pointer stands for: it holds the pointer in its payload, and no object begins in a later line
  at or before the pointer.
\<close>

definition holds_pointer :: "mem \<Rightarrow> addr \<Rightarrow> addr set \<Rightarrow> addr \<Rightarrow> addr \<Rightarrow> bool" where
  "holds_pointer m b S p x \<longleftrightarrow>
     x \<in> S \<and> Object_contains m x p \<and> (\<forall>y \<in> S. y \<le> p \<longrightarrow> line_of b y \<le> line_of b x)"

definition mark_found :: "'a cheap_scheme \<Rightarrow> addr \<Rightarrow> addr \<Rightarrow> 'a cheap_scheme" where
  "mark_found g b x =
     (if Object_isMarked (heap g) x then g
      else mark_small g b (b + 16 + line_of b x) (line_addr b (line_of b x)) x)"

lemma Block_line_eq: "i < 127 \<Longrightarrow> Block_line b (int i) = ret (line_addr b i)"
  by (rule Block_line_addr)

lemma Block_lineHeader_eq: "i < 127 \<Longrightarrow> Block_lineHeader b (int i) = ret (b + 16 + i)"
  by (simp add: Block_lineHeader_def Block_lineHeaders_def)

lemma getOffset_eq: "hdr_object (m a) \<Longrightarrow> LineHeader_getOffset m a = ret (int (hdr_offset (m a)))"
  by (simp add: LineHeader_getOffset_def LineHeader_containsObject_iff hdr_offset_def)

text \<open>Lines in which no object begins are skipped, one with an object is walked.\<close>

lemma find_in_lines_skip:
  assumes "\<And>k. j \<le> k \<Longrightarrow> k < i \<Longrightarrow> \<not> hdr_object (heap g (b + 16 + k))" and "j \<le> i" and "i \<le> 127"
  shows "find_in_lines g p b (int i - 1) = find_in_lines g p b (int j - 1)"
  using assms
proof (induction i)
  case (Suc i)
  show ?case
  proof (cases "j = Suc i")
    case False
    then have "find_in_lines g p b (int i) = find_in_lines g p b (int i - 1)"
      using Suc.prems Block_lineHeader_eq [of i b]
      by (subst find_in_lines.simps) (simp add: LineHeader_containsObject_iff)
    with Suc False show ?thesis by simp
  qed simp
qed simp

lemma find_in_lines_here:
  assumes "hdr_object (heap g (b + 16 + i))" and "i < 127"
  shows "find_in_lines g p b (int i) =
    find_in_line g p b (b + 16 + i) (line_addr b i) (int (hdr_offset (heap g (b + 16 + i))))"
  using assms Block_line_eq [OF assms(2), of b] Block_lineHeader_eq [OF assms(2), of b]
  by (subst find_in_lines.simps) (simp add: LineHeader_containsObject_iff getOffset_eq)

lemma find_in_lines_end: "find_in_lines g p b (-1) = ret g"
  by (subst find_in_lines.simps) simp

lemma line_of_pointer:
  assumes "b + 256 \<le> p" and "p < b + 32768"
  shows "Block_lineIndex b p = ret (int (line_of b p))"
proof -
  have "int p - int (b + 256) = int (p - (b + 256))" using assms(1) by simp
  moreover have "line_of b p < 127" by (rule line_of_less [OF assms])
  ultimately show ?thesis using assms
    by (simp add: Block_lineIndex_def Block_start_def Block_stop_def line_of_def zdiv_int [symmetric])
qed

text \<open>The first line the search looks at: the one of the pointer, or the one before when the pointer lies in front of its objects.\<close>

definition search_end :: "mem \<Rightarrow> addr \<Rightarrow> addr \<Rightarrow> nat" where
  "search_end m b p = (let i = line_of b p; h = m (b + 16 + i)
     in if hdr_object h \<and> p < line_addr b i + hdr_offset h then i else Suc i)"

lemma findAndMark_search:
  assumes b: "is_block b" and p: "b + 256 \<le> p" "p < b + 32768"
  shows "Collector_findAndMarkSmallObject g p = find_in_lines g p b (int (search_end (heap g) b p) - 1)"
proof -
  have i: "line_of b p < 127" by (rule line_of_less [OF p])
  then show ?thesis
    using Block_from_inside [OF b, of p] p Block_line_eq [OF i, of b] Block_lineHeader_eq [OF i, of b]
    by (cases "line_of b p") (auto simp: Collector_findAndMarkSmallObject_def line_of_pointer LineHeader_containsObject_iff
        getOffset_eq of_nat_diff search_end_def Let_def find_in_lines_end)
qed

text \<open>The lines searched are those in which an object begins at or before the pointer.\<close>

lemma search_end_lines:
  assumes l: "layout m b S" and p: "b + 256 \<le> p" "p < b + 32768"
  shows "search_end m b p \<le> 127"
    and "y \<in> S \<Longrightarrow> y \<le> p \<Longrightarrow> line_of b y < search_end m b p"
    and "y \<in> S \<Longrightarrow> line_of b y < search_end m b p \<Longrightarrow> \<exists>z \<in> S. z \<le> p \<and> line_of b z = line_of b y"
proof -
  let ?i = "line_of b p"
  let ?h = "m (b + 16 + ?i)"
  have i: "?i < 127" by (rule line_of_less [OF p])
  note h = layout_header [OF l i]
  have lp: "line_addr b ?i \<le> p" using line_of_bounds [OF p(1)] by auto
  show "search_end m b p \<le> 127" using i by (simp add: search_end_def Let_def)
  show "line_of b y < search_end m b p" if "y \<in> S" "y \<le> p"
    using line_of_mono [OF that(2), of b] h that by (force simp: search_end_def Let_def less_Suc_eq_le)
  show "\<exists>z \<in> S. z \<le> p \<and> line_of b z = line_of b y" if y: "y \<in> S" "line_of b y < search_end m b p"
  proof (cases "line_of b y < ?i")
    case True
    then have "y \<le> p" using line_of_less_iff [OF layoutD(1) [OF l y(1)], of ?i] lp by simp
    with y(1) show ?thesis by blast
  next
    case False
    with y(2) have "line_of b y = ?i" "\<not> (hdr_object ?h \<and> p < line_addr b ?i + hdr_offset ?h)"
      by (auto simp: search_end_def Let_def split: if_splits)
    with h y(1) show ?thesis by (metis linorder_not_less)
  qed
qed

text \<open>The line that decides: the last one in which an object begins at or before the pointer.\<close>

lemma last_object_line:
  fixes j :: nat
  assumes "\<exists>y \<in> S. y \<le> p" and "\<And>y. y \<in> S \<Longrightarrow> y \<le> p \<Longrightarrow> line_of b y < j"
  obtains z where "z \<in> S" and "z \<le> p" and "\<And>y. y \<in> S \<Longrightarrow> y \<le> p \<Longrightarrow> line_of b y \<le> line_of b z"
proof -
  define K where "K = line_of b ` {y \<in> S. y \<le> p}"
  have fin: "finite K" "K \<noteq> {}" using assms by (auto simp: K_def intro: finite_subset [of _ "{..<j}"])
  have "Max K \<in> K" using Max_in [OF fin] .
  then obtain z where z: "z \<in> S" "z \<le> p" "Max K = line_of b z" by (auto simp: K_def)
  have "line_of b y \<le> line_of b z" if "y \<in> S" "y \<le> p" for y
  proof -
    have "line_of b y \<in> K" using that by (auto simp: K_def)
    from Max_ge [OF fin(1) this] z(3) show ?thesis by simp
  qed
  with z(1,2) show thesis by (rule that)
qed

lemma find_small_spec:
  assumes l: "layout (heap g) b S" and b: "is_block b" and p: "b + 256 \<le> p" "p < b + 32768"
  shows "(\<forall>x. holds_pointer (heap g) b S p x \<longrightarrow> Collector_findAndMarkSmallObject g p = ret (mark_found g b x)) \<and>
    ((\<forall>x. \<not> holds_pointer (heap g) b S p x) \<longrightarrow> Collector_findAndMarkSmallObject g p = ret g)"
proof -
  let ?m = "heap g"
  define j where "j = search_end ?m b p"
  note unf = findAndMark_search [OF b p, where g = g, folded j_def]
  note j = search_end_lines [OF l p, folded j_def]
  have header: "hdr_object (?m (b + 16 + k)) \<longleftrightarrow> (\<exists>y \<in> S. line_of b y = k)" if "k < j" for k
    using layout_header(1) [OF l, of k] that j(1) by simp
  have contained: "x \<le> p" if "Object_contains ?m x p" for x
    using that by (auto simp: Object_contains_def Object_mutatorAddress_def)
  show ?thesis
  proof (cases "\<exists>y \<in> S. y \<le> p")
    case False
    then have "\<not> hdr_object (?m (b + 16 + k))" if "k < j" for k using header [OF that] j(3) that by blast
    then have "Collector_findAndMarkSmallObject g p = ret g"
      using find_in_lines_skip [of 0 j g b p] j(1) unf by (simp add: find_in_lines_end)
    then show ?thesis using False contained by (auto simp: holds_pointer_def)
  next
    case True
    from last_object_line [OF True j(2)] obtain z
      where z: "z \<in> S" "z \<le> p" and top: "\<And>y. y \<in> S \<Longrightarrow> y \<le> p \<Longrightarrow> line_of b y \<le> line_of b z" by blast
    let ?k = "line_of b z"
    have k: "?k < j" "?k < 127" using j(2) [OF z] j(1) by simp_all
    have "\<not> hdr_object (?m (b + 16 + k'))" if "Suc ?k \<le> k'" "k' < j" for k'
      using header [OF that(2)] j(3) that top by fastforce
    from find_in_lines_skip [OF this, where p = p] k j(1) unf
    have at: "Collector_findAndMarkSmallObject g p = find_in_lines g p b (int ?k)" by simp
    have hd: "hdr_object (?m (b + 16 + ?k))" using header [OF k(1)] z by blast
    let ?f = "line_addr b ?k + hdr_offset (?m (b + 16 + ?k))"
    have f: "?f \<in> S" "line_of b ?f = ?k" "\<And>y. y \<in> S \<Longrightarrow> line_of b y = ?k \<Longrightarrow> ?f \<le> y"
      using layout_header(2) [OF l k(2) hd] by auto
    have at: "Collector_findAndMarkSmallObject g p =
        find_in_line g p b (b + 16 + ?k) (line_addr b ?k) (int ?f - int (line_addr b ?k))"
      unfolding at find_in_lines_here [OF hd k(2)] by simp
    have holder: "holds_pointer ?m b S p x \<longleftrightarrow> x \<in> S \<and> line_of b x = ?k \<and> Object_contains ?m x p" for x
      using top z contained by (auto simp: holds_pointer_def intro: le_antisym)
    show ?thesis
      using find_in_line_spec [OF l f(1,2), of p "b + 16 + ?k"] f(3) unfolding at holder mark_found_def by auto
  qed
qed

lemma holds_pointer_unique:
  assumes l: "layout m b S" and "holds_pointer m b S p x" and "holds_pointer m b S p y"
  shows "x = y"
proof -
  have xy: "x \<in> S" "y \<in> S" "x + 16 \<le> p" "p < x + Object_size m x" "y + 16 \<le> p" "p < y + Object_size m y"
    using assms(2,3) by (auto simp: holds_pointer_def Object_contains_def Object_mutatorAddress_def)
  then have "line_of b x = line_of b y" using assms(2,3) by (auto simp: holds_pointer_def intro!: le_antisym)
  then show ?thesis
    using layout_same_line [OF l xy(1,2)] layout_same_line [OF l xy(2,1)] xy by (cases x y rule: linorder_cases) auto
qed

section \<open>Writes that keep the layout\<close>

text \<open>A layout depends on the sizes, the sizes of zero behind the last objects, and the headers up to the mark bit.\<close>

lemma layout_cong:
  assumes l: "layout m b S" and size: "\<And>x. x \<in> S \<Longrightarrow> Object_size m' x = Object_size m x"
    and zero: "\<And>x. x \<in> S \<Longrightarrow> x + Object_size m x < line_addr b (line_of b x) + 256 \<Longrightarrow> x + Object_size m x \<notin> S \<Longrightarrow>
      Object_size m (x + Object_size m x) = 0 \<Longrightarrow> Object_size m' (x + Object_size m x) = 0"
    and hdr: "\<And>i. i < 127 \<Longrightarrow> hdr_object (m' (b + 16 + i)) = hdr_object (m (b + 16 + i)) \<and>
      hdr_offset (m' (b + 16 + i)) = hdr_offset (m (b + 16 + i))"
  shows "layout m' b S"
proof -
  have "chain_ok m' b S x" if "x \<in> S" for x
    using layoutD(7) [OF l that] size [OF that] zero [OF that] by (auto simp: chain_ok_def Let_def)
  moreover have "well_placed m' b x" if "x \<in> S" for x
    using l that size [OF that] by (simp add: layout_def well_placed_def)
  moreover have "apart m' b x y" if "x \<in> S" "y \<in> S" "x < y" for x y
    using layout_apart [OF l that] size [OF that(1)] by (simp add: apart_def)
  moreover have "header_ok m' b S i" if "i < 127" for i
    using l that hdr [OF that] by (simp add: layout_def header_ok_def Let_def)
  ultimately show ?thesis by (simp add: layout_def)
qed

text \<open>Mark bytes lie in no size field and in no size of zero behind an object.\<close>

lemma size_field_apart:
  assumes l: "layout m b S" and b: "8 dvd b" and x: "x \<in> S" and y: "y \<in> S"
  shows "y + 8 < x \<or> x + 8 \<le> y + 8"
proof (cases "y < x")
  case True
  from layout_apart [OF l y x True] layoutD(3) [OF l y] layoutD(1) [OF l x] line_of_bounds [OF layoutD(1) [OF l y]]
    line_of_ge_iff [of b x "line_of b y + 2"]
  show ?thesis by (auto simp: apart_def line_addr_def)
qed simp

lemma zero_field_apart:
  assumes l: "layout m b S" and b: "8 dvd b" and x: "x \<in> S" and y: "y \<in> S"
  defines "e \<equiv> x + Object_size m x"
  assumes e: "e < line_addr b (line_of b x) + 256" "e \<notin> S"
  shows "y + 8 < e \<or> e + 8 \<le> y + 8"
proof (cases "y < e")
  case True
  have last: "\<forall>y \<in> S. line_of b y = line_of b x \<longrightarrow> y \<le> x"
    using layout_next(1) [OF l x] e by (auto simp: e_def)
  show ?thesis
  proof (cases "line_of b y = line_of b x")
    case True
    then have "y \<le> x" using last y by blast
    then show ?thesis using layoutD(3) [OF l x] by (simp add: e_def)
  next
    case False
    have "line_of b y \<le> line_of b x"
      using \<open>y < e\<close> e(1) line_of_less_iff [OF layoutD(1) [OF l y], of "Suc (line_of b x)"] by (simp add: line_addr_Suc)
    then have "line_of b y < line_of b x" using False by simp
    then have "y < line_addr b (line_of b x)" using line_of_less_iff [OF layoutD(1) [OF l y]] by simp
    then have "y + 8 \<le> line_addr b (line_of b x)"
      by (intro dvd_step layoutD(5) [OF l y] line_addr_dvd b)
    then show ?thesis using line_of_bounds [OF layoutD(1) [OF l x]] layoutD(3) [OF l x] by (simp add: e_def)
  qed
qed simp

lemma layout_marks:
  assumes l: "layout m b S" and b: "8 dvd b"
    and bytes: "\<And>a. b + 256 \<le> a \<Longrightarrow> a < b + 32768 \<Longrightarrow> m' a \<noteq> m a \<Longrightarrow> \<exists>x \<in> S. a = x + 8"
    and hdr: "\<And>i. i < 127 \<Longrightarrow> hdr_object (m' (b + 16 + i)) = hdr_object (m (b + 16 + i)) \<and>
      hdr_offset (m' (b + 16 + i)) = hdr_offset (m (b + 16 + i))"
  shows "layout m' b S"
proof (rule layout_cong [OF l _ _ hdr])
  fix x assume x: "x \<in> S"
  note d = layoutD [OF l x]
  show "Object_size m' x = Object_size m x"
    unfolding Object_size_def
  proof (rule load_cong, rule ccontr)
    fix a assume a: "x \<le> a" "a < x + 8" "m' a \<noteq> m a"
    with bytes [of a] d obtain y where "y \<in> S" "a = y + 8" by auto
    with size_field_apart [OF l b x \<open>y \<in> S\<close>] a show False by simp
  qed
next
  fix x assume x: "x \<in> S" and e: "x + Object_size m x < line_addr b (line_of b x) + 256" "x + Object_size m x \<notin> S"
    and z: "Object_size m (x + Object_size m x) = 0"
  note d = layoutD [OF l x]
  have "line_addr b (line_of b x) + 256 \<le> b + 32768" using d(8) by (simp add: line_addr_def)
  moreover have "x + Object_size m x + 8 \<le> line_addr b (line_of b x) + 256"
    by (intro dvd_step e(1) dvd_add d(5,6) line_addr_dvd b) simp_all
  moreover have "Object_size m' (x + Object_size m x) = Object_size m (x + Object_size m x)"
    unfolding Object_size_def
  proof (rule load_cong, rule ccontr)
    fix a assume a: "x + load 8 m x \<le> a" "a < x + load 8 m x + 8" "m' a \<noteq> m a"
    with bytes [of a] d calculation obtain y where "y \<in> S" "a = y + 8" by (auto simp: Object_size_def)
    with zero_field_apart [OF l b x \<open>y \<in> S\<close>] e a show False by (simp add: Object_size_def)
  qed
  ultimately show "Object_size m' (x + Object_size m x) = 0" using z by simp
qed (use assms in auto)

section \<open>Unmarking\<close>

definition clear_marks :: "addr set \<Rightarrow> mem \<Rightarrow> mem" where
  "clear_marks A m = (\<lambda>a. if \<exists>x \<in> A. a = x + 8 then 0 else m a)"

lemma Object_unmark_clear: "Object_unmark m x = clear_marks {x} m"
  by (simp add: Object_unmark_def clear_marks_def fun_eq_iff store.simps)

lemma clear_marks_clear_marks: "clear_marks A (clear_marks B m) = clear_marks (A \<union> B) m"
  by (auto simp: clear_marks_def fun_eq_iff)

lemma layout_clear_marks:
  assumes "layout m b S" and "8 dvd b" and "A \<subseteq> S"
  shows "layout (clear_marks A m) b S"
proof (rule layout_marks [OF assms(1,2)])
  fix i :: nat assume "i < 127"
  have "clear_marks A m (b + 16 + i) = m (b + 16 + i)"
    using layoutD(1) [OF assms(1)] assms(3) \<open>i < 127\<close> by (fastforce simp: clear_marks_def)
  then show "hdr_object (clear_marks A m (b + 16 + i)) = hdr_object (m (b + 16 + i)) \<and>
      hdr_offset (clear_marks A m (b + 16 + i)) = hdr_offset (m (b + 16 + i))" by simp
qed (use assms(3) in \<open>auto simp: clear_marks_def split: if_splits\<close>)

lemma clear_marks_size: "layout m b S \<Longrightarrow> 8 dvd b \<Longrightarrow> A \<subseteq> S \<Longrightarrow> x \<in> S \<Longrightarrow> Object_size (clear_marks A m) x = Object_size m x"
  unfolding Object_size_def
  by (rule load_cong) (use size_field_apart [of m b S x] in \<open>fastforce simp: clear_marks_def\<close>)

lemma unmark_line_spec:
  assumes "layout m b S" and b: "8 dvd b" and "x \<in> S" and "line_of b x = i"
  shows "unmark_line (line_addr b i) (int x - int (line_addr b i)) m =
    ret (clear_marks {y \<in> S. line_of b y = i \<and> x \<le> y} m)"
  using assms(1,3,4)
proof (induction "line_addr b i + 256 - x" arbitrary: x m rule: less_induct)
  case less
  note l = less.prems(1) and x = less.prems(2,3)
  note d = layoutD [OF l x(1)]
  let ?L = "line_addr b i" and ?m = "Object_unmark m x"
  let ?e = "x + Object_size m x"
  have lx: "?L \<le> x" "x < ?L + 256" using line_of_bounds [OF d(1)] x(2) by auto
  have l': "layout ?m b S" unfolding Object_unmark_clear by (rule layout_clear_marks [OF l b]) (use x in simp)
  have sz: "Object_size ?m y = Object_size m y" if "y \<in> S" for y
    unfolding Object_unmark_clear by (rule clear_marks_size [OF l b _ that]) (use x in simp)
  have step: "unmark_line ?L (int x - int ?L) m = unmark_line ?L (int ?e - int ?L) ?m"
    using lx d(3,4) c_int_offset [OF lx d(4)] sz [OF x(1)]
    by (subst unmark_line.simps) (simp add: Let_def diff_add_eq)
  show ?case
  proof (cases "?e < ?L + 256 \<and> ?e \<in> S")
    case True
    with layout_next(1) [OF l x(1)] x(2) lx d(1) have e: "?e \<in> S" "line_of b ?e = i"
      by (auto simp: line_of_iff)
    have "{y \<in> S. line_of b y = i \<and> x \<le> y} = {y \<in> S. line_of b y = i \<and> ?e \<le> y} \<union> {x}"
      using layout_same_line [OF l x(1)] x d(3) by force
    moreover have dec: "?L + 256 - ?e < ?L + 256 - x" using d(3) lx True by linarith
    ultimately show ?thesis
      using less.hyps [OF dec l' e] unfolding step by (simp add: Object_unmark_clear clear_marks_clear_marks)
  next
    case fin: False
    have stop: "unmark_line ?L (int ?e - int ?L) ?m = ret ?m"
    proof (cases "?e < ?L + 256")
      case True
      with layout_next(1) [OF l' x(1)] x(2) fin sz [OF x(1)] have "Object_size ?m ?e = 0" by auto
      with True lx show ?thesis by (subst unmark_line.simps) (simp add: Let_def nat_int_add)
    qed (subst unmark_line.simps, simp)
    have "y = x" if "y \<in> S" "line_of b y = i" "x \<le> y" for y
      using layout_next(1) [OF l x(1), unfolded x(2)] layout_next(2) [OF l x(1), unfolded x(2)] fin that
      by (cases "?e < ?L + 256") (simp_all add: le_antisym)
    then have "{y \<in> S. line_of b y = i \<and> x \<le> y} = {x}" using x by auto
    with stop step show ?thesis by (simp add: Object_unmark_clear)
  qed
qed

lemma hdr_unmark: "hdr_object (h AND NOT 1) = hdr_object h" "hdr_offset (h AND NOT 1) = hdr_offset h"
  "\<not> hdr_marked (h AND NOT 1)"
proof -
  have "(h AND NOT 1) AND 0xFC = h AND 0xFC"
    unfolding and.assoc by (rule arg_cong [where f = "(AND) h"]) simp
  then show "hdr_offset (h AND NOT 1) = hdr_offset h" by (simp add: hdr_offset_def)
qed (auto simp: hdr_object_def hdr_marked_def bit_and_iff bit_not_iff bit_1_iff)

lemma hdr_mark: "hdr_object (h OR 1) = hdr_object h" "hdr_offset (h OR 1) = hdr_offset h" "hdr_marked (h OR 1)"
proof -
  have "(h OR 1) AND 0xFC = (h AND 0xFC) OR (1 AND 0xFC)" by (rule bit.conj_disj_distrib2)
  then have "(h OR 1) AND 0xFC = h AND 0xFC" by simp
  then show "hdr_offset (h OR 1) = hdr_offset h" by (simp add: hdr_offset_def)
qed (auto simp: hdr_object_def hdr_marked_def bit_or_iff bit_1_iff)

text \<open>The memory after the lines from \<open>i\<close> on were unmarked.\<close>

definition unmark_from :: "addr \<Rightarrow> addr set \<Rightarrow> nat \<Rightarrow> mem \<Rightarrow> mem" where
  "unmark_from b S i m = (\<lambda>a. if \<exists>x \<in> S. i \<le> line_of b x \<and> a = x + 8 then 0
     else if b + 16 + i \<le> a \<and> a < b + 143 then m a AND NOT 1 else m a)"

lemma unmark_lines_spec:
  assumes "layout m b S" and b: "8 dvd b"
  shows "unmark_lines b i m = ret (unmark_from b S i m)"
  using assms(1)
proof (induction "127 - i" arbitrary: i m)
  case 0
  have "unmark_from b S i m = m"
    using 0 layoutD(8) [OF 0(2)] by (fastforce simp: unmark_from_def fun_eq_iff)
  with 0 show ?case by (simp add: unmark_lines.simps [of b i m])
next
  case (Suc k)
  then have i: "i < 127" by simp
  let ?h = "b + 16 + i"
  let ?m = "LineHeader_unmark m ?h" and ?A = "{y \<in> S. line_of b y = i}"
  have l1: "layout ?m b S"
    by (rule layout_marks [OF Suc.prems b]) (use i in \<open>auto simp: LineHeader_unmark_def hdr_unmark [simplified]\<close>)
  have l2: "layout (clear_marks ?A ?m) b S" by (rule layout_clear_marks [OF l1 b]) simp
  note h = layout_header [OF l1 i]
  have line: "(if hdr_object (?m ?h) then unmark_line (line_addr b i) (int (hdr_offset (?m ?h))) ?m else ret ?m) =
      ret (clear_marks ?A ?m)"
  proof (cases "hdr_object (?m ?h)")
    case True
    note f = h(2) [OF True]
    then have "{y \<in> S. line_of b y = i \<and> line_addr b i + hdr_offset (?m ?h) \<le> y} = ?A" by auto
    with unmark_line_spec [OF l1 b, of "line_addr b i + hdr_offset (?m ?h)" i] f True show ?thesis by simp
  next
    case False
    with h(1) have "?A = {}" by auto
    with False show ?thesis by (simp only: clear_marks_def) simp
  qed
  have "unmark_lines b i m = pbind (if hdr_object (?m ?h)
      then unmark_line (line_addr b i) (int (hdr_offset (?m ?h))) ?m else ret ?m) (\<lambda>m. unmark_lines b (Suc i) m)"
    using i Block_line_eq [OF i, of b]
    by (subst unmark_lines.simps) (simp add: Let_def Block_lineHeaders_def LineHeader_containsObject_iff getOffset_eq)
  also have "\<dots> = unmark_lines b (Suc i) (clear_marks ?A ?m)" unfolding line by simp
  also have "\<dots> = ret (unmark_from b S (Suc i) (clear_marks ?A ?m))" using Suc.hyps l2 by simp
  also have "unmark_from b S (Suc i) (clear_marks ?A ?m) = unmark_from b S i m"
  proof
    fix a
    have hd: "a \<noteq> x + 8" if "x \<in> S" "a < b + 143" for x using layoutD(1) [OF Suc.prems that(1)] that(2) by simp
    show "unmark_from b S (Suc i) (clear_marks ?A ?m) a = unmark_from b S i m a"
    proof (cases "\<exists>x \<in> S. a = x + 8")
      case True
      then obtain x where x: "x \<in> S" "a = x + 8" by blast
      then have "\<not> a < b + 143" using hd by blast
      have ex: "(\<exists>y \<in> S. P y \<and> a = y + 8) \<longleftrightarrow> P x" "(\<exists>y \<in> {y \<in> S. P y}. a = y + 8) \<longleftrightarrow> P x" for P
        using x by auto
      have "a \<noteq> b + 16 + i" using \<open>\<not> a < b + 143\<close> i by simp
      then show ?thesis
        unfolding unmark_from_def clear_marks_def ex LineHeader_unmark_def using \<open>\<not> a < b + 143\<close> by simp
    next
      case False
      then show ?thesis using i by (auto simp: unmark_from_def clear_marks_def LineHeader_unmark_def)
    qed
  qed
  finally show ?case .
qed

section \<open>The small object space\<close>

definition block_objects :: "addr set \<Rightarrow> addr \<Rightarrow> addr set" where
  "block_objects S b = {x \<in> S. b \<le> x \<and> x < b + 32768}"

text \<open>\<open>S\<close> is the set of the objects of the \<open>n\<close> blocks from \<open>start\<close> on.\<close>

definition small_layout :: "mem \<Rightarrow> addr \<Rightarrow> nat \<Rightarrow> addr set \<Rightarrow> bool" where
  "small_layout m start n S \<longleftrightarrow>
     BLOCK_SIZE dvd start \<and> start \<noteq> 0 \<and> start + n * BLOCK_SIZE < 2 ^ 64 \<and>
     (\<forall>x \<in> S. start \<le> x \<and> x < start + n * BLOCK_SIZE) \<and>
     (\<forall>b \<in> set (blocks_from start n). layout m b (block_objects S b))"

lemma layout_same_block:
  assumes "layout m b S" and "\<And>a. b \<le> a \<Longrightarrow> a < b + 32768 \<Longrightarrow> a \<noteq> b \<Longrightarrow> m' a = m a" and "8 dvd b"
  shows "layout m' b S"
  by (rule layout_marks [OF assms(1,3)]) (use assms(2) in auto)

lemma block_of_address:
  assumes "start \<le> a" and "a < start + n * BLOCK_SIZE"
  obtains b where "b \<in> set (blocks_from start n)" "b \<le> a" "a < b + 32768"
proof -
  let ?i = "(a - start) div BLOCK_SIZE"
  have "?i < n" using assms by (intro less_mult_imp_div_less) simp
  moreover have "start + ?i * BLOCK_SIZE \<le> a \<and> a < start + ?i * BLOCK_SIZE + 32768"
    using div_mult_mod_eq [of "a - start" BLOCK_SIZE] assms(1) by (auto simp: algebra_simps)
  ultimately show ?thesis using that [of "start + ?i * BLOCK_SIZE"] by (auto simp: blocks_from_def)
qed

lemma small_layoutD:
  assumes "small_layout m start n S" and "b \<in> set (blocks_from start n)"
  shows "is_block b" "8 dvd b" "layout m b (block_objects S b)" "start \<le> b" "b + 32768 \<le> start + n * BLOCK_SIZE"
proof -
  show le: "start \<le> b" "b + 32768 \<le> start + n * BLOCK_SIZE" using blocks_from_bounds [OF assms(2)] by simp_all
  have "BLOCK_SIZE dvd b" using assms by (auto simp: small_layout_def blocks_from_def intro!: dvd_add)
  with le assms(1) show "is_block b" by (simp add: is_block_def small_layout_def)
  then show "8 dvd b" by (rule is_block_dvd8)
  show "layout m b (block_objects S b)" using assms by (simp add: small_layout_def)
qed

lemma small_layout_object:
  assumes l: "small_layout m start n S" and x: "x \<in> S"
  obtains b where "b \<in> set (blocks_from start n)" "x \<in> block_objects S b" "b + 256 \<le> x" "x + 16 \<le> b + 32768"
    "x + Object_size m x \<le> b + 32768" "16 \<le> Object_size m x" "8 dvd x" "8 dvd Object_size m x"
proof -
  have s: "start \<le> x" "x < start + n * BLOCK_SIZE" using l x by (auto simp: small_layout_def)
  from block_of_address [OF this] obtain b where b: "b \<in> set (blocks_from start n)" "b \<le> x" "x < b + 32768" by blast
  have xb: "x \<in> block_objects S b" using b x by (simp add: block_objects_def)
  note d = layoutD [OF small_layoutD(3) [OF l b(1)] xb]
  show ?thesis by (rule that [OF b(1) xb]) (use d in auto)
qed

text \<open>The memory after unmarking: the mark bytes of objects and blocks, and the mark bits of lines, are cleared.\<close>

definition small_unmarked :: "addr set \<Rightarrow> addr list \<Rightarrow> mem \<Rightarrow> mem" where
  "small_unmarked S bs m = (\<lambda>a. if \<exists>x \<in> S. a = x + 8 then 0 else if a \<in> set bs then 0
     else if \<exists>b \<in> set bs. b + 16 \<le> a \<and> a < b + 143 then m a AND NOT 1 else m a)"

lemma unmark_block_spec:
  assumes "layout m b S" and "is_block b"
  shows "unmark_lines b 0 (Block_unmark m b) = ret (small_unmarked S [b] m)"
proof -
  have "layout (Block_unmark m b) b S"
    by (rule layout_same_block [OF assms(1) _ is_block_dvd8 [OF assms(2)]])
      (simp add: Block_unmark_def store_frame)
  from unmark_lines_spec [OF this is_block_dvd8 [OF assms(2)], of 0]
  show ?thesis by (simp add: unmark_from_def small_unmarked_def Block_unmark_def store.simps fun_eq_iff)
qed

lemma small_unmarked_outside: "(\<forall>x \<in> S. a \<noteq> x + 8) \<Longrightarrow> (\<forall>b \<in> set bs. a < b \<or> b + 143 \<le> a) \<Longrightarrow> small_unmarked S bs m a = m a"
  by (auto simp: small_unmarked_def)

lemma small_unmarked_cong: "m a = m' a \<Longrightarrow> small_unmarked S bs m a = small_unmarked S bs m' a"
  by (simp only: small_unmarked_def)

text \<open>The blocks behind the first, as a small space of their own, whatever happens to the first.\<close>

lemma small_layout_tail:
  assumes l: "small_layout m b (Suc n) S" and same: "\<And>a. b + 32768 \<le> a \<Longrightarrow> m' a = m a"
  shows "small_layout m' (b + BLOCK_SIZE) n {x \<in> S. b + 32768 \<le> x}"
proof -
  have "layout m' c (block_objects {x \<in> S. b + 32768 \<le> x} c)" if c: "c \<in> set (blocks_from (b + BLOCK_SIZE) n)" for c
  proof -
    have c': "c \<in> set (blocks_from b (Suc n))" "b + 32768 \<le> c"
      using c blocks_from_bounds [OF c] by (simp_all add: blocks_from_Suc)
    have "block_objects {x \<in> S. b + 32768 \<le> x} c = block_objects S c" using c'(2) by (auto simp: block_objects_def)
    moreover have "layout m' c (block_objects S c)"
      by (rule layout_same_block [OF small_layoutD(3) [OF l c'(1)] _ small_layoutD(2) [OF l c'(1)]]) (use c'(2) in \<open>simp add: same\<close>)
    ultimately show ?thesis by simp
  qed
  then show ?thesis using l by (auto simp: small_layout_def)
qed

text \<open>Unmarking the first block and then the others unmarks all.\<close>

lemma small_unmarked_Suc:
  assumes l: "small_layout m b (Suc n) S"
  defines "m' \<equiv> small_unmarked (block_objects S b) [b] m"
  shows "small_unmarked {x \<in> S. b + 32768 \<le> x} (blocks_from (b + BLOCK_SIZE) n) m' = small_unmarked S (blocks_from b (Suc n)) m"
proof
  fix a
  let ?bs = "blocks_from (b + BLOCK_SIZE) n" and ?S = "block_objects S b" and ?T = "{x \<in> S. b + 32768 \<le> x}"
  have b: "b \<in> set (blocks_from b (Suc n))" by (simp add: blocks_from_Suc)
  note d = small_layoutD [OF l b]
  have bs: "b + 32768 \<le> c" if "c \<in> set ?bs" for c using blocks_from_bounds [OF that] by simp
  have S: "x \<in> ?T \<or> (x \<in> ?S \<and> x + 16 \<le> b + 32768)" if "x \<in> S" for x
    using layoutD(2,3) [OF d(3), of x] that l by (force simp: block_objects_def small_layout_def)
  show "small_unmarked ?T ?bs m' a = small_unmarked S (blocks_from b (Suc n)) m a"
  proof (cases "a < b + 32768")
    case True
    have no: "\<not> (\<exists>x \<in> ?T. a = x + 8)" "a \<notin> set ?bs" "\<not> (\<exists>c \<in> set ?bs. c + 16 \<le> a \<and> a < c + 143)"
      using True bs by fastforce+
    have ex: "(\<exists>x \<in> S. a = x + 8) \<longleftrightarrow> (\<exists>x \<in> ?S. a = x + 8)" using S no(1) by (auto simp: block_objects_def)
    have "a \<in> set (b # ?bs) \<longleftrightarrow> a \<in> set [b]"
      "(\<exists>c \<in> set (b # ?bs). c + 16 \<le> a \<and> a < c + 143) \<longleftrightarrow> (\<exists>c \<in> set [b]. c + 16 \<le> a \<and> a < c + 143)" using no(2,3) by auto
    then have "m' a = small_unmarked S (blocks_from b (Suc n)) m a"
      unfolding m'_def small_unmarked_def blocks_from_Suc ex by presburger
    then show ?thesis using no by (simp only: small_unmarked_def [of ?T] if_False)
  next
    case False
    then have ex: "(\<exists>x \<in> S. a = x + 8) \<longleftrightarrow> (\<exists>x \<in> ?T. a = x + 8)" using S by fastforce
    have "m' a = m a"
      unfolding m'_def by (rule small_unmarked_outside) (use False layoutD(2,3) [OF d(3)] in fastforce)+
    then have "small_unmarked ?T ?bs m' a = small_unmarked ?T ?bs m a" by (rule small_unmarked_cong)
    moreover have "a \<in> set (b # ?bs) \<longleftrightarrow> a \<in> set ?bs"
      "(\<exists>c \<in> set (b # ?bs). c + 16 \<le> a \<and> a < c + 143) \<longleftrightarrow> (\<exists>c \<in> set ?bs. c + 16 \<le> a \<and> a < c + 143)" using False by auto
    ultimately show ?thesis unfolding small_unmarked_def blocks_from_Suc ex by presburger
  qed
qed

lemma unmark_blocks_spec:
  "small_layout m b n S \<Longrightarrow> unmark_blocks b (b + n * BLOCK_SIZE) m = ret (small_unmarked S (blocks_from b n) m)"
proof (induction n arbitrary: b m S)
  case 0
  then have "S = {}" by (auto simp: small_layout_def)
  then have "small_unmarked S [] m = m" by (simp add: small_unmarked_def)
  then show ?case by (simp add: unmark_blocks.simps blocks_from_def)
next
  case (Suc n)
  let ?m = "small_unmarked (block_objects S b) [b] m"
  have b: "b \<in> set (blocks_from b (Suc n))" by (simp add: blocks_from_Suc)
  note d = small_layoutD [OF Suc.prems b]
  have "?m a = m a" if "b + 32768 \<le> a" for a
    by (rule small_unmarked_outside) (use that layoutD(2,3) [OF d(3)] in fastforce)+
  note rest = Suc.IH [OF small_layout_tail [OF Suc.prems this]]
  have "unmark_blocks b (b + Suc n * BLOCK_SIZE) m = unmark_blocks (b + BLOCK_SIZE) (b + BLOCK_SIZE + n * BLOCK_SIZE) ?m"
    using unmark_block_spec [OF d(3,1)] by (subst unmark_blocks.simps) (simp add: add.assoc)
  with rest small_unmarked_Suc [OF Suc.prems] show ?case by simp
qed

section \<open>A sample block\<close>

text \<open>A block at 65536 with one object of 32 bytes in its first line.\<close>

definition sample_block :: mem where
  "sample_block = (\<lambda>_. 0)(65552 := 2, 65792 := 32)"

lemma load_8_bytes: "load 8 m a = unat (m a) + 256 * (unat (m (a + 1)) + 256 * (unat (m (a + 2)) + 256 * (unat (m (a + 3)) +
    256 * (unat (m (a + 4)) + 256 * (unat (m (a + 5)) + 256 * (unat (m (a + 6)) + 256 * unat (m (a + 7))))))))"
proof -
  have "(8::nat) = Suc (Suc (Suc (Suc (Suc (Suc (Suc (Suc 0)))))))" by simp
  then have "load 8 m a = unat (m a) + 256 * (unat (m (a + 1)) + 256 * (unat (m (a + 1 + 1)) + 256 * (unat (m (a + 1 + 1 + 1)) +
    256 * (unat (m (a + 1 + 1 + 1 + 1)) + 256 * (unat (m (a + 1 + 1 + 1 + 1 + 1)) + 256 * (unat (m (a + 1 + 1 + 1 + 1 + 1 + 1)) +
    256 * unat (m (a + 1 + 1 + 1 + 1 + 1 + 1 + 1))))))))" by (simp only: load.simps mult_0_right add_0_right)
  moreover have "a + 1 + 1 = a + 2" "a + 2 + 1 = a + 3" "a + 3 + 1 = a + 4" "a + 4 + 1 = a + 5" "a + 5 + 1 = a + 6"
    "a + 6 + 1 = a + 7" by simp_all
  ultimately show ?thesis by (simp only:)
qed

lemma sample_block_size: "Object_size sample_block 65792 = 32" "Object_size sample_block 65824 = 0"
  by (simp_all add: sample_block_def Object_size_def load_8_bytes)

lemma sample_block_layout: "layout sample_block 65536 {65792}"
proof -
  have l: "line_of 65536 65792 = 0" by (simp add: line_of_def)
  have "header_ok sample_block 65536 {65792} i" if "i < 127" for i
    using that l by (cases "i = 0")
      (auto simp: header_ok_def sample_block_def hdr_object_def hdr_offset_def line_addr_def Let_def)
  moreover have "chain_ok sample_block 65536 {65792} 65792"
    using sample_block_size l by (simp add: chain_ok_def)
  moreover have "well_placed sample_block 65536 65792" using sample_block_size by (simp add: well_placed_def)
  ultimately show ?thesis by (simp add: layout_def)
qed

lemma sample_block_is_block: "is_block 65536"
  by (simp add: is_block_def)

lemma sample_block_holds: "holds_pointer sample_block 65536 {65792} 65808 65792"
  using sample_block_size by (simp add: holds_pointer_def Object_contains_def Object_mutatorAddress_def)

section \<open>Properties\<close>

text \<open>
  C7. Conservative pointer identification: a word that points into the lines of a block marks the object whose payload
  holds it (also for a pointer to the middle of an object that spans lines), if it is not marked yet, and a word
  that no object holds changes nothing. No assertion fails and the search ends.
\<close>

theorem find_small_object:
  assumes "layout (heap g) b S" and "is_block b" and "b + 256 \<le> p" and "p < b + 32768"
  shows "(\<forall>x. holds_pointer (heap g) b S p x \<longrightarrow> Collector_findAndMarkSmallObject g p = ret (mark_found g b x)) \<and>
    ((\<nexists>x. holds_pointer (heap g) b S p x) \<longrightarrow> Collector_findAndMarkSmallObject g p = ret g)"
  using find_small_spec [OF assms] by blast

text \<open>A state with the sample block as its heap.\<close>

definition sample_table :: Hash where
  "sample_table = \<lparr>entries = replicate 8 \<lparr>e_status = FREE, e_key = 0, e_value = 0\<rparr>, mask = 7, used = 0, deleted = 0\<rparr>"

lemma sample_table_wf: "hash_wf sample_table"
proof -
  have "Hash_create 8 = ret sample_table" by (simp add: create_8 sample_table_def)
  then show ?thesis using hash_create_spec [of 8] by auto
qed

definition sample_global :: GlobalAllocator where
  "sample_global =
     \<lparr>small_heap_size = 32768, small_heap_start = 65536, small_heap_stop = 98304,
      free_list = \<lparr>bl_first = 0, bl_last = 0, bl_size = 0\<rparr>, recyclable_list = \<lparr>bl_first = 0, bl_last = 0, bl_size = 0\<rparr>,
      large_heap_size = 0, large_heap_start = 0, large_heap_stop = 0,
      large_chunk_list = \<lparr>cl_first = 0, cl_last = 0, cl_size = 0\<rparr>,
      finalizers = sample_table,
      memory_limit = 2 ^ 40, free_space_divisor = 3, allocated_bytes_since_collect = 0, total_allocated_bytes = 0\<rparr>"

definition sample_state :: cheap where
  "sample_state =
     \<lparr>heap = sample_block, global = sample_global, is_collecting = False, lock_depth = 0,
      locals = (\<lambda>_. \<lparr>la_block = 0, la_cursor = 0, la_limit = 0, la_next = 0, overflow_block = 0, overflow_cursor = 0,
                     overflow_limit = 0\<rparr>),
      roots = Stack_init 1024, collect_callback = 0\<rparr>"

theorem find_small_object_witness:
  "Collector_findAndMarkSmallObject sample_state 65808 = ret (mark_found sample_state 65536 65792)"
proof -
  have h: "heap sample_state = sample_block" by (simp add: sample_state_def)
  show ?thesis
    using find_small_object [of sample_state 65536 "{65792}" 65808, unfolded h, OF sample_block_layout sample_block_is_block]
      sample_block_holds by simp
qed

end
