(* ===== verification/Mark_Graph.thy ===== *)
theory Mark_Graph
  imports Prelude
begin

text \<open>
  The mark phase as a graph search, apart from the representation of the heap: a stack of address ranges, a set of
  marked nodes, and a \<open>visit\<close> of one word that marks the node the word points to and pushes its payload. Marking
  changes the heap while it is read, so a word may change between two reads; the words that cannot are \<open>steady\<close>.
  The loops end, mark every node that is reachable over steady words, and mark nothing that is not reachable when
  the other words are taken to hold anything.
\<close>

section \<open>Reachability\<close>

type_synonym range = "addr \<times> addr"

text \<open>The addresses of the words of a range, as the scanning loop visits them.\<close>

definition word_addrs :: "range \<Rightarrow> addr set" where
  "word_addrs r = {a. \<exists>k. a = fst r + 8 * k \<and> a < snd r}"

lemma word_addrs_Cons: "sp < bottom \<Longrightarrow> word_addrs (sp, bottom) = insert sp (word_addrs (sp + 8, bottom))"
proof -
  assume lt: "sp < bottom"
  have "(\<exists>k. a = sp + 8 * k) \<longleftrightarrow> a = sp \<or> (\<exists>k. a = sp + 8 + 8 * k)" for a
    by (rule iffI, erule exE, case_tac k) (auto intro: exI [of _ 0] exI [of _ "Suc _"])
  with lt show ?thesis by (auto simp: word_addrs_def)
qed

lemma word_addrs_Nil [simp]: "\<not> sp < bottom \<Longrightarrow> word_addrs (sp, bottom) = {}"
  by (auto simp: word_addrs_def)

text \<open>Nodes are named by their addresses; \<open>words r\<close> are the values a range may hold, \<open>span x\<close> the range to scan for a node.\<close>

inductive_set reached :: "(range \<Rightarrow> addr set) \<Rightarrow> (addr \<Rightarrow> addr option) \<Rightarrow> (addr \<Rightarrow> range option) \<Rightarrow> range set \<Rightarrow> addr set"
  for words :: "range \<Rightarrow> addr set" and target :: "addr \<Rightarrow> addr option" and span :: "addr \<Rightarrow> range option" and R :: "range set"
  where
    root: "r \<in> R \<Longrightarrow> p \<in> words r \<Longrightarrow> target p = Some x \<Longrightarrow> x \<in> reached words target span R"
  | step: "x \<in> reached words target span R \<Longrightarrow> span x = Some r \<Longrightarrow> p \<in> words r \<Longrightarrow> target p = Some y
           \<Longrightarrow> y \<in> reached words target span R"

lemma reached_mono:
  assumes "\<And>r. words r \<subseteq> words' r"
  shows "reached words target span R \<subseteq> reached words' target span R"
proof
  fix x assume "x \<in> reached words target span R"
  then show "x \<in> reached words' target span R"
    by induction (use assms in \<open>blast intro: reached.intros\<close>)+
qed

text \<open>What is scanned: the roots and the payloads of the marked nodes.\<close>

definition sources :: "(addr \<Rightarrow> range option) \<Rightarrow> range set \<Rightarrow> addr set \<Rightarrow> range set" where
  "sources span R M = R \<union> {r. \<exists>x \<in> M. span x = Some r}"

lemma sources_insert: "sources span R (insert x M) = sources span R M \<union> set_option (span x)"
  by (auto simp: sources_def)

lemma reached_closed:
  assumes "\<And>r p x. r \<in> sources span R M \<Longrightarrow> p \<in> words r \<Longrightarrow> target p = Some x \<Longrightarrow> x \<in> M"
  shows "reached words target span R \<subseteq> M"
proof
  fix x assume "x \<in> reached words target span R"
  then show "x \<in> M"
  proof induction
    case (root r p x)
    then show ?case by (intro assms [of r p x]) (simp_all add: sources_def)
  next
    case (step x r p y)
    then show ?case by (intro assms [of r p y]) (auto simp: sources_def)
  qed
qed

lemma reached_sources:
  "M \<subseteq> reached words target span R \<Longrightarrow> r \<in> sources span R M \<Longrightarrow> p \<in> words r \<Longrightarrow> target p = Some x
   \<Longrightarrow> x \<in> reached words target span R"
  by (auto simp: sources_def intro: reached.intros)

section \<open>The search\<close>

locale mark_search =
  fixes invar :: "'s \<Rightarrow> addr set \<Rightarrow> range list \<Rightarrow> bool"
    and read :: "'s \<Rightarrow> addr \<Rightarrow> addr" and visit :: "'s \<Rightarrow> addr \<Rightarrow> 's prog"
    and pop :: "'s \<Rightarrow> 's \<times> range option"
    and scan :: "addr \<Rightarrow> addr \<Rightarrow> 's \<Rightarrow> 's prog" and search :: "'s \<Rightarrow> 's prog"
    and nodes :: "addr set" and target :: "addr \<Rightarrow> addr option" and span :: "addr \<Rightarrow> range option"
    and steady :: "addr \<Rightarrow> bool" and val :: "addr \<Rightarrow> addr"
  assumes nodes_finite: "finite nodes"
    and target_node: "target p = Some x \<Longrightarrow> x \<in> nodes"
    and read_steady: "invar s M ps \<Longrightarrow> steady a \<Longrightarrow> read s a = val a"
    and visit_none: "invar s M ps \<Longrightarrow> target p = None \<Longrightarrow> \<exists>s'. visit s p = ret s' \<and> invar s' M ps"
    and visit_old: "invar s M ps \<Longrightarrow> target p = Some x \<Longrightarrow> x \<in> M \<Longrightarrow> \<exists>s'. visit s p = ret s' \<and> invar s' M ps"
    and visit_new: "invar s M ps \<Longrightarrow> target p = Some x \<Longrightarrow> x \<notin> M \<Longrightarrow>
      \<exists>s'. visit s p = ret s' \<and> invar s' (insert x M) ((case span x of None \<Rightarrow> [] | Some r \<Rightarrow> [r]) @ ps)"
    and pop_none: "invar s M [] \<Longrightarrow> \<exists>s'. pop s = (s', None) \<and> invar s' M []"
    and pop_some: "invar s M (r # ps) \<Longrightarrow> \<exists>s'. pop s = (s', Some r) \<and> invar s' M ps"
    and scan_eq: "scan sp bottom s =
      (if sp < bottom then pbind (visit s (read s sp)) (scan (sp + 8) bottom) else ret s)"
    and search_eq: "search s =
      (case pop s of (s', None) \<Rightarrow> ret s' | (s', Some (sp, bottom)) \<Rightarrow> pbind (scan sp bottom s') search)"
begin

text \<open>The values a range is sure to hold, and those it may hold.\<close>

definition must :: "range \<Rightarrow> addr set" where
  "must r = val ` {a \<in> word_addrs r. steady a}"

definition may :: "range \<Rightarrow> addr set" where
  "may r = (if \<forall>a \<in> word_addrs r. steady a then must r else UNIV)"

lemma must_may: "must r \<subseteq> may r"
  by (simp add: may_def)

text \<open>
  Between two visits: every marked node is reachable, and every source is on the stack, or the words of it that
  are not in the rest \<open>W\<close> of the current range point to marked nodes.
\<close>

definition closed :: "addr set \<Rightarrow> addr set \<Rightarrow> range \<Rightarrow> bool" where
  "closed M W r \<longleftrightarrow> (\<forall>a \<in> word_addrs r. steady a \<longrightarrow> a \<in> W \<or> set_option (target (val a)) \<subseteq> M)"

definition progress :: "range set \<Rightarrow> addr set \<Rightarrow> range list \<Rightarrow> addr set \<Rightarrow> bool" where
  "progress R M ps W \<longleftrightarrow>
     M \<subseteq> nodes \<and> M \<subseteq> reached may target span R \<and> set ps \<subseteq> sources span R M \<and>
     (\<forall>r \<in> sources span R M. r \<in> set ps \<or> closed M W r)"

definition pending_work :: "addr set \<Rightarrow> range list \<Rightarrow> nat" where
  "pending_work M ps = 2 * card (nodes - M) + length ps"

lemma pending_work_insert:
  assumes "x \<in> nodes" and "x \<notin> M" and "length qs \<le> 1"
  shows "pending_work (insert x M) (qs @ ps) < pending_work M ps"
proof -
  have "nodes - insert x M = (nodes - M) - {x}" by blast
  then have "card (nodes - insert x M) < card (nodes - M)"
    using card_Diff1_less [of "nodes - M" x] assms nodes_finite by simp
  with assms(3) show ?thesis by (simp add: pending_work_def)
qed

lemma closed_mono: "closed M W r \<Longrightarrow> M \<subseteq> M' \<Longrightarrow> closed M' W r"
  by (auto simp: closed_def)

lemma closed_step: "closed M (insert a W) r \<Longrightarrow> steady a \<longrightarrow> set_option (target (val a)) \<subseteq> M \<Longrightarrow> closed M W r"
  by (auto simp: closed_def)

text \<open>A visit of the word at \<open>a\<close>, one of the words of a source \<open>r\<close>.\<close>

lemma visit_progress:
  assumes inv: "invar s M ps" and pr: "progress R M ps (insert a W)"
    and r: "r \<in> sources span R M" "a \<in> word_addrs r"
  shows "\<exists>s' M' ps'. visit s (read s a) = ret s' \<and> invar s' M' ps' \<and> progress R M' ps' W \<and>
    M \<subseteq> M' \<and> pending_work M' ps' \<le> pending_work M ps"
proof -
  let ?p = "read s a"
  have p: "steady a \<Longrightarrow> ?p = val a" using read_steady [OF inv] .
  have in_may: "?p \<in> may r"
    using r(2) p by (auto simp: may_def must_def)
  show ?thesis
  proof (cases "set_option (target ?p) \<subseteq> M")
    case True
    then obtain s' where s': "visit s ?p = ret s'" "invar s' M ps"
      using visit_none [OF inv, of ?p] visit_old [OF inv, of ?p] by (cases "target ?p") auto
    have "progress R M ps W"
      using pr True p by (auto simp: progress_def intro: closed_step)
    with s' show ?thesis by blast
  next
    case False
    then obtain x where x: "target ?p = Some x" "x \<notin> M" by (cases "target ?p") auto
    let ?q = "case span x of None \<Rightarrow> [] | Some r \<Rightarrow> [r]"
    obtain s' where s': "visit s ?p = ret s'" "invar s' (insert x M) (?q @ ps)"
      using visit_new [OF inv x] by blast
    have q: "set ?q = set_option (span x)" by (cases "span x") auto
    have "progress R (insert x M) (?q @ ps) W"
      unfolding progress_def sources_insert
    proof (intro conjI ballI)
      show "insert x M \<subseteq> nodes" using pr target_node [OF x(1)] by (simp add: progress_def)
      show "insert x M \<subseteq> reached may target span R"
        using pr reached_sources [of M may target span R r "read s a" x] r(1) in_may x(1) by (simp add: progress_def)
      show "set (?q @ ps) \<subseteq> sources span R M \<union> set_option (span x)"
        using pr q by (auto simp: progress_def)
      fix r' assume "r' \<in> sources span R M \<union> set_option (span x)"
      then show "r' \<in> set (?q @ ps) \<or> closed (insert x M) W r'"
      proof
        assume "r' \<in> sources span R M"
        with pr consider "r' \<in> set ps" | "closed M (insert a W) r'" by (auto simp: progress_def)
        then show ?thesis
        proof cases
          case 2
          then have "closed (insert x M) (insert a W) r'" by (rule closed_mono) blast
          then show ?thesis using p x(1) by (auto intro: closed_step)
        qed simp
      qed (use q in simp)
    qed
    moreover have "pending_work (insert x M) (?q @ ps) \<le> pending_work M ps"
      using pending_work_insert [OF target_node [OF x(1)] x(2), of ?q ps] by (cases "span x") simp_all
    ultimately show ?thesis using s' by blast
  qed
qed

lemma scan_progress:
  assumes "invar s M ps" and "progress R M ps (word_addrs (sp, bottom))"
    and "r \<in> sources span R M" "word_addrs (sp, bottom) \<subseteq> word_addrs r"
  shows "\<exists>s' M' ps'. scan sp bottom s = ret s' \<and> invar s' M' ps' \<and> progress R M' ps' {} \<and>
    pending_work M' ps' \<le> pending_work M ps"
  using assms
proof (induction "bottom - sp" arbitrary: sp s M ps rule: less_induct)
  case less
  show ?case
  proof (cases "sp < bottom")
    case False
    then show ?thesis using less.prems by (auto simp: scan_eq)
  next
    case True
    note W = word_addrs_Cons [OF True]
    obtain s1 M1 ps1 where 1: "visit s (read s sp) = ret s1" "invar s1 M1 ps1"
      "progress R M1 ps1 (word_addrs (sp + 8, bottom))" "M \<subseteq> M1" "pending_work M1 ps1 \<le> pending_work M ps"
      using visit_progress [OF less.prems(1) _ less.prems(3), of sp "word_addrs (sp + 8, bottom)"] less.prems(2,4) W by auto
    have "r \<in> sources span R M1" using less.prems(3) 1(4) by (auto simp: sources_def)
    moreover have "word_addrs (sp + 8, bottom) \<subseteq> word_addrs r" using less.prems(4) W by blast
    ultimately obtain s' M' ps' where "scan (sp + 8) bottom s1 = ret s'" "invar s' M' ps'" "progress R M' ps' {}"
      "pending_work M' ps' \<le> pending_work M1 ps1"
      using less.hyps [OF _ 1(2,3)] True by fastforce
    with 1 True show ?thesis by (subst scan_eq) fastforce
  qed
qed

lemma search_progress:
  assumes "invar s M ps" and "progress R M ps {}"
  shows "\<exists>s' M'. search s = ret s' \<and> invar s' M' [] \<and> reached must target span R \<subseteq> M' \<and> M' \<subseteq> reached may target span R"
  using assms
proof (induction "pending_work M ps" arbitrary: s M ps rule: less_induct)
  case less
  show ?case
  proof (cases ps)
    case Nil
    then obtain s' where s': "pop s = (s', None)" "invar s' M []" using pop_none less.prems(1) by blast
    have "reached must target span R \<subseteq> M"
    proof (rule reached_closed)
      fix r p x assume r: "r \<in> sources span R M" "p \<in> must r" "target p = Some x"
      then obtain a where a: "a \<in> word_addrs r" "steady a" "p = val a" by (auto simp: must_def)
      have "closed M {} r" using less.prems(2) Nil r(1) by (simp add: progress_def)
      with a r(3) show "x \<in> M" by (auto simp: closed_def)
    qed
    then show ?thesis using s' less.prems(2) by (subst search_eq) (auto simp: progress_def)
  next
    case (Cons r qs)
    then obtain s1 where s1: "pop s = (s1, Some r)" "invar s1 M qs" using pop_some less.prems(1) by blast
    have now: "closed M (word_addrs r) r" by (simp add: closed_def)
    have "r' \<in> set qs \<or> closed M (word_addrs r) r'" if "r' \<in> sources span R M" for r'
    proof (cases "r' = r \<or> r' \<in> set qs")
      case False
      then have "closed M {} r'" using less.prems(2) Cons that by (auto simp: progress_def)
      then show ?thesis by (simp add: closed_def)
    qed (use now in auto)
    then have "progress R M qs (word_addrs (fst r, snd r))"
      using less.prems(2) Cons by (simp add: progress_def)
    moreover have "r \<in> sources span R M" using less.prems(2) Cons by (auto simp: progress_def)
    ultimately obtain s2 M2 ps2 where 2: "scan (fst r) (snd r) s1 = ret s2" "invar s2 M2 ps2" "progress R M2 ps2 {}"
      "pending_work M2 ps2 \<le> pending_work M qs"
      using scan_progress [OF s1(2), of R "fst r" "snd r" r] by auto
    have "pending_work M2 ps2 < pending_work M ps" using 2(4) Cons by (simp add: pending_work_def)
    from less.hyps [OF this 2(2,3)] 2(1) s1(1) show ?thesis
      by (subst search_eq) (simp add: case_prod_beta)
  qed
qed

lemma search_reaches:
  assumes "invar s {} ps"
  shows "\<exists>s' M. search s = ret s' \<and> invar s' M [] \<and>
    reached must target span (set ps) \<subseteq> M \<and> M \<subseteq> reached may target span (set ps)"
  by (rule search_progress [OF assms]) (simp add: progress_def sources_def)

end

end
