(* ===== verification/Mark_Phase.thy ===== *)
theory Mark_Phase
  imports Layout Mark_Graph Chunk_Sweep
begin

text \<open>
  The mark phase of the collector on the heap: the graph of the small objects and the large chunks, and the proof that
  \<open>Collector_mark\<close> is the search of \<open>Mark_Graph\<close> on it. The state between two visits is described against the heap
  at the start of the phase: marking writes the mark bytes of objects and blocks and the mark bits of lines, and nothing
  else.
\<close>

section \<open>The heap at the start\<close>

text \<open>
  \<open>sh_objects\<close> are the objects of the \<open>sh_blocks\<close> blocks of the small object space, \<open>sh_cells\<close> the chunks of the large
  one.
\<close>

record shape =
  sh_heap :: mem
  sh_global :: GlobalAllocator
  sh_blocks :: nat
  sh_objects :: "addr set"
  sh_cells :: "cell list"

definition shape_blocks :: "shape \<Rightarrow> addr list" where
  "shape_blocks h = blocks_from (small_heap_start (sh_global h)) (sh_blocks h)"

definition shape_wf :: "shape \<Rightarrow> bool" where
  "shape_wf h \<longleftrightarrow>
     small_layout (sh_heap h) (small_heap_start (sh_global h)) (sh_blocks h) (sh_objects h) \<and>
     small_heap_stop (sh_global h) = small_heap_start (sh_global h) + sh_blocks h * BLOCK_SIZE \<and>
     chunk_list (sh_heap h) (large_chunk_list (sh_global h)) (large_heap_start (sh_global h)) (sh_cells h) \<and>
     large_heap_stop (sh_global h) = large_heap_start (sh_global h) + extent (sh_cells h) \<and>
     8 dvd large_heap_start (sh_global h) \<and> (\<forall>c \<in> set (sh_cells h). 8 dvd cell_size c) \<and>
     (small_heap_stop (sh_global h) \<le> large_heap_start (sh_global h) \<or>
      large_heap_stop (sh_global h) \<le> small_heap_start (sh_global h))"

text \<open>The shape of a state.\<close>

definition shape_of :: "'a gheap_scheme \<Rightarrow> nat \<Rightarrow> addr set \<Rightarrow> cell list \<Rightarrow> shape" where
  "shape_of g n S cs = \<lparr>sh_heap = heap g, sh_global = global g, sh_blocks = n, sh_objects = S, sh_cells = cs\<rparr>"

lemma shape_of_sel [simp]:
  "sh_heap (shape_of g n S cs) = heap g" "sh_global (shape_of g n S cs) = global g" "sh_blocks (shape_of g n S cs) = n"
  "sh_objects (shape_of g n S cs) = S" "sh_cells (shape_of g n S cs) = cs"
  by (simp_all add: shape_of_def)

section \<open>The graph\<close>

text \<open>The nodes are the addresses of the \<open>Object\<close> headers.\<close>

definition large_nodes :: "shape \<Rightarrow> addr set" where
  "large_nodes h = (\<lambda>(a, c). a + 16) ` {(a, c) \<in> set (placed (large_heap_start (sh_global h)) (sh_cells h)). cell_allocated c}"

definition chunk_objects :: "shape \<Rightarrow> addr set" where
  "chunk_objects h = (\<lambda>(a, c). a + 16) ` set (placed (large_heap_start (sh_global h)) (sh_cells h))"

definition nodes :: "shape \<Rightarrow> addr set" where
  "nodes h = (sh_objects h \<inter> {..<2 ^ 64}) \<union> large_nodes h"

definition small_target :: "shape \<Rightarrow> addr \<Rightarrow> addr option" where
  "small_target h p =
     (let xs = {x \<in> sh_objects h \<inter> {..<2 ^ 64}.
        holds_pointer (sh_heap h) (Block_from p) (block_objects (sh_objects h) (Block_from p)) p x}
      in if xs = {} then None else Some (Max xs))"

definition large_target :: "shape \<Rightarrow> addr \<Rightarrow> addr option" where
  "large_target h p =
     (let x = find_cell p (large_heap_start (sh_global h)) (sh_cells h) + 16
      in if x \<in> large_nodes h then Some x else None)"

definition target :: "shape \<Rightarrow> addr \<Rightarrow> addr option" where
  "target h p =
     (if GlobalAllocator_inSmallHeap (sh_global h) p then small_target h p
      else if GlobalAllocator_inLargeHeap (sh_global h) p then large_target h p else None)"

definition span :: "shape \<Rightarrow> addr \<Rightarrow> range option" where
  "span h x = (if x \<in> nodes h \<and> Object_atomic (sh_heap h) x = 0 then Some (x + 16, x + Object_size (sh_heap h) x) else None)"

text \<open>The bytes marking may write; a word without such a byte is steady.\<close>

definition mark_byte :: "shape \<Rightarrow> addr \<Rightarrow> bool" where
  "mark_byte h a \<longleftrightarrow> (\<exists>x \<in> nodes h \<union> chunk_objects h. a = x + 8) \<or> (\<exists>b \<in> set (shape_blocks h). a = b \<or> b + 16 \<le> a \<and> a < b + 143)"

definition steady_word :: "shape \<Rightarrow> addr \<Rightarrow> bool" where
  "steady_word h a \<longleftrightarrow> (\<forall>k < 8. \<not> mark_byte h (a + k))"

section \<open>The heap during the phase\<close>

primrec mark_cells :: "addr set \<Rightarrow> addr \<Rightarrow> cell list \<Rightarrow> cell list" where
  "mark_cells M a [] = []"
| "mark_cells M a (c # cs) = c\<lparr>cell_marked := (a + 16 \<in> M)\<rparr> # mark_cells M (a + cell_total c) cs"

definition marked_as :: "shape \<Rightarrow> mem \<Rightarrow> addr set \<Rightarrow> bool" where
  "marked_as h m M \<longleftrightarrow>
     M \<subseteq> nodes h \<and>
     (\<forall>a. \<not> mark_byte h a \<longrightarrow> m a = sh_heap h a) \<and>
     (\<forall>b \<in> set (shape_blocks h). \<forall>i < 127. hdr_object (m (b + 16 + i)) = hdr_object (sh_heap h (b + 16 + i)) \<and>
        hdr_offset (m (b + 16 + i)) = hdr_offset (sh_heap h (b + 16 + i))) \<and>
     (\<forall>x \<in> nodes h. Object_isMarked m x \<longleftrightarrow> x \<in> M) \<and>
     (\<forall>b \<in> set (shape_blocks h). \<forall>x \<in> block_objects M b.
        Block_isMarked m b \<and> lines_marked_for m b x (Object_size (sh_heap h) x)) \<and>
     (\<forall>b \<in> set (shape_blocks h). Block_isMarked m b \<longrightarrow> block_objects M b \<noteq> {}) \<and>
     chunk_list m (large_chunk_list (sh_global h)) (large_heap_start (sh_global h))
       (mark_cells M (large_heap_start (sh_global h)) (sh_cells h))"

text \<open>Only the heap and the stack have changed.\<close>

definition same_rest :: "'a cheap_scheme \<Rightarrow> 'a cheap_scheme \<Rightarrow> bool" where
  "same_rest g0 g \<longleftrightarrow> (\<exists>m r. g = g0\<lparr>heap := m, roots := r\<rparr>)"

lemma same_rest_simps:
  "same_rest g g" "same_rest g0 g \<Longrightarrow> global g = global g0"
  "same_rest g0 g \<Longrightarrow> same_rest g0 (g\<lparr>heap := m\<rparr>)" "same_rest g0 g \<Longrightarrow> same_rest g0 (g\<lparr>roots := r\<rparr>)"
proof -
  have "g = g\<lparr>heap := heap g, roots := roots g\<rparr>" by simp
  then show "same_rest g g" unfolding same_rest_def by blast
  have "(g0\<lparr>heap := m', roots := r'\<rparr>)\<lparr>heap := m\<rparr> = g0\<lparr>heap := m, roots := r'\<rparr>"
    "(g0\<lparr>heap := m', roots := r'\<rparr>)\<lparr>roots := r\<rparr> = g0\<lparr>heap := m', roots := r\<rparr>" for m' r' by simp_all
  then show "same_rest g0 g \<Longrightarrow> same_rest g0 (g\<lparr>heap := m\<rparr>)" "same_rest g0 g \<Longrightarrow> same_rest g0 (g\<lparr>roots := r\<rparr>)"
    unfolding same_rest_def by blast+
qed (auto simp: same_rest_def)

text \<open>The state \<open>g\<close> of the phase that began in \<open>g0\<close>.\<close>

definition mark_state :: "shape \<Rightarrow> 'a cheap_scheme \<Rightarrow> 'a cheap_scheme \<Rightarrow> addr set \<Rightarrow> range list \<Rightarrow> bool" where
  "mark_state h g0 g M ps \<longleftrightarrow>
     shape_wf h \<and> global g0 = sh_global h \<and> same_rest g0 g \<and> stack_wf (roots g) \<and> stack_pairs (roots g) = ps \<and> marked_as h (heap g) M"

section \<open>Where the nodes are\<close>

lemma placed_disjoint:
  "(a, c) \<in> set (placed s cs) \<Longrightarrow> (a', c') \<in> set (placed s cs) \<Longrightarrow>
   a = a' \<and> c = c' \<or> a + cell_total c \<le> a' \<or> a' + cell_total c' \<le> a"
proof (induction cs arbitrary: s)
  case (Cons d cs)
  let ?P = "set (placed (s + cell_total d) cs)"
  have later: "s + cell_total d \<le> e" if "(e, k) \<in> ?P" for e k
    using that by (auto simp: placed_in_split)
  consider "(a, c) = (s, d)" "(a', c') = (s, d)" | "(a, c) = (s, d)" "(a', c') \<in> ?P"
    | "(a', c') = (s, d)" "(a, c) \<in> ?P" | "(a, c) \<in> ?P" "(a', c') \<in> ?P"
    using Cons.prems by auto
  then show ?case
  proof cases
    case 4
    then show ?thesis by (rule Cons.IH)
  qed (use later in auto)
qed simp

lemma extent_dvd: "(\<And>c. c \<in> set cs \<Longrightarrow> 8 dvd cell_total c) \<Longrightarrow> 8 dvd extent cs"
  by (induction cs) (auto intro!: dvd_add)

lemma shape_wfD:
  assumes "shape_wf h"
  shows "small_layout (sh_heap h) (small_heap_start (sh_global h)) (sh_blocks h) (sh_objects h)"
    "small_heap_stop (sh_global h) = small_heap_start (sh_global h) + sh_blocks h * BLOCK_SIZE"
    "chunk_list (sh_heap h) (large_chunk_list (sh_global h)) (large_heap_start (sh_global h)) (sh_cells h)"
    "large_heap_stop (sh_global h) = large_heap_start (sh_global h) + extent (sh_cells h)"
    "small_heap_stop (sh_global h) \<le> large_heap_start (sh_global h) \<or>
      large_heap_stop (sh_global h) \<le> small_heap_start (sh_global h)"
  using assms by (auto simp: shape_wf_def)

lemma block_facts:
  assumes "shape_wf h" and "b \<in> set (shape_blocks h)"
  shows "is_block b" "8 dvd b" "layout (sh_heap h) b (block_objects (sh_objects h) b)"
    "small_heap_start (sh_global h) \<le> b" "b + 32768 \<le> small_heap_stop (sh_global h)"
  using small_layoutD [OF shape_wfD(1) [OF assms(1)]] assms shape_wfD(2) [OF assms(1)]
  by (simp_all add: shape_blocks_def)

lemma nodes_eq: "shape_wf h \<Longrightarrow> nodes h = sh_objects h \<union> large_nodes h"
  using shape_wfD(1) [of h] by (fastforce simp: nodes_def small_layout_def)

lemma small_node:
  assumes wf: "shape_wf h" and x: "x \<in> sh_objects h"
  obtains b where "b \<in> set (shape_blocks h)" "x \<in> block_objects (sh_objects h) b" "b + 256 \<le> x"
    "x + Object_size (sh_heap h) x \<le> b + 32768" "16 \<le> Object_size (sh_heap h) x" "8 dvd x" "8 dvd Object_size (sh_heap h) x"
  using small_layout_object [OF shape_wfD(1) [OF wf] x] unfolding shape_blocks_def by blast

lemma large_node:
  assumes wf: "shape_wf h" and x: "x \<in> large_nodes h"
  obtains xs c ys where "sh_cells h = xs @ c # ys" "x = large_heap_start (sh_global h) + extent xs + 16" "cell_allocated c"
    "x + Object_size (sh_heap h) x \<le> large_heap_stop (sh_global h)" "16 \<le> Object_size (sh_heap h) x"
    "large_heap_start (sh_global h) + 16 \<le> x" "Object_size (sh_heap h) x = cell_size c" "8 dvd x" "8 dvd cell_size c"
proof -
  obtain xs c ys where s: "sh_cells h = xs @ c # ys" "x = large_heap_start (sh_global h) + extent xs + 16" "cell_allocated c"
    using x by (auto simp: large_nodes_def placed_in_split)
  note c = chunk_list_split(1) [OF shape_wfD(3) [OF wf, unfolded s(1)]]
  have eight: "8 dvd large_heap_start (sh_global h)" "\<And>d. d \<in> set (sh_cells h) \<Longrightarrow> 8 dvd cell_total d"
    using wf by (auto simp: shape_wf_def cell_total_def)
  have "8 dvd extent xs" by (rule extent_dvd) (use eight(2) s(1) in simp)
  then have "8 dvd x" using s(2) eight(1) by (simp add: dvd_add)
  moreover have "8 dvd cell_size c" using wf s(1) by (auto simp: shape_wf_def)
  moreover have "Object_size (sh_heap h) x = cell_size c" "16 \<le> cell_size c"
    using c by (simp_all add: cell_at_def Chunk_osize_def s(2))
  ultimately show ?thesis using that s shape_wfD(4) [OF wf] by (auto simp: cell_total_def)
qed

lemma extent_dvd_nodes: "shape_wf h \<Longrightarrow> x \<in> nodes h \<Longrightarrow> 8 dvd x \<and> 16 \<le> Object_size (sh_heap h) x"
  unfolding nodes_eq by (metis Un_iff small_node large_node)

text \<open>Small objects and blocks lie in the one region, chunks in the other.\<close>

lemma small_region:
  assumes "shape_wf h" and "x \<in> sh_objects h"
  shows "small_heap_start (sh_global h) \<le> x \<and> x + Object_size (sh_heap h) x \<le> small_heap_stop (sh_global h)"
  using small_node [OF assms] block_facts [OF assms(1)] by (metis (no_types, lifting) add_leD1 le_trans)

lemma large_region:
  assumes "shape_wf h" and "x \<in> large_nodes h"
  shows "large_heap_start (sh_global h) + 16 \<le> x \<and> x + Object_size (sh_heap h) x \<le> large_heap_stop (sh_global h)"
  using large_node [OF assms] by metis

text \<open>The header of a node has no mark byte but its own.\<close>

lemma small_headers_apart:
  assumes wf: "shape_wf h" and x: "x \<in> sh_objects h" and y: "y \<in> sh_objects h" and "x \<le> y + 8" "y + 8 < x + 16"
  shows "y = x"
proof -
  obtain b where b: "b \<in> set (shape_blocks h)" "x \<in> block_objects (sh_objects h) b"
    "x + Object_size (sh_heap h) x \<le> b + 32768" "8 dvd x" "16 \<le> Object_size (sh_heap h) x" "b + 256 \<le> x" using small_node [OF wf x] by metis
  obtain b' where b': "b' \<in> set (shape_blocks h)" "y \<in> block_objects (sh_objects h) b'"
    "y + Object_size (sh_heap h) y \<le> b' + 32768" "8 dvd y" "16 \<le> Object_size (sh_heap h) y" "b' + 256 \<le> y" using small_node [OF wf y] by metis
  note fb = block_facts [OF wf b(1)] block_facts [OF wf b'(1)]
  have "b' = b"
    using blocks_disjoint [OF fb(1) fb(6)] assms(4,5) b b' by fastforce
  then have "y + 8 < x \<or> x + 8 \<le> y + 8" using size_field_apart [OF fb(3,2) b(2)] b'(2) by blast
  with assms(4) have "x \<le> y" by simp
  then show "y = x" using dvd_step [OF b(4) b'(4)] assms(5) by (cases "x = y") auto
qed

lemma chunk_region:
  assumes wf: "shape_wf h" and "y \<in> chunk_objects h"
  shows "large_heap_start (sh_global h) \<le> y \<and> y + 16 \<le> large_heap_stop (sh_global h)"
proof -
  from assms(2) obtain xs c ys where "sh_cells h = xs @ c # ys" "y = large_heap_start (sh_global h) + extent xs + 16"
    by (auto simp: chunk_objects_def placed_in_split)
  then show ?thesis
    using shape_wfD(3,4) [OF wf] cell_at_size [OF chunk_list_split(1)] by (force simp: cell_total_def)
qed

lemma large_nodes_chunks: "large_nodes h \<subseteq> chunk_objects h"
  by (auto simp: large_nodes_def chunk_objects_def)

lemma large_headers_apart:
  assumes wf: "shape_wf h" and x: "x \<in> large_nodes h" and y: "y \<in> chunk_objects h" and "x \<le> y + 8" "y + 8 < x + 16"
  shows "y = x"
proof -
  obtain a c where a: "(a, c) \<in> set (placed (large_heap_start (sh_global h)) (sh_cells h))" "x = a + 16"
    using x by (auto simp: large_nodes_def)
  obtain a' c' where a': "(a', c') \<in> set (placed (large_heap_start (sh_global h)) (sh_cells h))" "y = a' + 16"
    using y by (auto simp: chunk_objects_def)
  have "16 \<le> cell_size d" if "(e, d) \<in> set (placed (large_heap_start (sh_global h)) (sh_cells h))" for e d
    using shape_wfD(3) [OF wf] that cell_at_size [OF chunk_list_split(1)] by (auto simp: placed_in_split)
  then have "32 \<le> cell_total c" "32 \<le> cell_total c'" using a(1) a'(1) by (auto simp: cell_total_def)
  with placed_disjoint [OF a(1) a'(1)] assms(4,5) a(2) a'(2) show ?thesis by auto
qed

text \<open>Block metadata is away from every node.\<close>

lemma node_not_meta:
  assumes wf: "shape_wf h" and x: "x \<in> nodes h" and b: "b \<in> set (shape_blocks h)" and a: "x \<le> a" "a < x + 16"
  shows "a < b \<or> b + 256 \<le> a"
proof -
  note fb = block_facts [OF wf b]
  have sz: "16 \<le> Object_size (sh_heap h) x" using extent_dvd_nodes [OF wf x] by simp
  show ?thesis
  proof (cases "x \<in> sh_objects h")
    case True
    then obtain b' where b': "b' \<in> set (shape_blocks h)" "b' + 256 \<le> x" "x + Object_size (sh_heap h) x \<le> b' + 32768"
      using small_node [OF wf] by metis
    with blocks_disjoint [OF fb(1) block_facts(1) [OF wf b'(1)]] a sz show ?thesis by fastforce
  next
    case False
    then have "x \<in> large_nodes h" using x nodes_eq [OF wf] by blast
    from large_region [OF wf this] shape_wfD(5) [OF wf] fb a sz show ?thesis by fastforce
  qed
qed

lemma node_header:
  assumes wf: "shape_wf h" and x: "x \<in> nodes h" and a: "x \<le> a" "a < x + 16" and mb: "mark_byte h a"
  shows "a = x + 8"
proof -
  show ?thesis
  proof (cases "\<exists>y \<in> nodes h \<union> chunk_objects h. a = y + 8")
    case True
    then obtain y where y: "y \<in> sh_objects h \<union> chunk_objects h" "a = y + 8"
      using large_nodes_chunks nodes_eq [OF wf] by blast
    have in_small: "small_heap_start (sh_global h) \<le> z \<and> z + 16 \<le> small_heap_stop (sh_global h)" if "z \<in> sh_objects h" for z
      using small_region [OF wf that] extent_dvd_nodes [OF wf, of z] that nodes_eq [OF wf] by auto
    note in_large = chunk_region [OF wf]
    show ?thesis
    proof (cases "x \<in> sh_objects h")
      case True
      have "y \<in> sh_objects h"
        using y a in_small [OF True] in_large [of y] shape_wfD(5) [OF wf] by fastforce
      with small_headers_apart [OF wf True] y a show ?thesis by blast
    next
      case False
      then have x': "x \<in> large_nodes h" using x nodes_eq [OF wf] by blast
      then have "x \<in> chunk_objects h" using large_nodes_chunks by blast
      then have "y \<in> chunk_objects h"
        using y a in_small [of y] in_large [of x] shape_wfD(5) [OF wf] by fastforce
      with large_headers_apart [OF wf x'] y a show ?thesis by blast
    qed
  next
    case False
    then obtain b where b: "b \<in> set (shape_blocks h)" "b \<le> a" "a < b + 143" using mb by (auto simp: mark_byte_def)
    with node_not_meta [OF wf x b(1) a] show ?thesis by simp
  qed
qed

section \<open>Reading the heap during the phase\<close>

lemma marked_asD:
  assumes "marked_as h m M"
  shows "M \<subseteq> nodes h" "\<And>a. \<not> mark_byte h a \<Longrightarrow> m a = sh_heap h a"
    "\<And>b i. b \<in> set (shape_blocks h) \<Longrightarrow> i < 127 \<Longrightarrow> hdr_object (m (b + 16 + i)) = hdr_object (sh_heap h (b + 16 + i)) \<and>
       hdr_offset (m (b + 16 + i)) = hdr_offset (sh_heap h (b + 16 + i))"
    "\<And>x. x \<in> nodes h \<Longrightarrow> Object_isMarked m x \<longleftrightarrow> x \<in> M"
    "\<And>b x. b \<in> set (shape_blocks h) \<Longrightarrow> x \<in> block_objects M b \<Longrightarrow>
       Block_isMarked m b \<and> lines_marked_for m b x (Object_size (sh_heap h) x)"
    "\<And>b. b \<in> set (shape_blocks h) \<Longrightarrow> Block_isMarked m b \<Longrightarrow> block_objects M b \<noteq> {}"
    "chunk_list m (large_chunk_list (sh_global h)) (large_heap_start (sh_global h))
       (mark_cells M (large_heap_start (sh_global h)) (sh_cells h))"
  using assms by (auto simp: marked_as_def)

lemma node_header_same:
  assumes wf: "shape_wf h" and m: "marked_as h m M" and x: "x \<in> nodes h"
  shows "Object_size m x = Object_size (sh_heap h) x" "Object_atomic m x = Object_atomic (sh_heap h) x"
proof -
  have same: "m a = sh_heap h a" if "x \<le> a" "a < x + 16" "a \<noteq> x + 8" for a
    using node_header [OF wf x that(1,2)] marked_asD(2) [OF m] that(3) by blast
  show "Object_size m x = Object_size (sh_heap h) x" "Object_atomic m x = Object_atomic (sh_heap h) x"
    unfolding Object_size_def Object_atomic_def by (rule load_cong, rule same, simp_all)+
qed

lemma object_mark_byte:
  assumes wf: "shape_wf h" and b: "b \<in> set (shape_blocks h)" and a: "b + 143 \<le> a" "a < b + 32768" and mb: "mark_byte h a"
  shows "\<exists>x \<in> block_objects (sh_objects h) b. a = x + 8"
proof -
  note fb = block_facts [OF wf b]
  have "\<not> (\<exists>c \<in> set (shape_blocks h). a = c \<or> c + 16 \<le> a \<and> a < c + 143)"
    using blocks_disjoint [OF fb(1)] block_facts(1) [OF wf] a by fastforce
  then obtain x where x: "x \<in> sh_objects h \<union> chunk_objects h" "a = x + 8"
    using mb large_nodes_chunks nodes_eq [OF wf] by (auto simp: mark_byte_def)
  have xs: "x \<in> sh_objects h" using x chunk_region [OF wf, of x] shape_wfD(5) [OF wf] fb a by fastforce
  then have x16: "16 \<le> Object_size (sh_heap h) x" using extent_dvd_nodes [OF wf, of x] nodes_eq [OF wf] by simp
  from xs obtain c where c: "c \<in> set (shape_blocks h)" "x \<in> block_objects (sh_objects h) c" "c + 256 \<le> x"
    "x + Object_size (sh_heap h) x \<le> c + 32768" using small_node [OF wf] by metis
  have "c = b" using blocks_disjoint [OF fb(1) block_facts(1) [OF wf c(1)]] c a x(2) x16 by fastforce
  with c x show ?thesis by blast
qed

lemma layout_during:
  assumes wf: "shape_wf h" and m: "marked_as h m M" and b: "b \<in> set (shape_blocks h)"
  shows "layout m b (block_objects (sh_objects h) b)"
proof (rule layout_marks [OF block_facts(3,2) [OF wf b]])
  show "\<exists>x \<in> block_objects (sh_objects h) b. a = x + 8" if "b + 256 \<le> a" "a < b + 32768" "m a \<noteq> sh_heap h a" for a
    using object_mark_byte [OF wf b _ that(2)] marked_asD(2) [OF m, of a] that by auto
qed (rule marked_asD(3) [OF m b])

lemma holds_during:
  assumes wf: "shape_wf h" and m: "marked_as h m M" and b: "b \<in> set (shape_blocks h)"
  shows "holds_pointer m b (block_objects (sh_objects h) b) p x \<longleftrightarrow>
    holds_pointer (sh_heap h) b (block_objects (sh_objects h) b) p x"
proof -
  have "Object_contains m x p = Object_contains (sh_heap h) x p" if "x \<in> block_objects (sh_objects h) b"
    using node_header_same(1) [OF wf m, of x] that nodes_eq [OF wf] by (auto simp: Object_contains_def block_objects_def)
  then show ?thesis by (auto simp: holds_pointer_def)
qed

section \<open>What marking one object writes\<close>

lemma mark_object_lines_eq:
  "mark_object_lines hdr line limit m =
     (\<lambda>a. if \<exists>k. a = hdr + k \<and> (k = 0 \<or> line + 256 * k < limit) then m a OR 1 else m a)"
proof (induction hdr line limit m rule: mark_object_lines.induct)
  case (1 hdr line limit m)
  let ?m = "LineHeader_mark m hdr"
  show ?case
  proof (cases "line + LINE_SIZE < limit")
    case False
    then have "line + 256 * k < limit \<Longrightarrow> k = 0" for k by (cases k) auto
    then have "(\<exists>k. a = hdr + k \<and> (k = 0 \<or> line + 256 * k < limit)) \<longleftrightarrow> a = hdr" for a by auto
    with False show ?thesis by (subst mark_object_lines.simps) (auto simp: LineHeader_mark_def fun_eq_iff)
  next
    case True
    have ex: "(\<exists>k. a = hdr + k \<and> (k = 0 \<or> line + 256 * k < limit)) \<longleftrightarrow>
        a = hdr \<or> (\<exists>k. a = hdr + 1 + k \<and> (k = 0 \<or> line + LINE_SIZE + 256 * k < limit))" for a
    proof
      assume "\<exists>k. a = hdr + k \<and> (k = 0 \<or> line + 256 * k < limit)"
      then obtain k where "a = hdr + k" "k = 0 \<or> line + 256 * k < limit" by blast
      then show "a = hdr \<or> (\<exists>k. a = hdr + 1 + k \<and> (k = 0 \<or> line + LINE_SIZE + 256 * k < limit))"
        by (cases k) auto
    next
      assume "a = hdr \<or> (\<exists>k. a = hdr + 1 + k \<and> (k = 0 \<or> line + LINE_SIZE + 256 * k < limit))"
      then show "\<exists>k. a = hdr + k \<and> (k = 0 \<or> line + 256 * k < limit)"
        using True by (auto intro: exI [of _ 0] exI [of _ "Suc _"])
    qed
    have "mark_object_lines hdr line limit m = mark_object_lines (hdr + 1) (line + LINE_SIZE) limit ?m"
      using True by (subst mark_object_lines.simps) simp
    also note 1 [OF refl True]
    finally show ?thesis unfolding ex by (auto simp: LineHeader_mark_def fun_eq_iff)
  qed
qed

text \<open>The lines of \<open>b\<close> that are marked for an object.\<close>

definition lines_to_mark :: "addr \<Rightarrow> addr \<Rightarrow> nat \<Rightarrow> nat set" where
  "lines_to_mark b x sz = {i. i = line_of b x \<or> (256 < sz \<and> line_of b x \<le> i \<and> line_addr b i < x + sz)}"

definition mark_written :: "addr \<Rightarrow> addr \<Rightarrow> nat \<Rightarrow> mem \<Rightarrow> mem" where
  "mark_written b x sz m = (\<lambda>a. if a = x + 8 \<or> a = b then 1
     else if \<exists>i \<in> lines_to_mark b x sz. a = b + 16 + i then m a OR 1 else m a)"

lemma lines_to_mark_less: "b + 256 \<le> x \<Longrightarrow> x + sz \<le> b + 32768 \<Longrightarrow> 16 \<le> sz \<Longrightarrow> i \<in> lines_to_mark b x sz \<Longrightarrow> i < 127"
  using line_of_less [of b x] by (auto simp: lines_to_mark_def line_addr_def)

lemma mark_small_eq:
  assumes x: "b + 256 \<le> x" "x + sz \<le> b + 32768" and sz: "Object_size (heap g) x = sz" "16 \<le> sz"
  shows "mark_small g b (b + 16 + line_of b x) (line_addr b (line_of b x)) x =
    Collector_scanObject (g\<lparr>heap := mark_written b x sz (heap g)\<rparr>) x"
proof -
  let ?i = "line_of b x" and ?m = "Block_mark (Object_mark (heap g) x) b"
  have m: "?m = (\<lambda>a. if a = x + 8 \<or> a = b then 1 else heap g a)"
    by (auto simp: Block_mark_def Object_mark_def store.simps fun_eq_iff)
  have "Object_size ?m x = sz"
    unfolding sz(1) [symmetric] Object_size_def by (rule load_cong) (use x in \<open>auto simp: m\<close>)
  moreover have "LineHeader_mark ?m (b + 16 + ?i) = mark_written b x sz (heap g)" if "sz \<le> 256"
    using x line_of_less [of b x] sz(2) that by (auto simp: LineHeader_mark_def mark_written_def lines_to_mark_def m fun_eq_iff)
  moreover have "mark_object_lines (b + 16 + ?i) (line_addr b ?i) (x + sz) ?m = mark_written b x sz (heap g)" if "256 < sz"
  proof
    fix a
    have "(\<exists>k. a = b + 16 + ?i + k \<and> (k = 0 \<or> line_addr b ?i + 256 * k < x + sz)) \<longleftrightarrow>
        (\<exists>i \<in> lines_to_mark b x sz. a = b + 16 + i)"
    proof
      assume "\<exists>k. a = b + 16 + ?i + k \<and> (k = 0 \<or> line_addr b ?i + 256 * k < x + sz)"
      then obtain k where "a = b + 16 + (?i + k)" "k = 0 \<or> line_addr b (?i + k) < x + sz"
        by (auto simp: line_addr_def algebra_simps)
      then show "\<exists>i \<in> lines_to_mark b x sz. a = b + 16 + i" using that by (auto simp: lines_to_mark_def)
    next
      assume "\<exists>i \<in> lines_to_mark b x sz. a = b + 16 + i"
      then obtain i where i: "i \<in> lines_to_mark b x sz" "a = b + 16 + i" by blast
      then have "?i \<le> i" by (auto simp: lines_to_mark_def)
      then have "i = ?i + (i - ?i)" by simp
      with i that show "\<exists>k. a = b + 16 + ?i + k \<and> (k = 0 \<or> line_addr b ?i + 256 * k < x + sz)"
        by (intro exI [of _ "i - ?i"]) (auto simp: lines_to_mark_def line_addr_def algebra_simps)
    qed
    moreover have "\<not> (a = x + 8 \<or> a = b) \<or> \<not> (\<exists>i \<in> lines_to_mark b x sz. a = b + 16 + i)"
      using lines_to_mark_less [OF x sz(2)] x by fastforce
    ultimately show "mark_object_lines (b + 16 + ?i) (line_addr b ?i) (x + sz) ?m a = mark_written b x sz (heap g) a"
      unfolding mark_object_lines_eq mark_written_def m by auto
  qed
  ultimately show ?thesis by (simp add: mark_small_def Let_def)
qed

lemma lines_marked_written:
  assumes x: "b + 256 \<le> x" "x + sz \<le> b + 32768" "16 \<le> sz"
  shows "lines_marked_for (mark_written b x sz m) b x sz"
proof -
  have marked: "line_marked (mark_written b x sz m) b i" if "i \<in> lines_to_mark b x sz" for i
    using that lines_to_mark_less [OF x that] x(1) by (auto simp: line_marked_def mark_written_def hdr_mark)
  have "line_of b a \<in> lines_to_mark b x sz" if "256 < sz" "x \<le> a" "a < x + sz" for a
    using that line_of_mono [OF that(2)] line_of_bounds [of b a] x by (auto simp: lines_to_mark_def)
  then show ?thesis using marked by (auto simp: lines_marked_for_def lines_to_mark_def)
qed

lemma lines_marked_more:
  assumes "lines_marked_for m b y n" and "\<And>i. i < 127 \<Longrightarrow> line_marked m b i \<Longrightarrow> line_marked m' b i"
    and "b + 256 \<le> y" "y + n \<le> b + 32768" "0 < n"
  shows "lines_marked_for m' b y n"
proof -
  have "line_of b a < 127" if "y \<le> a" "a < y + n" for a by (rule line_of_less) (use that assms in auto)
  with assms show ?thesis by (auto simp: lines_marked_for_def)
qed

lemma Object_isMarked_byte: "Object_isMarked m x \<longleftrightarrow> m (x + 8) = 1"
  by (simp add: Object_isMarked_def load.simps unsigned_word_eqI) (metis One_nat_def unat_1 word_unat_eq_iff)

lemma Block_isMarked_byte: "Block_isMarked m b \<longleftrightarrow> m b = 1"
  by (simp add: Block_isMarked_def load.simps) (metis One_nat_def unat_1 word_unat_eq_iff)

lemma mark_cells_insert:
  "(\<And>a c. (a, c) \<in> set (placed s cs) \<Longrightarrow> a + 16 \<noteq> x) \<Longrightarrow> mark_cells (insert x M) s cs = mark_cells M s cs"
proof (induction cs arbitrary: s)
  case (Cons c cs)
  have "s + 16 \<noteq> x" by (rule Cons.prems [of s c]) simp
  moreover have "mark_cells (insert x M) (s + cell_total c) cs = mark_cells M (s + cell_total c) cs"
    by (rule Cons.IH) (use Cons.prems in auto)
  ultimately show ?case by simp
qed simp

lemma mark_cells_append: "mark_cells M s (xs @ ys) = mark_cells M s xs @ mark_cells M (s + extent xs) ys"
  by (induction xs arbitrary: s) (simp_all add: add.assoc)

lemma extent_mark_cells [simp]: "extent (mark_cells M s cs) = extent cs"
  by (induction cs arbitrary: s) (simp_all add: cell_total_def)

lemma chunk_list_cong:
  "chunk_list m self s cs \<Longrightarrow> same_bytes m m' s (s + extent cs) \<Longrightarrow> chunk_list m' self s cs"
  using chunk_seg_cong [of m m' s cs 0] by (simp add: chunk_list_def)

lemma marked_small_block:
  assumes wf: "shape_wf h" and "M \<subseteq> nodes h" and b: "b \<in> set (shape_blocks h)" and x: "x \<in> block_objects M b"
  shows "x \<in> block_objects (sh_objects h) b" "b + 256 \<le> x" "x + Object_size (sh_heap h) x \<le> b + 32768"
    "16 \<le> Object_size (sh_heap h) x"
proof -
  have n: "x \<in> nodes h" "b \<le> x" "x < b + 32768" using assms(2) x by (auto simp: block_objects_def)
  have "16 \<le> Object_size (sh_heap h) x" using extent_dvd_nodes [OF wf n(1)] by simp
  with n block_facts(4,5) [OF wf b] large_region [OF wf, of x] shape_wfD(5) [OF wf] have "x \<in> sh_objects h"
    unfolding nodes_eq [OF wf] by fastforce
  with n show g: "x \<in> block_objects (sh_objects h) b" by (simp add: block_objects_def)
  show "b + 256 \<le> x" "x + Object_size (sh_heap h) x \<le> b + 32768" "16 \<le> Object_size (sh_heap h) x"
    by (rule layoutD [OF block_facts(3) [OF wf b] g])+
qed

text \<open>Marking a small object.\<close>

lemma mark_written_other:
  assumes wf: "shape_wf h" and b: "b \<in> set (shape_blocks h)" and x: "x \<in> block_objects (sh_objects h) b"
    and a: "a \<noteq> x + 8" "a \<noteq> b" "a < b + 16 \<or> b + 143 \<le> a"
  shows "mark_written b x (Object_size (sh_heap h) x) m a = m a"
proof -
  have "i < 127" if "i \<in> lines_to_mark b x (Object_size (sh_heap h) x)" for i
    using lines_to_mark_less [OF layoutD(1-3) [OF block_facts(3) [OF wf b] x] that] .
  then have "\<not> (\<exists>i \<in> lines_to_mark b x (Object_size (sh_heap h) x). a = b + 16 + i)" using a(3) by fastforce
  with a show ?thesis by (simp add: mark_written_def)
qed

lemma small_node_meta:
  assumes "shape_wf h" and "x \<in> block_objects (sh_objects h) b" and "c \<in> set (shape_blocks h)"
  shows "\<not> (c \<le> x + 8 \<and> x + 8 < c + 256)"
  using assms node_not_meta [OF assms(1) _ assms(3), of x "x + 8"] nodes_eq [OF assms(1)] by (auto simp: block_objects_def)

lemma shape_blocks_apart:
  assumes "shape_wf h" and "b \<in> set (shape_blocks h)" and "c \<in> set (shape_blocks h)"
  shows "c = b \<or> c + 32768 \<le> b \<or> b + 32768 \<le> c"
  using blocks_disjoint [OF block_facts(1) [OF assms(1,3)] block_facts(1) [OF assms(1,2)]] by auto

lemma mark_written_block:
  assumes wf: "shape_wf h" and b: "b \<in> set (shape_blocks h)" and x: "x \<in> block_objects (sh_objects h) b"
    and c: "c \<in> set (shape_blocks h)"
  shows "mark_written b x (Object_size (sh_heap h) x) m c = (if c = b then 1 else m c)"
proof (cases "c = b")
  case False
  have "mark_written b x (Object_size (sh_heap h) x) m c = m c"
    by (rule mark_written_other [OF wf b x]) (use small_node_meta [OF wf x c] shape_blocks_apart [OF wf b c] False in auto)
  with False show ?thesis by simp
qed (simp add: mark_written_def)

lemma mark_written_line:
  assumes wf: "shape_wf h" and b: "b \<in> set (shape_blocks h)" and x: "x \<in> block_objects (sh_objects h) b"
    and c: "c \<in> set (shape_blocks h)" and i: "i < 127"
  shows "mark_written b x (Object_size (sh_heap h) x) m (c + 16 + i) = m (c + 16 + i) \<or>
    mark_written b x (Object_size (sh_heap h) x) m (c + 16 + i) = m (c + 16 + i) OR 1"
proof -
  have "c + 16 + i \<noteq> x + 8" "c + 16 + i \<noteq> b" using small_node_meta [OF wf x c] shape_blocks_apart [OF wf b c] i by auto
  then show ?thesis by (simp add: mark_written_def)
qed

lemma mark_written_mark:
  assumes wf: "shape_wf h" and b: "b \<in> set (shape_blocks h)" and x: "x \<in> block_objects (sh_objects h) b" and y: "y \<in> nodes h"
  shows "mark_written b x (Object_size (sh_heap h) x) m (y + 8) = (if y = x then 1 else m (y + 8))"
proof (cases "y = x")
  case False
  have "mark_written b x (Object_size (sh_heap h) x) m (y + 8) = m (y + 8)"
    by (rule mark_written_other [OF wf b x]) (use node_not_meta [OF wf y b, of "y + 8"] False in auto)
  with False show ?thesis by simp
qed (simp add: mark_written_def)

lemma mark_written_chunks:
  assumes wf: "shape_wf h" and m: "marked_as h m M" and b: "b \<in> set (shape_blocks h)"
    and x: "x \<in> block_objects (sh_objects h) b"
  defines "s \<equiv> large_heap_start (sh_global h)"
  shows "chunk_list (mark_written b x (Object_size (sh_heap h) x) m) (large_chunk_list (sh_global h)) s
    (mark_cells (insert x M) s (sh_cells h))"
proof -
  note d = layoutD [OF block_facts(3) [OF wf b] x]
  have away: "a + 16 \<noteq> x" if "(a, c) \<in> set (placed s (sh_cells h))" for a c
  proof -
    have "s \<le> a" "a + cell_total c \<le> s + extent (sh_cells h)" using that by (auto simp: placed_in_split)
    moreover have "16 \<le> cell_size c"
      using shape_wfD(3) [OF wf] that cell_at_size [OF chunk_list_split(1)] by (auto simp: placed_in_split s_def)
    ultimately show ?thesis
      using small_region [OF wf, of x] shape_wfD(4,5) [OF wf] x d(3) by (auto simp: block_objects_def cell_total_def s_def)
  qed
  have "same_bytes m (mark_written b x (Object_size (sh_heap h) x) m) s (s + extent (sh_cells h))"
    unfolding same_bytes_def s_def
    by (intro allI impI mark_written_other [OF wf b x, symmetric])
      (use d(1-3) block_facts(4,5) [OF wf b] shape_wfD(4,5) [OF wf] in auto)
  then show ?thesis
    using chunk_list_cong [OF marked_asD(7) [OF m]] mark_cells_insert [OF away] by (simp add: s_def)
qed

lemma mark_written_lines:
  assumes wf: "shape_wf h" and m: "marked_as h m M" and b: "b \<in> set (shape_blocks h)"
    and x: "x \<in> block_objects (sh_objects h) b" and c: "c \<in> set (shape_blocks h)" and y: "y \<in> block_objects (insert x M) c"
  defines "m' \<equiv> mark_written b x (Object_size (sh_heap h) x) m"
  shows "Block_isMarked m' c \<and> lines_marked_for m' c y (Object_size (sh_heap h) y)"
proof (cases "y = x")
  case True
  then have "c = b" using y x shape_blocks_apart [OF wf b c] by (auto simp: block_objects_def)
  with True lines_marked_written [OF layoutD(1-3) [OF block_facts(3) [OF wf b] x]] mark_written_block [OF wf b x b]
  show ?thesis by (simp add: Block_isMarked_byte m'_def)
next
  case False
  then have y: "y \<in> block_objects M c" using y by (simp add: block_objects_def)
  note my = marked_asD(5) [OF m c y]
  have grow: "line_marked m' c i" if "i < 127" "line_marked m c i" for i
    using mark_written_line [OF wf b x c that(1), of m] that(2) by (auto simp: line_marked_def hdr_mark m'_def)
  have "lines_marked_for m' c y (Object_size (sh_heap h) y)"
    by (rule lines_marked_more [OF conjunct2 [OF my] grow]) (use marked_small_block [OF wf marked_asD(1) [OF m] c y] in auto)
  then show ?thesis using my mark_written_block [OF wf b x c, of m] by (simp add: Block_isMarked_byte m'_def)
qed

lemma marked_as_small:
  assumes wf: "shape_wf h" and m: "marked_as h m M" and b: "b \<in> set (shape_blocks h)"
    and x: "x \<in> block_objects (sh_objects h) b"
  shows "marked_as h (mark_written b x (Object_size (sh_heap h) x) m) (insert x M)" (is "marked_as h ?m _")
  unfolding marked_as_def
proof (intro conjI ballI allI impI)
  have xn: "x \<in> nodes h" using x nodes_eq [OF wf] by (simp add: block_objects_def)
  show "insert x M \<subseteq> nodes h" using marked_asD(1) [OF m] xn by blast
  fix a assume a: "\<not> mark_byte h a"
  then have "?m a = m a" by (intro mark_written_other [OF wf b x]) (use xn b in \<open>auto simp: mark_byte_def\<close>)
  with marked_asD(2) [OF m a] show "?m a = sh_heap h a" by simp
next
  fix c i assume "c \<in> set (shape_blocks h)" "i < (127 :: nat)"
  with mark_written_line [OF wf b x this, of m] marked_asD(3) [OF m this]
  show "hdr_object (?m (c + 16 + i)) = hdr_object (sh_heap h (c + 16 + i))"
    "hdr_offset (?m (c + 16 + i)) = hdr_offset (sh_heap h (c + 16 + i))" by (auto simp: hdr_mark)
next
  fix y assume "y \<in> nodes h"
  with mark_written_mark [OF wf b x] marked_asD(4) [OF m] show "Object_isMarked ?m y \<longleftrightarrow> y \<in> insert x M"
    by (auto simp: Object_isMarked_byte)
next
  fix c y assume "c \<in> set (shape_blocks h)" "y \<in> block_objects (insert x M) c"
  with mark_written_lines [OF wf m b x this]
  show "Block_isMarked ?m c" "lines_marked_for ?m c y (Object_size (sh_heap h) y)" by blast+
next
  fix c assume c: "c \<in> set (shape_blocks h)" "Block_isMarked ?m c"
  then show "block_objects (insert x M) c \<noteq> {}"
    using x mark_written_block [OF wf b x c(1), of m] marked_asD(6) [OF m c(1)]
    by (cases "c = b") (auto simp: block_objects_def Block_isMarked_byte)
next
  show "chunk_list ?m (large_chunk_list (sh_global h)) (large_heap_start (sh_global h))
    (mark_cells (insert x M) (large_heap_start (sh_global h)) (sh_cells h))"
    by (rule mark_written_chunks [OF wf m b x])
qed

text \<open>Marking a chunk.\<close>

lemma mark_large_cells:
  assumes wf: "shape_wf h" and m: "marked_as h m M" and x: "x \<in> large_nodes h"
  shows "chunk_list (Object_mark m x) (large_chunk_list (sh_global h)) (large_heap_start (sh_global h))
    (mark_cells (insert x M) (large_heap_start (sh_global h)) (sh_cells h))"
proof -
  let ?s = "large_heap_start (sh_global h)"
  from x obtain xs c ys where s: "sh_cells h = xs @ c # ys" "x = ?s + extent xs + 16"
    by (auto simp: large_nodes_def placed_in_split)
  have wide: "32 \<le> cell_total d" if "d \<in> set (sh_cells h)" for d
  proof -
    from split_list [OF that] obtain us vs where "sh_cells h = us @ d # vs" by blast
    then show ?thesis using shape_wfD(3) [OF wf] cell_at_size [OF chunk_list_split(1)] by (force simp: cell_total_def)
  qed
  have before: "a + 16 \<noteq> x" if "(a, d) \<in> set (placed ?s xs)" for a d
  proof -
    from that obtain us vs where "xs = us @ d # vs" "a = ?s + extent us" by (auto simp: placed_in_split)
    then show ?thesis using wide [of d] s by simp
  qed
  have after: "a + 16 \<noteq> x" if "(a, d) \<in> set (placed (?s + extent xs + cell_total c) ys)" for a d
    using that wide [of c] s by (auto simp: placed_in_split)
  have "mark_cells (insert x M) ?s (sh_cells h) =
      mark_cells M ?s xs @ c\<lparr>cell_marked := True\<rparr> # mark_cells M (?s + extent xs + cell_total c) ys"
    using mark_cells_insert [OF before] mark_cells_insert [OF after] s by (simp add: mark_cells_append)
  moreover have "chunk_list m (large_chunk_list (sh_global h)) ?s
      (mark_cells M ?s xs @ c\<lparr>cell_marked := (x \<in> M)\<rparr> # mark_cells M (?s + extent xs + cell_total c) ys)"
    using marked_asD(7) [OF m] s by (simp add: mark_cells_append)
  from Chunk_mark_cells(1) [OF this] have "chunk_list (Object_mark m x) (large_chunk_list (sh_global h)) ?s
      (mark_cells M ?s xs @ c\<lparr>cell_marked := True\<rparr> # mark_cells M (?s + extent xs + cell_total c) ys)"
    using s(2) by (simp add: Chunk_mark_def)
  ultimately show ?thesis by simp
qed

lemma marked_as_large:
  assumes wf: "shape_wf h" and m: "marked_as h m M" and x: "x \<in> large_nodes h"
  shows "marked_as h (Object_mark m x) (insert x M)"
proof -
  let ?m = "Object_mark m x"
  have xn: "x \<in> nodes h" using x nodes_eq [OF wf] by blast
  have mm: "?m = m(x + 8 := 1)" by (simp add: Object_mark_def store.simps)
  have meta: "?m a = m a" if "c \<in> set (shape_blocks h)" "c \<le> a" "a < c + 256" for c a
    using node_not_meta [OF wf xn that(1), of "x + 8"] that by (auto simp: mm)
  have same: "block_objects (insert x M) c = block_objects M c" if "c \<in> set (shape_blocks h)" for c
    using large_region [OF wf x] shape_wfD(5) [OF wf] block_facts(4,5) [OF wf that] extent_dvd_nodes [OF wf xn] that
    by (auto simp: block_objects_def)
  show ?thesis unfolding marked_as_def
  proof (intro conjI ballI allI impI)
    show "insert x M \<subseteq> nodes h" using marked_asD(1) [OF m] xn by blast
    fix a assume a: "\<not> mark_byte h a"
    then have "a \<noteq> x + 8" using xn by (auto simp: mark_byte_def)
    with marked_asD(2) [OF m a] show "?m a = sh_heap h a" by (simp add: mm)
  next
    fix c i assume "c \<in> set (shape_blocks h)" "i < (127 :: nat)"
    with meta [of c "c + 16 + i"] marked_asD(3) [OF m this]
    show "hdr_object (?m (c + 16 + i)) = hdr_object (sh_heap h (c + 16 + i))"
      "hdr_offset (?m (c + 16 + i)) = hdr_offset (sh_heap h (c + 16 + i))" by simp_all
  next
    fix y assume "y \<in> nodes h"
    with marked_asD(4) [OF m] show "Object_isMarked ?m y \<longleftrightarrow> y \<in> insert x M"
      by (auto simp: Object_isMarked_byte mm)
  next
    fix c y assume c: "c \<in> set (shape_blocks h)" and "y \<in> block_objects (insert x M) c"
    then have y: "y \<in> block_objects M c" using same by simp
    note my = marked_asD(5) [OF m c y]
    have grow: "line_marked ?m c i" if "i < 127" "line_marked m c i" for i
      using meta [OF c, of "c + 16 + i"] that by (simp add: line_marked_def)
    show "lines_marked_for ?m c y (Object_size (sh_heap h) y)"
      by (rule lines_marked_more [OF conjunct2 [OF my] grow])
        (use marked_small_block [OF wf marked_asD(1) [OF m] c y] in auto)
    show "Block_isMarked ?m c" using my meta [OF c, of c] by (simp add: Block_isMarked_byte)
  next
    fix c assume c: "c \<in> set (shape_blocks h)" "Block_isMarked ?m c"
    then show "block_objects (insert x M) c \<noteq> {}"
      using meta [OF c(1), of c] marked_asD(6) [OF m c(1)] same by (simp add: Block_isMarked_byte)
  qed (rule mark_large_cells [OF wf m x])
qed

section \<open>Visiting a word\<close>

lemma scan_state:
  assumes st: "mark_state h g0 g M ps" and m: "marked_as h m' M'" and x: "x \<in> nodes h"
  shows "mark_state h g0 (Collector_scanObject (g\<lparr>heap := m'\<rparr>) x) M' ((case span h x of None \<Rightarrow> [] | Some r \<Rightarrow> [r]) @ ps)"
proof -
  have wf: "shape_wf h" using st by (simp add: mark_state_def)
  note n = node_header_same [OF wf m x]
  show ?thesis
    using st m mark_stack.push_invar [of "roots g" "x + 16" "x + Object_size (sh_heap h) x"]
      mark_stack.push_pending [of "roots g" "x + 16" "x + Object_size (sh_heap h) x"] x
    by (simp add: mark_state_def Collector_scanObject_def n span_def Object_mutatorAddress_def same_rest_simps)
qed

lemma find_metadata:
  assumes "is_block b" and "b \<le> p" and "p < b + 256"
  shows "Collector_findAndMarkSmallObject g p = ret g"
  using Block_from_inside [OF assms(1,2)] assms(2,3)
  by (simp add: Collector_findAndMarkSmallObject_def Block_lineIndex_def Block_start_def Block_stop_def)

lemma small_target_iff:
  assumes wf: "shape_wf h" and b: "b \<in> set (shape_blocks h)" and p: "b \<le> p" "p < b + 32768"
  shows "small_target h p = Some x \<longleftrightarrow> holds_pointer (sh_heap h) b (block_objects (sh_objects h) b) p x"
proof -
  note fb = block_facts [OF wf b]
  let ?holds = "holds_pointer (sh_heap h) b (block_objects (sh_objects h) b) p"
  have bf: "Block_from p = b" by (rule Block_from_inside [OF fb(1)]) (use p in auto)
  have in_S: "y \<in> sh_objects h \<inter> {..<2 ^ 64}" if "?holds y" for y
    using that fb(1) by (auto simp: holds_pointer_def block_objects_def is_block_def)
  let ?xs = "{y \<in> sh_objects h \<inter> {..<2 ^ 64}. ?holds y}"
  have st: "small_target h p = (if ?xs = {} then None else Some (Max ?xs))"
    unfolding small_target_def bf Let_def by (rule refl)
  show ?thesis
  proof (cases "\<exists>y. ?holds y")
    case True
    then obtain y where y: "?holds y" by blast
    then have one: "?xs = {y}" using holds_pointer_unique [OF fb(3)] in_S by blast
    have "?holds x \<longleftrightarrow> x = y" using holds_pointer_unique [OF fb(3)] y by blast
    then show ?thesis unfolding st one by auto
  next
    case False
    then have none: "?xs = {}" by blast
    show ?thesis unfolding st none using False by simp
  qed
qed

lemma target_node: "target h p = Some x \<Longrightarrow> x \<in> nodes h"
proof -
  assume t: "target h p = Some x"
  show ?thesis
  proof (cases "GlobalAllocator_inSmallHeap (sh_global h) p")
    case True
    let ?xs = "{x \<in> sh_objects h \<inter> {..<2 ^ 64}.
        holds_pointer (sh_heap h) (Block_from p) (block_objects (sh_objects h) (Block_from p)) p x}"
    have "?xs \<noteq> {}" "x = Max ?xs"
      using t True by (auto simp: target_def small_target_def Let_def split: if_splits)
    moreover have "finite ?xs" by (rule finite_subset [of _ "{..<2 ^ 64}"]) auto
    ultimately have "x \<in> ?xs" using Max_in by blast
    then show ?thesis by (simp add: nodes_def)
  next
    case False
    with t show ?thesis by (auto simp: target_def large_target_def Let_def nodes_def split: if_splits)
  qed
qed

text \<open>What one word does: nothing when it names no object or a marked one, otherwise it marks the object and scans it.\<close>

definition word_marks :: "shape \<Rightarrow> 'a cheap_scheme \<Rightarrow> addr set \<Rightarrow> addr \<Rightarrow> bool" where
  "word_marks h g M p \<longleftrightarrow> (target h p = None \<longrightarrow> mark_word g p = ret g) \<and>
    (\<forall>x. target h p = Some x \<longrightarrow> (x \<in> M \<longrightarrow> mark_word g p = ret g) \<and>
      (x \<notin> M \<longrightarrow> (\<exists>m'. mark_word g p = ret (Collector_scanObject (g\<lparr>heap := m'\<rparr>) x) \<and> marked_as h m' (insert x M))))"

lemma word_marks_small:
  assumes wf: "shape_wf h" and m: "marked_as h (heap g) M" and gl: "global g = sh_global h"
    and p: "GlobalAllocator_inSmallHeap (sh_global h) p"
  shows "word_marks h g M p"
proof -
  have "small_heap_start (sh_global h) \<le> p" "p < small_heap_start (sh_global h) + sh_blocks h * BLOCK_SIZE"
    using p shape_wfD(2) [OF wf] by (simp_all add: GlobalAllocator_inSmallHeap_def)
  then obtain b where b: "b \<in> set (shape_blocks h)" "b \<le> p" "p < b + 32768"
    unfolding shape_blocks_def by (rule block_of_address)
  note fb = block_facts [OF wf b(1)]
  have t: "target h p = Some x \<longleftrightarrow> holds_pointer (sh_heap h) b (block_objects (sh_objects h) b) p x" for x
    using p small_target_iff [OF wf b] by (simp add: target_def)
  have w: "mark_word g p = Collector_findAndMarkSmallObject g p"
    using p gl by (simp add: mark_word_def)
  show ?thesis
  proof (cases "b + 256 \<le> p")
    case False
    have "\<not> holds_pointer (sh_heap h) b (block_objects (sh_objects h) b) p x" for x
      using False layoutD(1) [OF fb(3)] by (fastforce simp: holds_pointer_def Object_contains_def Object_mutatorAddress_def)
    then show ?thesis using find_metadata [OF fb(1) b(2), where g = g] False t w by (simp add: word_marks_def)
  next
    case True
    note f = find_small_spec [OF layout_during [OF wf m b(1)] fb(1) True b(3), unfolded holds_during [OF wf m b(1)]]
    have none: "mark_word g p = ret g" if "target h p = None" using f t w that by (metis option.distinct(1))
    have some: "(x \<in> M \<longrightarrow> mark_word g p = ret g) \<and>
      (x \<notin> M \<longrightarrow> (\<exists>m'. mark_word g p = ret (Collector_scanObject (g\<lparr>heap := m'\<rparr>) x) \<and> marked_as h m' (insert x M)))"
      if tx: "target h p = Some x" for x
    proof -
      have hx: "holds_pointer (sh_heap h) b (block_objects (sh_objects h) b) p x" using t [of x] tx by blast
      then have x: "x \<in> block_objects (sh_objects h) b" by (simp add: holds_pointer_def)
      have xn: "x \<in> nodes h" using target_node [OF tx] .
      note d = layoutD [OF fb(3) x]
      have "mark_word g p = ret (mark_found g b x)" unfolding w by (rule conjunct1 [OF f, rule_format, OF hx])
      moreover have "mark_found g b x = (if x \<in> M then g else
          Collector_scanObject (g\<lparr>heap := mark_written b x (Object_size (sh_heap h) x) (heap g)\<rparr>) x)"
        using mark_small_eq [OF d(1,2), of g] node_header_same(1) [OF wf m xn] d(3) marked_asD(4) [OF m xn]
        by (simp add: mark_found_def)
      ultimately show ?thesis using marked_as_small [OF wf m b(1) x] by auto
    qed
    show ?thesis unfolding word_marks_def using none some by blast
  qed
qed

text \<open>The cell behind an address of the list, as the mark phase sees it.\<close>

lemma marked_cell:
  assumes m: "marked_as h m M" and s: "sh_cells h = xs @ c # ys"
  defines "a \<equiv> large_heap_start (sh_global h) + extent xs"
  shows "a \<noteq> 0" and "cell_at m a (c\<lparr>cell_marked := (a + 16 \<in> M)\<rparr>)"
proof -
  let ?s = "large_heap_start (sh_global h)"
  have "chunk_list m (large_chunk_list (sh_global h)) ?s
    (mark_cells M ?s xs @ c\<lparr>cell_marked := (a + 16 \<in> M)\<rparr> # mark_cells M (a + cell_total c) ys)"
    using marked_asD(7) [OF m] s by (simp add: mark_cells_append a_def)
  note l = chunk_list_split(1,2) [OF this]
  show "a \<noteq> 0" and "cell_at m a (c\<lparr>cell_marked := (a + 16 \<in> M)\<rparr>)" using l by (simp_all add: a_def)
qed

lemma find_cell_marks: "find_cell p a (mark_cells M a cs) = find_cell p a cs"
  by (induction cs arbitrary: a) (auto simp: cell_total_def)

lemma word_marks_large:
  assumes wf: "shape_wf h" and m: "marked_as h (heap g) M" and gl: "global g = sh_global h"
    and p: "\<not> GlobalAllocator_inSmallHeap (sh_global h) p" "GlobalAllocator_inLargeHeap (sh_global h) p"
  shows "word_marks h g M p"
proof -
  let ?s = "large_heap_start (sh_global h)"
  let ?r = "find_cell p ?s (sh_cells h)"
  have w: "mark_word g p = ret (Collector_markChunk g ?r)"
    using p gl ChunkList_find_cells [OF marked_asD(7) [OF m], of p] by (simp add: mark_word_def find_cell_marks)
  have t: "target h p = (if ?r + 16 \<in> large_nodes h then Some (?r + 16) else None)"
    using p by (simp add: target_def large_target_def Let_def)
  show ?thesis
  proof (cases "?r + 16 \<in> large_nodes h")
    case True
    then have xn: "?r + 16 \<in> nodes h" using nodes_eq [OF wf] by blast
    obtain xs c ys where s: "sh_cells h = xs @ c # ys" "?r = ?s + extent xs" "cell_allocated c"
      using large_node [OF wf True] by (metis add_right_cancel)
    have "?r \<noteq> 0" "Chunk_isAllocated (heap g) ?r" using marked_cell [OF m s(1)] s(2,3) by (simp_all add: cell_at_def)
    then have "Collector_markChunk g ?r =
        (if ?r + 16 \<in> M then g else Collector_scanObject (g\<lparr>heap := Object_mark (heap g) (?r + 16)\<rparr>) (?r + 16))"
      using marked_asD(4) [OF m xn] by (simp add: Collector_markChunk_def Let_def)
    then show ?thesis using w t True marked_as_large [OF wf m True] by (auto simp: word_marks_def)
  next
    case False
    have "\<not> (?r \<noteq> 0 \<and> Chunk_isAllocated (heap g) ?r)"
    proof
      assume r: "?r \<noteq> 0 \<and> Chunk_isAllocated (heap g) ?r"
      then obtain xs c ys where s: "sh_cells h = xs @ c # ys" "?r = ?s + extent xs"
        using find_cell_found [of p ?s "sh_cells h" ?r] by auto
      then have "cell_allocated c" using marked_cell(2) [OF m s(1)] r by (simp add: cell_at_def)
      with s have "?r + 16 \<in> large_nodes h" by (force simp: large_nodes_def placed_in_split)
      with False show False by simp
    qed
    then have "Collector_markChunk g ?r = g" by (auto simp: Collector_markChunk_def)
    then show ?thesis using w t False by (simp add: word_marks_def)
  qed
qed

lemma mark_word_spec:
  assumes st: "mark_state h g0 g M ps"
  shows "mark_word g p = (case target h p of None \<Rightarrow> ret g | Some x \<Rightarrow> if x \<in> M then ret g else mark_word g p)"
    and "target h p = Some x \<Longrightarrow> x \<notin> M \<Longrightarrow>
      \<exists>m'. mark_word g p = ret (Collector_scanObject (g\<lparr>heap := m'\<rparr>) x) \<and> marked_as h m' (insert x M)"
proof -
  have wf: "shape_wf h" and m: "marked_as h (heap g) M"
    and gl: "global g = sh_global h" using st by (auto simp: mark_state_def dest: same_rest_simps(2))
  have "word_marks h g M p"
  proof (cases "GlobalAllocator_inSmallHeap (sh_global h) p \<or> GlobalAllocator_inLargeHeap (sh_global h) p")
    case True
    then show ?thesis using word_marks_small [OF wf m gl] word_marks_large [OF wf m gl] by blast
  next
    case False
    with gl show ?thesis by (simp add: word_marks_def target_def mark_word_def)
  qed
  then show "mark_word g p = (case target h p of None \<Rightarrow> ret g | Some x \<Rightarrow> if x \<in> M then ret g else mark_word g p)"
    and "target h p = Some x \<Longrightarrow> x \<notin> M \<Longrightarrow>
      \<exists>m'. mark_word g p = ret (Collector_scanObject (g\<lparr>heap := m'\<rparr>) x) \<and> marked_as h m' (insert x M)"
    by (auto simp: word_marks_def split: option.splits)
qed

section \<open>The phase\<close>

definition pop_range :: "'a cheap_scheme \<Rightarrow> 'a cheap_scheme \<times> range option" where
  "pop_range g = (case Stack_pop (roots g) of (stack, r) \<Rightarrow> (g\<lparr>roots := stack\<rparr>, r))"

definition word_at :: "shape \<Rightarrow> addr \<Rightarrow> addr" where
  "word_at h a = load 8 (sh_heap h) a"

lemma mark_unfold:
  "Collector_mark g = (case pop_range g of (g', None) \<Rightarrow> ret g'
     | (g', Some (sp, bottom)) \<Rightarrow> pbind (mark_range sp bottom g') Collector_mark)"
  by (subst Collector_mark.simps) (simp add: pop_range_def split: prod.split option.split)

lemma pop_state:
  "mark_state h g0 g M [] \<Longrightarrow> \<exists>g'. pop_range g = (g', None) \<and> mark_state h g0 g' M []"
  "mark_state h g0 g M (r # ps) \<Longrightarrow> \<exists>g'. pop_range g = (g', Some r) \<and> mark_state h g0 g' M ps"
proof -
  assume s: "mark_state h g0 g M []"
  then show "\<exists>g'. pop_range g = (g', None) \<and> mark_state h g0 g' M []"
    using mark_stack.pop_empty [of "roots g"] by (simp add: mark_state_def pop_range_def same_rest_simps)
next
  assume s: "mark_state h g0 g M (r # ps)"
  then show "\<exists>g'. pop_range g = (g', Some r) \<and> mark_state h g0 g' M ps"
    using mark_stack.pop_cons [of "roots g" "fst r" "snd r" ps]
    by (cases "Stack_pop (roots g)") (simp add: mark_state_def pop_range_def same_rest_simps)
qed

lemma steady_read: "mark_state h g0 g M ps \<Longrightarrow> steady_word h a \<Longrightarrow> load 8 (heap g) a = word_at h a"
  unfolding word_at_def
proof (rule load_cong)
  fix c assume st: "mark_state h g0 g M ps" and s: "steady_word h a" and c: "a \<le> c" "c < a + 8"
  then have "\<not> mark_byte h (a + (c - a))" unfolding steady_word_def by (metis le_add_diff_inverse nat_add_left_cancel_less)
  with st c show "heap g c = sh_heap h c" using marked_asD(2) by (auto simp: mark_state_def)
qed

interpretation marking: mark_search "mark_state h g0" "\<lambda>g. load 8 (heap g)" mark_word pop_range mark_range Collector_mark
  "nodes h" "target h" "span h" "steady_word h" "word_at h" for h g0
proof (unfold_locales, goal_cases)
  case 1
  have "finite {(a, c) \<in> set (placed (large_heap_start (sh_global h)) (sh_cells h)). cell_allocated c}"
    by (rule finite_subset [of _ "set (placed (large_heap_start (sh_global h)) (sh_cells h))"]) auto
  then show ?case by (simp add: nodes_def large_nodes_def)
next
  case (2 p x)
  then show ?case by (rule target_node)
next
  case (3 s M ps a)
  then show ?case by (rule steady_read)
next
  case (4 s M ps p)
  then show ?case using mark_word_spec(1) [OF 4(1), of p] by auto
next
  case (5 s M ps p x)
  then show ?case using mark_word_spec(1) [OF 5(1), of p] by auto
next
  case (6 s M ps p x)
  then obtain m' where "mark_word s p = ret (Collector_scanObject (s\<lparr>heap := m'\<rparr>) x)" "marked_as h m' (insert x M)"
    using mark_word_spec(2) [OF 6(1,2)] by blast
  with scan_state [OF 6(1) _ target_node [OF 6(2)]] show ?case by blast
next
  case (7 s M)
  then show ?case by (rule pop_state)
next
  case (8 s M r ps)
  then show ?case by (rule pop_state)
next
  case (9 sp bottom s)
  show ?case by (subst mark_range.simps) simp
next
  case (10 s)
  show ?case by (rule mark_unfold)
qed

text \<open>What the marked objects are compared with: reachability over the words of the heap at the start.\<close>

definition steady_words :: "shape \<Rightarrow> range \<Rightarrow> addr set" where
  "steady_words h r = word_at h ` {a \<in> word_addrs r. steady_word h a}"

definition possible_words :: "shape \<Rightarrow> range \<Rightarrow> addr set" where
  "possible_words h r = (if \<forall>a \<in> word_addrs r. steady_word h a then steady_words h r else UNIV)"

definition reachable :: "shape \<Rightarrow> range set \<Rightarrow> addr set" where
  "reachable h R = reached (steady_words h) (target h) (span h) R"

definition possibly_reachable :: "shape \<Rightarrow> range set \<Rightarrow> addr set" where
  "possibly_reachable h R = reached (possible_words h) (target h) (span h) R"

lemma mark_phase:
  assumes "mark_state h g0 g {} ps"
  shows "\<exists>g' M. Collector_mark g = ret g' \<and> mark_state h g0 g' M [] \<and>
    reachable h (set ps) \<subseteq> M \<and> M \<subseteq> possibly_reachable h (set ps)"
proof -
  have "marking.must h = steady_words h" by (simp add: fun_eq_iff marking.must_def steady_words_def)
  moreover from this have "marking.may h = possible_words h" by (simp add: fun_eq_iff marking.may_def possible_words_def)
  ultimately show ?thesis using marking.search_reaches [OF assms] by (simp add: reachable_def possibly_reachable_def)
qed

section \<open>A sample heap\<close>

text \<open>The sample block, one free chunk at 262144, and at 4096 a word that points to the object.\<close>

definition sample_heap_bytes :: mem where
  "sample_heap_bytes = sample_block(262160 := 240, 262161 := 3, 4096 := 16, 4097 := 1, 4098 := 1)"

definition sample_space :: GlobalAllocator where
  "sample_space = sample_global\<lparr>large_heap_size := 1024, large_heap_start := 262144, large_heap_stop := 263168,
     large_chunk_list := \<lparr>cl_first = 262144, cl_last = 262144, cl_size = 1\<rparr>\<rparr>"

definition sample_start :: cheap where
  "sample_start = sample_state\<lparr>heap := sample_heap_bytes, global := sample_space\<rparr>"

definition sample_shape :: shape where
  "sample_shape = shape_of sample_start 1 {65792} [free_cell 1008]"

lemma sample_sel:
  "heap sample_start = sample_heap_bytes" "global sample_start = sample_space" "roots sample_start = Stack_init 1024"
  "small_heap_start sample_space = 65536" "small_heap_stop sample_space = 98304"
  "large_heap_start sample_space = 262144" "large_heap_stop sample_space = 263168"
  "finalizers sample_space = sample_table" "collect_callback sample_start = 0"
  "large_chunk_list sample_space = \<lparr>cl_first = 262144, cl_last = 262144, cl_size = 1\<rparr>"
  "sh_heap sample_shape = sample_heap_bytes" "sh_global sample_shape = sample_space" "sh_blocks sample_shape = 1"
  "sh_objects sample_shape = {65792}" "sh_cells sample_shape = [free_cell 1008]"
  by (simp_all add: sample_start_def sample_state_def sample_space_def sample_global_def sample_shape_def)

lemma sample_blocks: "blocks_from 65536 1 = [65536]" "blocks_from 65536 (Suc 0) = [65536]" "shape_blocks sample_shape = [65536]"
  by (simp_all add: shape_blocks_def blocks_from_def sample_sel)

lemma sample_objects: "block_objects {65792} 65536 = {65792}"
  by (auto simp: block_objects_def)

lemma sample_wf: "shape_wf sample_shape"
proof -
  have "layout sample_heap_bytes 65536 {65792}"
    by (rule layout_same_block [OF sample_block_layout]) (simp_all add: sample_heap_bytes_def)
  then have "small_layout sample_heap_bytes 65536 1 {65792}"
    by (simp add: small_layout_def sample_blocks sample_objects)
  moreover have "chunk_list sample_heap_bytes \<lparr>cl_first = 262144, cl_last = 262144, cl_size = 1\<rparr> 262144 [free_cell 1008]"
    by (simp add: chunk_list_def cell_at_def chunk_defs free_cell_def cell_total_def sample_heap_bytes_def sample_block_def
        load_8_bytes load.simps)
  ultimately show ?thesis by (simp add: shape_wf_def sample_sel free_cell_def cell_total_def)
qed

lemma sample_nodes: "nodes sample_shape = {65792}"
  using nodes_eq [OF sample_wf] by (auto simp: sample_sel large_nodes_def free_cell_def)

lemma sample_target: "target sample_shape 65808 = Some 65792"
proof -
  have "holds_pointer sample_heap_bytes 65536 {65792} 65808 65792"
    by (simp add: holds_pointer_def Object_contains_def Object_mutatorAddress_def Object_size_def load_8_bytes
        sample_heap_bytes_def sample_block_def)
  then have "small_target sample_shape 65808 = Some 65792"
    using small_target_iff [OF sample_wf, of 65536 65808 65792] by (simp add: sample_blocks sample_sel sample_objects)
  then show ?thesis by (simp add: target_def sample_sel GlobalAllocator_inSmallHeap_def)
qed

lemma sample_reachable: "(4096, 4104) \<in> R \<Longrightarrow> 65792 \<in> reachable sample_shape R"
proof -
  assume r: "(4096, 4104) \<in> R"
  have "steady_word sample_shape 4096"
    by (auto simp: steady_word_def mark_byte_def sample_nodes sample_blocks chunk_objects_def sample_sel)
  moreover have "word_at sample_shape 4096 = 65808"
    by (simp add: word_at_def sample_sel sample_heap_bytes_def sample_block_def load_8_bytes)
  ultimately have "65808 \<in> steady_words sample_shape (4096, 4104)"
    by (force simp: steady_words_def word_addrs_def)
  from reached.root [of "(4096, 4104)" R 65808 "steady_words sample_shape" "target sample_shape" 65792, OF r this sample_target]
  show ?thesis by (simp add: reachable_def)
qed

section \<open>Properties\<close>

definition unmarked_shape :: "shape \<Rightarrow> bool" where
  "unmarked_shape h \<longleftrightarrow> (\<forall>x \<in> nodes h. \<not> Object_isMarked (sh_heap h) x) \<and>
     (\<forall>b \<in> set (shape_blocks h). \<not> Block_isMarked (sh_heap h) b) \<and> (\<forall>c \<in> set (sh_cells h). \<not> cell_marked c)"

lemma mark_cells_unmarked: "(\<forall>c \<in> set cs. \<not> cell_marked c) \<Longrightarrow> mark_cells {} s cs = cs"
  by (induction cs arbitrary: s) auto

lemma unmarked_start: "shape_wf h \<Longrightarrow> unmarked_shape h \<Longrightarrow> marked_as h (sh_heap h) {}"
  using shape_wfD(3) [of h] by (auto simp: marked_as_def unmarked_shape_def block_objects_def mark_cells_unmarked)

text \<open>
  C3. On a well-formed heap without marks, \<open>Collector_mark\<close> returns with an empty stack. It has marked every object that
  can be reached from the ranges on the stack, over any number of objects, and only objects that can be reached when the
  words that marking itself may write are taken to hold anything; the block of a marked small object is marked, and
  its lines by the collector's rule. Of the state only the stack and mark bytes have changed.
\<close>

theorem mark_marks_reachable:
  assumes "shape_wf (shape_of g n S cs)" and "unmarked_shape (shape_of g n S cs)" and "stack_wf (roots g)"
  shows "\<exists>g'. Collector_mark g = ret g' \<and> Stack_isEmpty (roots g') \<and> same_rest g g' \<and>
    (\<forall>x \<in> reachable (shape_of g n S cs) (set (stack_pairs (roots g))). Object_isMarked (heap g') x) \<and>
    (\<forall>x \<in> nodes (shape_of g n S cs). Object_isMarked (heap g') x \<longrightarrow>
       x \<in> possibly_reachable (shape_of g n S cs) (set (stack_pairs (roots g)))) \<and>
    (\<forall>b \<in> set (shape_blocks (shape_of g n S cs)). \<forall>x \<in> block_objects S b. Object_isMarked (heap g') x \<longrightarrow>
       Block_isMarked (heap g') b \<and> lines_marked_for (heap g') b x (Object_size (heap g) x)) \<and>
    (\<forall>a. \<not> mark_byte (shape_of g n S cs) a \<longrightarrow> heap g' a = heap g a)"
proof -
  let ?h = "shape_of g n S cs"
  have "mark_state ?h g g {} (stack_pairs (roots g))"
    using assms unmarked_start [OF assms(1,2)] by (simp add: mark_state_def same_rest_simps)
  from mark_phase [OF this] obtain g' M where m: "Collector_mark g = ret g'" "mark_state ?h g g' M []"
    "reachable ?h (set (stack_pairs (roots g))) \<subseteq> M" "M \<subseteq> possibly_reachable ?h (set (stack_pairs (roots g)))" by blast
  then have mm: "marked_as ?h (heap g') M" "same_rest g g'" "stack_wf (roots g')" "stack_pairs (roots g') = []"
    by (simp_all add: mark_state_def)
  have "Stack_isEmpty (roots g')"
    using mm(3,4) by (auto simp: stack_wf_def stack_pairs_def Stack_size_def Stack_isEmpty_def)
  moreover have "Object_isMarked (heap g') x \<longleftrightarrow> x \<in> M" if "x \<in> nodes ?h" for x using marked_asD(4) [OF mm(1) that] .
  moreover have "x \<in> nodes ?h" if "x \<in> block_objects S b" for x b
    using that nodes_eq [OF assms(1)] by (simp add: block_objects_def)
  moreover have "x \<in> block_objects M b \<Longrightarrow> b \<in> set (shape_blocks ?h) \<Longrightarrow>
      Block_isMarked (heap g') b \<and> lines_marked_for (heap g') b x (Object_size (heap g) x)" for x b
    using marked_asD(5) [OF mm(1), of b x] by simp
  ultimately show ?thesis
    using m mm(2) marked_asD(1,2) [OF mm(1)] by (intro exI [of _ g']) (auto simp: block_objects_def subset_iff)
qed

theorem mark_marks_reachable_witness:
  "\<exists>g'. Collector_mark (sample_start\<lparr>roots := Stack_push (Stack_init 1024) 4096 4104\<rparr>) = ret g' \<and>
     Object_isMarked (heap g') 65792"
proof -
  let ?g = "sample_start\<lparr>roots := Stack_push (Stack_init 1024) 4096 4104\<rparr>"
  have sh: "shape_of ?g 1 {65792} [free_cell 1008] = sample_shape" by (simp add: sample_shape_def shape_of_def)
  have "unmarked_shape sample_shape"
    by (simp add: unmarked_shape_def sample_nodes sample_blocks sample_sel Object_isMarked_byte Block_isMarked_byte
        sample_heap_bytes_def sample_block_def free_cell_def)
  moreover have "stack_wf (roots ?g)" "set (stack_pairs (roots ?g)) = {(4096, 4104)}"
    using stack_init_ok [of 1024] mark_stack.push_invar mark_stack.push_pending by auto
  ultimately show ?thesis
    using mark_marks_reachable [of ?g 1 "{65792}" "[free_cell 1008]", unfolded sh] sample_wf sample_reachable by auto
qed

end
