(* ===== verification/Collection.thy ===== *)
theory Collection
  imports Mark_Phase
begin

text \<open>
  A whole collection (\<open>Collector_collect\<close>): unmark, push the roots, mark, finalize, sweep. The theory composes the
  refinements of the phases and shows that every object that can be reached keeps its bytes and its place, and that
  the heap is well-formed again.
\<close>

section \<open>Unmarking the large object space\<close>

lemma unmark_chunks_spec:
  assumes "chunk_list m self s (xs @ cs)"
  shows "\<exists>m'. unmark_chunks (if cs = [] then 0 else s + extent xs) m = ret m' \<and>
    chunk_list m' self s (xs @ mark_cells {} (s + extent xs) cs) \<and>
    (\<forall>a. (\<forall>(b, c) \<in> set (placed (s + extent xs) cs). a \<noteq> b + 24) \<longrightarrow> m' a = m a)"
  using assms
proof (induction cs arbitrary: xs m)
  case Nil
  then show ?case by (auto simp: unmark_chunks.simps)
next
  case (Cons c cs)
  let ?a = "s + extent xs" and ?c = "c\<lparr>cell_marked := False\<rparr>"
  let ?m = "Chunk_unmark m ?a"
  note l = chunk_list_split [OF Cons.prems]
  have l1: "chunk_list ?m self s ((xs @ [?c]) @ cs)" using Chunk_mark_cells(2) [OF Cons.prems] by simp
  have ext: "extent (xs @ [?c]) = extent xs + cell_total c" by (simp add: cell_total_def)
  have "Chunk_next ?m ?a = (if cs = [] then 0 else ?a + cell_total c)"
    using l(5) by (simp add: chunk_defs load_store_other)
  then have step: "unmark_chunks ?a m = unmark_chunks (if cs = [] then 0 else s + extent (xs @ [?c])) ?m"
    using l(2) unfolding ext by (subst unmark_chunks.simps) (simp add: Let_def add.assoc)
  obtain m' where m': "unmark_chunks (if cs = [] then 0 else s + extent (xs @ [?c])) ?m = ret m'"
    "chunk_list m' self s ((xs @ [?c]) @ mark_cells {} (s + extent (xs @ [?c])) cs)"
    "\<forall>a. (\<forall>(b, c) \<in> set (placed (s + extent (xs @ [?c])) cs). a \<noteq> b + 24) \<longrightarrow> m' a = ?m a"
    using Cons.IH [OF l1] by blast
  have "?m a = m a" if "a \<noteq> ?a + 24" for a
    using that by (cases "a < ?a + 24") (simp_all add: Chunk_unmark_def Object_unmark_def store_frame)
  with m' step show ?case unfolding ext by (intro exI [of _ m']) (auto simp: add.assoc)
qed

section \<open>The graph does not depend on marks\<close>

definition same_shape :: "shape \<Rightarrow> shape \<Rightarrow> bool" where
  "same_shape h h' \<longleftrightarrow>
     sh_global h' = sh_global h \<and> sh_blocks h' = sh_blocks h \<and> sh_objects h' = sh_objects h \<and>
     (\<exists>M. sh_cells h' = mark_cells M (large_heap_start (sh_global h)) (sh_cells h)) \<and>
     (\<forall>a. \<not> mark_byte h a \<longrightarrow> sh_heap h' a = sh_heap h a)"

lemma allocated_image:
  "(\<lambda>(a, c). a + 16) ` {(a, c) \<in> P. cell_allocated c} = {a + 16 | a. \<exists>c. (a, c) \<in> P \<and> cell_allocated c}"
  for P :: "(addr \<times> cell) set" by force

lemma mark_cells_nodes:
  "(\<lambda>(a, c). a + 16) ` {(a, c) \<in> set (placed s (mark_cells M s cs)). cell_allocated c} =
   (\<lambda>(a, c). a + 16) ` {(a, c) \<in> set (placed s cs). cell_allocated c}"
proof -
  have "(\<exists>c. (a, c) \<in> set (placed s (mark_cells M s cs)) \<and> cell_allocated c) \<longleftrightarrow>
        (\<exists>c. (a, c) \<in> set (placed s cs) \<and> cell_allocated c)" for a
    by (induction cs arbitrary: s) (auto simp: cell_total_def)
  then show ?thesis by (simp add: allocated_image)
qed

lemma find_cell_mark [simp]: "find_cell p a (mark_cells M a cs) = find_cell p a cs"
  by (induction cs arbitrary: a) (auto simp: cell_total_def)

lemma same_shape_nodes:
  assumes "same_shape h h'"
  shows "nodes h' = nodes h" "large_nodes h' = large_nodes h" "shape_blocks h' = shape_blocks h" "mark_byte h' = mark_byte h"
    "steady_word h' = steady_word h"
proof -
  obtain M where eq: "sh_global h' = sh_global h" "sh_blocks h' = sh_blocks h" "sh_objects h' = sh_objects h"
     "sh_cells h' = mark_cells M (large_heap_start (sh_global h)) (sh_cells h)"
    using assms by (auto simp: same_shape_def)
  show ln: "large_nodes h' = large_nodes h" unfolding large_nodes_def eq by (rule mark_cells_nodes)
  then show n: "nodes h' = nodes h" by (simp add: nodes_def eq)
  show b: "shape_blocks h' = shape_blocks h" by (simp add: shape_blocks_def eq)
  have "fst ` set (placed s (mark_cells M s cs)) = fst ` set (placed s cs)" for s cs
    by (induction cs arbitrary: s) (auto simp: cell_total_def)
  then have "(\<lambda>a. a + 16) ` fst ` set (placed s (mark_cells M s cs)) = (\<lambda>a. a + 16) ` fst ` set (placed s cs)" for s cs
    by simp
  then have co: "chunk_objects h' = chunk_objects h"
    by (simp add: chunk_objects_def eq image_image case_prod_beta)
  show mb: "mark_byte h' = mark_byte h" by (simp add: mark_byte_def n b co fun_eq_iff)
  show "steady_word h' = steady_word h" by (simp add: steady_word_def mb fun_eq_iff)
qed

lemma same_shape_graph:
  assumes wf: "shape_wf h" and s: "same_shape h h'"
  shows "target h' = target h" "span h' = span h" "steady_words h' = steady_words h" "possible_words h' = possible_words h"
proof -
  note n = same_shape_nodes [OF s]
  obtain M where eq: "sh_global h' = sh_global h" "sh_blocks h' = sh_blocks h" "sh_objects h' = sh_objects h"
     "sh_cells h' = mark_cells M (large_heap_start (sh_global h)) (sh_cells h)"
    using s by (auto simp: same_shape_def)
  have same: "sh_heap h' a = sh_heap h a" if "\<not> mark_byte h a" for a using s that by (simp add: same_shape_def)
  have hdr: "sh_heap h' a = sh_heap h a" if "x \<in> nodes h" "x \<le> a" "a < x + 16" "a \<noteq> x + 8" for x a
    using same node_header [OF wf that(1-3)] that(4) by blast
  have size: "Object_size (sh_heap h') x = Object_size (sh_heap h) x" "Object_atomic (sh_heap h') x = Object_atomic (sh_heap h) x"
    if "x \<in> nodes h" for x
    unfolding Object_size_def Object_atomic_def by (rule load_cong, rule hdr [OF that], simp_all)+
  have "holds_pointer (sh_heap h') b (block_objects (sh_objects h) b) p x \<longleftrightarrow>
      holds_pointer (sh_heap h) b (block_objects (sh_objects h) b) p x" for b p x
  proof -
    have "Object_contains (sh_heap h') x p = Object_contains (sh_heap h) x p" if "x \<in> block_objects (sh_objects h) b"
      using size(1) [of x] that nodes_eq [OF wf] by (auto simp: Object_contains_def block_objects_def)
    then show ?thesis by (auto simp: holds_pointer_def)
  qed
  then show "target h' = target h"
    by (simp add: target_def small_target_def large_target_def eq n(2) fun_eq_iff)
  show "span h' = span h" using size by (auto simp: span_def n(1) fun_eq_iff)
  have "word_at h' a = word_at h a" if "steady_word h a" for a
    unfolding word_at_def
  proof (rule load_cong)
    fix c assume c: "a \<le> c" "c < a + 8"
    then have "\<not> mark_byte h (a + (c - a))" using that unfolding steady_word_def by (metis le_add_diff_inverse nat_add_left_cancel_less)
    with c same show "sh_heap h' c = sh_heap h c" by simp
  qed
  then show sw: "steady_words h' = steady_words h" by (auto simp: steady_words_def n(5) fun_eq_iff)
  show "possible_words h' = possible_words h" by (simp add: possible_words_def n(5) sw fun_eq_iff)
qed

lemma same_shape_reachable:
  assumes "shape_wf h" and "same_shape h h'"
  shows "reachable h' R = reachable h R" "possibly_reachable h' R = possibly_reachable h R"
  by (simp_all add: reachable_def possibly_reachable_def same_shape_graph [OF assms])

section \<open>Unmarking the heap\<close>

definition clear_cells :: "cell list \<Rightarrow> cell list" where
  "clear_cells cs = map (\<lambda>c. c\<lparr>cell_marked := False\<rparr>) cs"

lemma mark_cells_none: "mark_cells {} s cs = clear_cells cs"
  by (induction cs arbitrary: s) (auto simp: clear_cells_def)

lemma mark_cells_clear: "mark_cells M s (clear_cells cs) = mark_cells M s cs"
  by (induction cs arbitrary: s) (auto simp: clear_cells_def cell_total_def)

lemma shape_small: "shape_wf h \<Longrightarrow> small_layout (sh_heap h) (small_heap_start (sh_global h)) (sh_blocks h) (sh_objects h)"
  by (rule shape_wfD)

lemma mark_byte_cases:
  "mark_byte h a \<longleftrightarrow> (\<exists>x \<in> nodes h \<union> chunk_objects h. a = x + 8) \<or>
     (\<exists>b \<in> set (shape_blocks h). a = b \<or> b + 16 \<le> a \<and> a < b + 143)"
  by (rule mark_byte_def)

text \<open>What the walk over the small space leaves.\<close>

lemma small_unmarked_same:
  assumes wf: "shape_wf (shape_of g n S cs)" and a: "\<not> mark_byte (shape_of g n S cs) a"
  shows "small_unmarked S (shape_blocks (shape_of g n S cs)) m a = m a"
  using a nodes_eq [OF wf] by (auto simp: small_unmarked_def mark_byte_def)

lemma small_unmarked_large:
  assumes wf: "shape_wf (shape_of g n S cs)"
    and a: "large_heap_start (global g) \<le> a" "a < large_heap_start (global g) + extent cs"
  shows "small_unmarked S (shape_blocks (shape_of g n S cs)) m a = m a"
proof (rule small_unmarked_outside)
  note w = shape_wfD [OF wf, simplified]
  have "x \<in> nodes (shape_of g n S cs)" if "x \<in> S" for x using that nodes_eq [OF wf] by simp
  then show "\<forall>x \<in> S. a \<noteq> x + 8" using a small_region [OF wf] extent_dvd_nodes [OF wf] w(4,5) by fastforce
  show "\<forall>b \<in> set (shape_blocks (shape_of g n S cs)). a < b \<or> b + 143 \<le> a"
    using a block_facts(4,5) [OF wf] w(4,5) by fastforce
qed

lemma small_unmarked_header:
  assumes wf: "shape_wf (shape_of g n S cs)" and b: "b \<in> set (shape_blocks (shape_of g n S cs))" and i: "i < 127"
  shows "small_unmarked S (shape_blocks (shape_of g n S cs)) m (b + 16 + i) = m (b + 16 + i) AND NOT 1"
proof -
  let ?bs = "shape_blocks (shape_of g n S cs)" and ?a = "b + 16 + i"
  have "\<not> (\<exists>x \<in> S. ?a = x + 8)"
  proof
    assume "\<exists>x \<in> S. ?a = x + 8"
    then obtain x where x: "x \<in> S" "?a = x + 8" by blast
    have "x \<in> nodes (shape_of g n S cs)" using x(1) nodes_eq [OF wf] by simp
    from node_not_meta [OF wf this b, of ?a] x(2) i show False by simp
  qed
  moreover have "?a \<notin> set ?bs"
    using blocks_disjoint [OF block_facts(1) [OF wf b] block_facts(1) [OF wf, of ?a]] i by auto
  moreover have "\<exists>b \<in> set ?bs. b + 16 \<le> ?a \<and> ?a < b + 143" using b i by (intro bexI [of _ b]) auto
  ultimately show ?thesis by (simp only: small_unmarked_def if_False if_True)
qed

text \<open>The whole phase, as the memory it leaves: both walks write mark bytes only.\<close>

definition unmarked_memory :: "'a gheap_scheme \<Rightarrow> nat \<Rightarrow> addr set \<Rightarrow> cell list \<Rightarrow> mem \<Rightarrow> bool" where
  "unmarked_memory g n S cs m2 \<longleftrightarrow>
     chunk_list m2 (large_chunk_list (global g)) (large_heap_start (global g)) (clear_cells cs) \<and>
     (\<forall>a. a - 8 \<notin> chunk_objects (shape_of g n S cs) \<or> a < 8 \<longrightarrow>
       m2 a = small_unmarked S (shape_blocks (shape_of g n S cs)) (heap g) a)"

lemma unmark_runs:
  assumes wf: "shape_wf (shape_of g n S cs)"
  shows "\<exists>m1 m2. Collector_unmarkSmallObjects g = ret (g\<lparr>heap := m1\<rparr>) \<and>
    Collector_unmarkLargeObjects (g\<lparr>heap := m1\<rparr>) = ret (g\<lparr>heap := m2\<rparr>) \<and> unmarked_memory g n S cs m2"
proof -
  let ?h = "shape_of g n S cs" and ?ls = "large_heap_start (global g)"
  let ?m1 = "small_unmarked S (shape_blocks ?h) (heap g)"
  note w = shape_wfD [OF wf, simplified]
  have small: "Collector_unmarkSmallObjects g = ret (g\<lparr>heap := ?m1\<rparr>)"
    using unmark_blocks_spec [OF w(1)] w(2) by (simp add: Collector_unmarkSmallObjects_def shape_blocks_def)
  have l1: "chunk_list ?m1 (large_chunk_list (global g)) ?ls ([] @ cs)"
    using chunk_list_cong [OF w(3), of ?m1] small_unmarked_large [OF wf] by (simp add: same_bytes_def)
  obtain m2 where m2: "unmark_chunks (if cs = [] then 0 else ?ls) ?m1 = ret m2"
    "chunk_list m2 (large_chunk_list (global g)) ?ls (clear_cells cs)"
    "\<And>a. (\<forall>(b, c) \<in> set (placed ?ls cs). a \<noteq> b + 24) \<Longrightarrow> m2 a = ?m1 a"
    using unmark_chunks_spec [OF l1, unfolded extent_simps add_0_right append_Nil mark_cells_none] by blast
  have "Collector_unmarkLargeObjects (g\<lparr>heap := ?m1\<rparr>) = ret (g\<lparr>heap := m2\<rparr>)"
    using m2(1) w(3) by (auto simp: Collector_unmarkLargeObjects_def chunk_list_def split: if_splits)
  moreover have "m2 a = ?m1 a" if "a - 8 \<notin> chunk_objects ?h \<or> a < 8" for a
    by (rule m2(3)) (use that in \<open>force simp: chunk_objects_def\<close>)
  ultimately show ?thesis using small m2(2) by (auto simp: unmarked_memory_def)
qed

lemma unmarked_memory_same:
  assumes wf: "shape_wf (shape_of g n S cs)" and u: "unmarked_memory g n S cs m2" and a: "\<not> mark_byte (shape_of g n S cs) a"
  shows "m2 a = heap g a"
proof -
  have "a - 8 \<notin> chunk_objects (shape_of g n S cs) \<or> a < 8" using a by (force simp: mark_byte_def)
  with u have "m2 a = small_unmarked S (shape_blocks (shape_of g n S cs)) (heap g) a" by (simp add: unmarked_memory_def)
  with small_unmarked_same [OF wf a] show ?thesis by simp
qed

lemma unmarked_memory_small:
  assumes wf: "shape_wf (shape_of g n S cs)" and u: "unmarked_memory g n S cs m2"
    and a: "small_heap_start (global g) \<le> a" "a < small_heap_stop (global g)"
  shows "m2 a = small_unmarked S (shape_blocks (shape_of g n S cs)) (heap g) a"
proof -
  have "a - 8 \<notin> chunk_objects (shape_of g n S cs) \<or> a < 8"
    using chunk_region [OF wf, of "a - 8"] shape_wfD(5) [OF wf] a by fastforce
  with u show ?thesis by (simp add: unmarked_memory_def)
qed

lemma unmarked_memory_layout:
  assumes wf: "shape_wf (shape_of g n S cs)" and u: "unmarked_memory g n S cs m2"
    and b: "b \<in> set (shape_blocks (shape_of g n S cs))"
  shows "layout m2 b (block_objects S b)"
proof -
  have hdr: "m2 (b + 16 + i) = heap g (b + 16 + i) AND NOT 1" if "i < 127" for i
    using unmarked_memory_small [OF wf u, of "b + 16 + i"] block_facts(4,5) [OF wf b] small_unmarked_header [OF wf b that] that
    by simp
  show ?thesis
  proof (rule layout_marks)
    show "layout (heap g) b (block_objects S b)" "8 dvd b" using block_facts [OF wf b] by simp_all
    show "\<exists>x \<in> block_objects S b. a = x + 8" if "b + 256 \<le> a" "a < b + 32768" "m2 a \<noteq> heap g a" for a
      using object_mark_byte [OF wf b, of a] unmarked_memory_same [OF wf u, of a] that by auto
  qed (use hdr hdr_unmark in auto)
qed

lemma unmarked_memory_object:
  assumes wf: "shape_wf (shape_of g n S cs)" and u: "unmarked_memory g n S cs m2" and x: "x \<in> nodes (shape_of g n S cs)"
  shows "\<not> Object_isMarked m2 x"
proof (cases "x \<in> S")
  case True
  have "small_heap_start (global g) \<le> x + 8" "x + 8 < small_heap_stop (global g)"
    using small_region [OF wf, of x] extent_dvd_nodes [OF wf, of x] True x by auto
  then show ?thesis
    using unmarked_memory_small [OF wf u] True by (auto simp: Object_isMarked_byte small_unmarked_def)
next
  case False
  then have "x \<in> large_nodes (shape_of g n S cs)" using x nodes_eq [OF wf] by auto
  then obtain xs c ys where s: "cs = xs @ c # ys" "x = large_heap_start (global g) + extent xs + 16"
    by (auto simp: large_nodes_def placed_in_split)
  have "chunk_list m2 (large_chunk_list (global g)) (large_heap_start (global g))
    (clear_cells xs @ c\<lparr>cell_marked := False\<rparr> # clear_cells ys)"
    using u s(1) by (simp add: unmarked_memory_def clear_cells_def)
  from chunk_list_split(1) [OF this] s(2) show ?thesis
    by (simp add: cell_at_def Chunk_isMarked_def mark_cells_none [of 0, symmetric])
qed

lemma unmark_phase:
  assumes wf: "shape_wf (shape_of g n S cs)"
  shows "\<exists>m1 m2. Collector_unmarkSmallObjects g = ret (g\<lparr>heap := m1\<rparr>) \<and>
    Collector_unmarkLargeObjects (g\<lparr>heap := m1\<rparr>) = ret (g\<lparr>heap := m2\<rparr>) \<and>
    shape_wf (shape_of (g\<lparr>heap := m2\<rparr>) n S (clear_cells cs)) \<and>
    same_shape (shape_of g n S cs) (shape_of (g\<lparr>heap := m2\<rparr>) n S (clear_cells cs)) \<and>
    marked_as (shape_of (g\<lparr>heap := m2\<rparr>) n S (clear_cells cs)) m2 {}"
proof -
  let ?h = "shape_of g n S cs"
  obtain m1 m2 where runs: "Collector_unmarkSmallObjects g = ret (g\<lparr>heap := m1\<rparr>)"
    "Collector_unmarkLargeObjects (g\<lparr>heap := m1\<rparr>) = ret (g\<lparr>heap := m2\<rparr>)" and u: "unmarked_memory g n S cs m2"
    using unmark_runs [OF wf] by blast
  have l: "chunk_list m2 (large_chunk_list (global g)) (large_heap_start (global g)) (clear_cells cs)"
    using u by (simp add: unmarked_memory_def)
  let ?h' = "shape_of (g\<lparr>heap := m2\<rparr>) n S (clear_cells cs)"
  have ss: "same_shape ?h ?h'"
    using unmarked_memory_same [OF wf u] by (auto simp: same_shape_def mark_cells_none intro!: exI [of _ "{}"])
  note n = same_shape_nodes [OF ss]
  have "m2 b = 0" if b: "b \<in> set (shape_blocks ?h)" for b
    using b block_facts(4,5) [OF wf b] unmarked_memory_small [OF wf u, of b] by (simp add: small_unmarked_def)
  then have "marked_as ?h' m2 {}"
    unfolding marked_as_def n(1,3)
    using unmarked_memory_object [OF wf u] l
    by (auto simp: block_objects_def Block_isMarked_byte mark_cells_none clear_cells_def comp_def)
  moreover have "8 dvd cell_size c" if "c \<in> set (clear_cells cs)" for c
    using that wf by (auto simp: clear_cells_def shape_wf_def)
  then have "shape_wf ?h'"
    using wf unmarked_memory_layout [OF wf u] l
    by (auto simp: shape_wf_def small_layout_def shape_blocks_def mark_cells_none [of 0, symmetric])
  ultimately show ?thesis using runs ss by blast
qed

section \<open>Sweeping the small object space\<close>

text \<open>The objects that can still be walked to: those that begin in a marked line of a marked block.\<close>

definition kept_objects :: "mem \<Rightarrow> addr \<Rightarrow> addr set \<Rightarrow> addr set" where
  "kept_objects m b S = (if Block_isMarked m b then {x \<in> S. line_marked m b (line_of b x)} else {})"

text \<open>The sweep leaves the lines with a mark alone.\<close>

lemma recycled_line:
  assumes r: "recycled m m' b" and bm: "Block_isMarked m b" and a: "b + 256 \<le> a" "a < b + 32768"
    and mk: "line_marked m b (line_of b a)"
  shows "m' a = m a"
proof -
  have "\<not> in_hole_words b (block_holes m b) a"
  proof
    assume "in_hole_words b (block_holes m b) a"
    then obtain h where h: "h \<in> set (block_holes m b)" "line_of b a = fst h" using hole_words_line by blast
    then have "\<not> line_marked m b (line_of b a)"
      using in_hole_iff [of "fst h" m b] block_holes_bound [OF h(1)] by auto
    with mk show False by simp
  qed
  with r bm a show ?thesis by (simp add: recycled_def)
qed

lemma recycled_word:
  assumes r: "recycled m m' b" and bm: "Block_isMarked m b" and b: "8 dvd b" and a: "b + 256 \<le> a" "8 dvd a" "a < b + 32768"
    and mk: "line_marked m b (line_of b a)"
  shows "load 8 m' a = load 8 m a"
proof (rule load_cong)
  fix c assume c: "a \<le> c" "c < a + 8"
  have "a + 8 \<le> line_addr b (line_of b a) + 256"
    using line_of_bounds [OF a(1)] by (intro dvd_step a(2) dvd_add line_addr_dvd b) auto
  then have "line_of b c = line_of b a" using c a(1) line_of_bounds [OF a(1)] by (subst line_of_iff) auto
  moreover have "a + 8 \<le> b + 32768" by (intro dvd_step a(2,3) dvd_add b) simp
  ultimately show "m' c = m c" using recycled_line [OF r bm, of c] c a mk by simp
qed

lemma recycled_chain:
  assumes l: "layout m b S" and b: "8 dvd b" and r: "recycled m m' b" and bm: "Block_isMarked m b"
    and x: "x \<in> S" and mk: "line_marked m b (line_of b x)"
  shows "chain_ok m' b {x \<in> S. line_marked m b (line_of b x)} x"
proof -
  let ?S = "{x \<in> S. line_marked m b (line_of b x)}" and ?e = "x + Object_size m x"
  note d = layoutD [OF l x]
  have "Object_size m' x = Object_size m x"
    using recycled_word [OF r bm b, of x] d mk by (simp add: Object_size_def)
  moreover have "?e \<in> ?S \<or> Object_size m' ?e = 0 \<and> (\<forall>y \<in> ?S. line_of b y = line_of b x \<longrightarrow> y \<le> x)"
    if e: "?e < line_addr b (line_of b x) + 256"
  proof -
    have le: "line_of b ?e = line_of b x"
      using e d(1) line_of_bounds [OF d(1)] by (subst line_of_iff) auto
    have "?e < b + 32768" using e d(8) by (simp add: line_addr_def)
    then have "load 8 m' ?e = load 8 m ?e"
      by (intro recycled_word [OF r bm b]) (use d le mk in \<open>auto intro: dvd_add\<close>)
    with layout_next(1) [OF l x e] le mk show ?thesis by (auto simp: Object_size_def)
  qed
  ultimately show ?thesis by (simp add: chain_ok_def Let_def)
qed

lemma recycled_layout:
  assumes l: "layout m b S" and b: "8 dvd b" and r: "recycled m m' b"
  shows "layout m' b (kept_objects m b S)"
proof (cases "Block_isMarked m b")
  case False
  then have "m' (b + 16 + i) = 0" if "i < 127" for i using r that by (simp add: recycled_def)
  with False show ?thesis by (auto simp: layout_def header_ok_def kept_objects_def hdr_object_def)
next
  case True
  let ?S = "{x \<in> S. line_marked m b (line_of b x)}"
  have hdr: "m' (b + 16 + i) = (if line_marked m b i then m (b + 16 + i) else 0)" if "i < 127" for i
    using r True that by (simp add: recycled_def)
  have size: "Object_size m' x = Object_size m x" if "x \<in> ?S" for x
    using recycled_word [OF r True b, of x] layoutD(1-5) [OF l, of x] that by (simp add: Object_size_def)
  have "well_placed m' b x" if "x \<in> ?S" for x
    using layoutD(1-6) [OF l, of x] that size [OF that] by (simp add: well_placed_def)
  moreover have "chain_ok m' b ?S x" if "x \<in> ?S" for x
    using that by (intro recycled_chain [OF l b r True]) auto
  moreover have "apart m' b x y" if "x \<in> ?S" "y \<in> ?S" "x < y" for x y
    using layout_apart [OF l, of x y] that size [OF that(1)] by (simp add: apart_def)
  moreover have "header_ok m' b ?S i" if i: "i < 127" for i
  proof (cases "line_marked m b i")
    case True
    with hdr [OF i] l i show ?thesis by (auto simp: layout_def header_ok_def Let_def)
  next
    case False
    with hdr [OF i] show ?thesis by (auto simp: header_ok_def hdr_object_def)
  qed
  ultimately show ?thesis using True by (simp add: layout_def kept_objects_def)
qed

lemma same_line_marks:
  assumes "lines_marked_for m b x sz" and "0 < sz"
  shows "line_marked m b (line_of b x)"
  using assms by (auto simp: lines_marked_for_def split: if_splits)

section \<open>Sweeping both spaces\<close>

definition swept_objects :: "shape \<Rightarrow> mem \<Rightarrow> addr set" where
  "swept_objects h m = {x. \<exists>b \<in> set (shape_blocks h). x \<in> kept_objects m b (block_objects (sh_objects h) b)}"

definition after_sweep :: "'a gheap_scheme \<Rightarrow> BlockList \<Rightarrow> BlockList \<Rightarrow> ChunkList \<Rightarrow> mem \<Rightarrow> 'a gheap_scheme" where
  "after_sweep g fl rl cl m =
     g\<lparr>global := (global g)\<lparr>free_list := fl, recyclable_list := rl, large_chunk_list := cl\<rparr>, heap := m\<rparr>"

text \<open>The part of the global state that the shape of the heap depends on.\<close>

definition same_space :: "GlobalAllocator \<Rightarrow> GlobalAllocator \<Rightarrow> bool" where
  "same_space G G' \<longleftrightarrow>
     small_heap_start G' = small_heap_start G \<and> small_heap_stop G' = small_heap_stop G \<and>
     large_heap_start G' = large_heap_start G \<and> large_heap_stop G' = large_heap_stop G \<and>
     large_chunk_list G' = large_chunk_list G"

lemma swept_in_block:
  assumes wf: "shape_wf h" and b: "b \<in> set (shape_blocks h)"
  shows "block_objects (swept_objects h m) b = kept_objects m b (block_objects (sh_objects h) b)"
proof
  show "block_objects (swept_objects h m) b \<subseteq> kept_objects m b (block_objects (sh_objects h) b)"
  proof
    fix x assume x: "x \<in> block_objects (swept_objects h m) b"
    then obtain c where c: "c \<in> set (shape_blocks h)" "x \<in> kept_objects m c (block_objects (sh_objects h) c)"
      by (auto simp: block_objects_def swept_objects_def)
    then have "c \<le> x" "x < c + 32768" by (auto simp: kept_objects_def block_objects_def split: if_splits)
    then have "c = b"
      using x blocks_disjoint [OF block_facts(1) [OF wf b] block_facts(1) [OF wf c(1)]] by (auto simp: block_objects_def)
    with c show "x \<in> kept_objects m b (block_objects (sh_objects h) b)" by simp
  qed
  show "kept_objects m b (block_objects (sh_objects h) b) \<subseteq> block_objects (swept_objects h m) b"
    using b by (auto simp: swept_objects_def kept_objects_def block_objects_def split: if_splits)
qed

lemma sweep_sizes_dvd: "(\<And>c. c \<in> set cs \<Longrightarrow> 8 dvd cell_size c) \<Longrightarrow> c \<in> set (sweep_cells cs) \<Longrightarrow> 8 dvd cell_size c"
proof (induction cs rule: sweep_cells.induct)
  case (2 d cs)
  show ?case
  proof (cases "cell_marked d")
    case True
    with 2 show ?thesis by auto
  next
    case False
    have "8 dvd extent (takeWhile unmarked cs)"
      by (rule extent_dvd) (use 2(3) in \<open>auto simp: cell_total_def dest: set_takeWhileD\<close>)
    with False 2(2) [OF False] 2(3,4) show ?thesis by (auto dest: set_dropWhileD)
  qed
qed simp

lemma recycle_shape:
  assumes wf: "shape_wf h" and gs: "same_space (sh_global h) (global g)"
  shows "\<exists>fl rl m1. GlobalAllocator_recycleBlocks g = ret (with_lists g fl rl m1) \<and>
    block_queue m1 fl (free_part (heap g) (shape_blocks h)) \<and> block_queue m1 rl (recyclable_part (heap g) (shape_blocks h)) \<and>
    (\<forall>b \<in> set (shape_blocks h). recycled (heap g) m1 b) \<and>
    (\<forall>a. \<not> (small_heap_start (sh_global h) \<le> a \<and> a < small_heap_stop (sh_global h)) \<longrightarrow> m1 a = heap g a)"
proof -
  note w = shape_wfD [OF wf]
  have bs: "shape_blocks h = blocks_from (small_heap_start (sh_global h)) (sh_blocks h)" by (simp add: shape_blocks_def)
  have start: "is_block (small_heap_start (sh_global h)) \<or> shape_blocks h = []" "small_heap_stop (sh_global h) < 2 ^ 64"
    using w(1,2) by (auto simp: bs small_layout_def is_block_def blocks_from_def)
  show ?thesis
  proof (cases "shape_blocks h = []")
    case True
    then have "sh_blocks h = 0" by (simp add: bs blocks_from_def)
    with True w(2) gs show ?thesis
      by (intro exI [of _ "BlockList_clear (free_list (global g))"] exI [of _ "BlockList_clear (recyclable_list (global g))"]
          exI [of _ "heap g"])
        (auto simp: same_space_def GlobalAllocator_recycleBlocks_def recycle_from.simps upd_global_def with_lists_def
          free_part_def recyclable_part_def BlockList_clear_queue)
  next
    case False
    then show ?thesis
      using recycle_blocks_spec [of g "sh_blocks h"] start w(2) gs bs by (auto simp: same_space_def)
  qed
qed

lemma mark_cells_last: "cs \<noteq> [] \<Longrightarrow> cell_size (last (mark_cells M s cs)) = cell_size (last cs)"
proof (induction cs arbitrary: s)
  case (Cons c cs)
  have "mark_cells M t cs = [] \<longleftrightarrow> cs = []" for t by (cases cs) auto
  with Cons show ?case by simp
qed simp

lemma mark_cells_size: "d \<in> set (mark_cells M s cs) \<Longrightarrow> \<exists>e \<in> set cs. cell_size d = cell_size e"
  by (induction cs arbitrary: s) auto

lemma marked_kept_placed:
  "marked_kept m m' s cs \<Longrightarrow> (a, e) \<in> set (placed s cs) \<Longrightarrow> cell_marked e \<Longrightarrow> same_bytes m m' (a + 16) (a + cell_total e)"
  by (induction cs arbitrary: s) auto

text \<open>A memory that agrees with the recycled one on the small space still has its lists and blocks.\<close>

lemma recycled_lists_cong:
  assumes wf: "shape_wf h" and same: "\<And>a. small_heap_start (sh_global h) \<le> a \<Longrightarrow> a < small_heap_stop (sh_global h) \<Longrightarrow> m2 a = m1 a"
    and q: "block_queue m1 q bs" and bs: "set bs \<subseteq> set (shape_blocks h)"
  shows "block_queue m2 q bs"
proof (rule block_queue_cong [OF q])
  fix b assume "b \<in> set bs"
  then have "b \<in> set (shape_blocks h)" using bs by blast
  from block_facts(4,5) [OF wf this] show "Block_next m2 b = Block_next m1 b" by (intro Block_next_cong same) auto
qed

lemma recycled_block_cong:
  assumes wf: "shape_wf h" and same: "\<And>a. small_heap_start (sh_global h) \<le> a \<Longrightarrow> a < small_heap_stop (sh_global h) \<Longrightarrow> m2 a = m1 a"
    and b: "b \<in> set (shape_blocks h)" and r: "recycled m m1 b"
  shows "recycled m m2 b"
  by (rule recycled_cong [OF r]) (use block_facts(4,5) [OF wf b] same block_holes_bound [of _ m b] in fastforce)+

lemma swept_small_layout:
  assumes wf: "shape_wf h" and m: "marked_as h m M" and rec: "\<And>b. b \<in> set (shape_blocks h) \<Longrightarrow> recycled m m' b"
  shows "small_layout m' (small_heap_start (sh_global h)) (sh_blocks h) (swept_objects h m)"
proof -
  have "layout m' b (block_objects (swept_objects h m) b)" if b: "b \<in> set (shape_blocks h)" for b
    unfolding swept_in_block [OF wf b]
    by (rule recycled_layout [OF layout_during [OF wf m b] block_facts(2) [OF wf b] rec [OF b]])
  moreover have "small_heap_start (sh_global h) \<le> x \<and> x < small_heap_stop (sh_global h)" if "x \<in> swept_objects h m" for x
    using that small_region [OF wf, of x] extent_dvd_nodes [OF wf, of x] nodes_eq [OF wf]
    by (fastforce simp: swept_objects_def kept_objects_def block_objects_def split: if_splits)
  ultimately show ?thesis
    using shape_wfD(1,2) [OF wf] by (simp add: small_layout_def shape_blocks_def)
qed

text \<open>Marked objects of either kind keep their bytes.\<close>

lemma swept_small_bytes:
  assumes wf: "shape_wf h" and m: "marked_as h m M" and rec: "\<And>b. b \<in> set (shape_blocks h) \<Longrightarrow> recycled m m' b"
    and x: "x \<in> M" "x \<in> sh_objects h"
  shows "same_bytes m m' x (x + Object_size (sh_heap h) x)"
proof -
  obtain b where b: "b \<in> set (shape_blocks h)" "x \<in> block_objects (sh_objects h) b" using small_node [OF wf x(2)] by metis
  then have xb: "x \<in> block_objects M b" using x by (simp add: block_objects_def)
  note d = marked_small_block [OF wf marked_asD(1) [OF m] b(1) xb]
  have "0 < Object_size (sh_heap h) x" using d(4) by simp
  from recycled_keeps_object [OF rec [OF b(1)] conjunct1 [OF marked_asD(5) [OF m b(1) xb]]
      conjunct2 [OF marked_asD(5) [OF m b(1) xb]] d(2,3) this]
  show ?thesis by simp
qed

lemma swept_large_bytes:
  assumes wf: "shape_wf h" and x: "x \<in> M" "x \<in> large_nodes h"
    and kept: "marked_kept m1 m2 (large_heap_start (sh_global h)) (mark_cells M (large_heap_start (sh_global h)) (sh_cells h))"
    and same: "\<And>a. \<not> (small_heap_start (sh_global h) \<le> a \<and> a < small_heap_stop (sh_global h)) \<Longrightarrow> m1 a = m a"
  shows "same_bytes m m2 x (x + Object_size (sh_heap h) x)"
proof -
  let ?s = "large_heap_start (sh_global h)"
  obtain xs d ys where s: "sh_cells h = xs @ d # ys" "x = ?s + extent xs + 16" "Object_size (sh_heap h) x = cell_size d"
    using large_node [OF wf x(2)] by metis
  have "(?s + extent xs, d\<lparr>cell_marked := True\<rparr>) \<in> set (placed ?s (mark_cells M ?s (sh_cells h)))"
    using s x(1) by (simp add: mark_cells_append placed_append)
  from marked_kept_placed [OF kept this] have "same_bytes m1 m2 x (x + cell_size d)"
    using s(2) by (simp add: cell_total_def add.assoc)
  moreover have "same_bytes m m1 x (x + cell_size d)"
    using same large_region [OF wf x(2)] shape_wfD(5) [OF wf] s(3) by (auto simp: same_bytes_def)
  ultimately show ?thesis using s(3) same_bytes_trans by metis
qed

lemma sweep_phase:
  assumes wf: "shape_wf h" and m: "marked_as h (heap g) M" and gs: "same_space (sh_global h) (global g)"
    and small: "cell_total (last (sh_cells h)) < 2 ^ 31"
  shows "\<exists>fl rl cl m'. Collector_sweep g = ret (after_sweep g fl rl cl m') \<and>
    shape_wf (shape_of (after_sweep g fl rl cl m') (sh_blocks h) (swept_objects h (heap g))
      (sweep_cells (mark_cells M (large_heap_start (sh_global h)) (sh_cells h)))) \<and>
    block_queue m' fl (free_part (heap g) (shape_blocks h)) \<and>
    block_queue m' rl (recyclable_part (heap g) (shape_blocks h)) \<and>
    (\<forall>b \<in> set (shape_blocks h). recycled (heap g) m' b) \<and>
    (\<forall>x \<in> M. same_bytes (heap g) m' x (x + Object_size (sh_heap h) x))"
proof -
  let ?G = "sh_global h" and ?m = "heap g" and ?bs = "shape_blocks h"
  let ?cs = "mark_cells M (large_heap_start ?G) (sh_cells h)"
  note w = shape_wfD [OF wf]
  have sp: "small_heap_start (global g) = small_heap_start ?G" "small_heap_stop (global g) = small_heap_stop ?G"
    "large_heap_start (global g) = large_heap_start ?G" "large_heap_stop (global g) = large_heap_stop ?G"
    "large_chunk_list (global g) = large_chunk_list ?G" using gs by (simp_all add: same_space_def)
  obtain fl rl m1 where r: "GlobalAllocator_recycleBlocks g = ret (with_lists g fl rl m1)"
    "block_queue m1 fl (free_part ?m ?bs)" "block_queue m1 rl (recyclable_part ?m ?bs)" "\<forall>b \<in> set ?bs. recycled ?m m1 b"
    "\<forall>a. \<not> (small_heap_start ?G \<le> a \<and> a < small_heap_stop ?G) \<longrightarrow> m1 a = ?m a"
    using recycle_shape [OF wf gs] by blast
  have l1: "chunk_list m1 (large_chunk_list ?G) (large_heap_start ?G) ?cs"
    by (rule chunk_list_cong [OF marked_asD(7) [OF m]]) (use r(5) w(4,5) in \<open>auto simp: same_bytes_def\<close>)
  have "cell_total (last ?cs) < 2 ^ 31"
    using mark_cells_last [of "sh_cells h" M] small w(3) by (simp add: cell_total_def chunk_list_def)
  from ChunkList_sweep_cells [OF l1 this] obtain cl m2 where c: "ChunkList_sweep (large_chunk_list ?G) m1 = ret (cl, m2)"
    "chunk_list m2 cl (large_heap_start ?G) (sweep_cells ?cs)" "same_bytes m1 m2 0 (large_heap_start ?G)"
    "same_bytes m1 m2 (large_heap_start ?G + extent ?cs) (2 ^ 64)" "marked_kept m1 m2 (large_heap_start ?G) ?cs" by blast
  have "small_heap_stop ?G < 2 ^ 64" using w(1,2) by (auto simp: small_layout_def is_block_def)
  then have in_small: "m2 a = m1 a" if "small_heap_start ?G \<le> a" "a < small_heap_stop ?G" for a
    using c(3,4) that w(4,5) by (auto simp: same_bytes_def)
  have rec: "recycled ?m m2 b" if "b \<in> set ?bs" for b
    by (rule recycled_block_cong [OF wf in_small that r(4) [rule_format, OF that]])
  have q: "block_queue m2 fl (free_part ?m ?bs)" "block_queue m2 rl (recyclable_part ?m ?bs)"
    by (rule recycled_lists_cong [OF wf in_small r(2)], assumption, assumption, simp add: free_part_def)
       (rule recycled_lists_cong [OF wf in_small r(3)], assumption, assumption, simp add: recyclable_part_def)
  have "8 dvd cell_size c" if "c \<in> set (sweep_cells ?cs)" for c
    by (rule sweep_sizes_dvd [OF _ that]) (use wf mark_cells_size in \<open>fastforce simp: shape_wf_def\<close>)
  with swept_small_layout [OF wf m rec]
  have "shape_wf (shape_of (after_sweep g fl rl cl m2) (sh_blocks h) (swept_objects h ?m) (sweep_cells ?cs))"
    using wf w(5) c(2) sp by (simp add: shape_wf_def after_sweep_def extent_sweep)
  moreover have "same_bytes ?m m2 x (x + Object_size (sh_heap h) x)" if x: "x \<in> M" for x
  proof (cases "x \<in> sh_objects h")
    case True
    show ?thesis by (rule swept_small_bytes [OF wf m rec x True])
  next
    case False
    then have "x \<in> large_nodes h" using x marked_asD(1) [OF m] nodes_eq [OF wf] by blast
    then show ?thesis by (rule swept_large_bytes [OF wf x _ c(5)]) (use r(5) in blast)
  qed
  moreover have "Collector_sweep g = ret (after_sweep g fl rl cl m2)"
    using r(1) c(1) sp by (simp add: Collector_sweep_def with_lists_def upd_global_def after_sweep_def)
  ultimately show ?thesis using q rec by blast
qed

lemma placed_mark_cells:
  "(a, c) \<in> set (placed s (mark_cells M s cs)) \<longleftrightarrow>
   (\<exists>d. (a, d) \<in> set (placed s cs) \<and> c = d\<lparr>cell_marked := (a + 16 \<in> M)\<rparr>)"
  by (induction cs arbitrary: s) (auto simp: cell_total_def)

text \<open>After the sweep the allocated chunks are exactly the marked ones.\<close>

lemma swept_large_nodes:
  assumes "M \<subseteq> nodes h" and "shape_wf h" and sp: "large_heap_start (sh_global h') = large_heap_start (sh_global h)"
    and cs: "sh_cells h' = sweep_cells (mark_cells M (large_heap_start (sh_global h)) (sh_cells h))"
  shows "large_nodes h' = M \<inter> large_nodes h"
proof -
  let ?s = "large_heap_start (sh_global h)"
  let ?cs = "mark_cells M ?s (sh_cells h)"
  have filt: "(a, c) \<in> set (placed ?s (sweep_cells ?cs)) \<and> cell_marked c \<longleftrightarrow> (a, c) \<in> set (placed ?s ?cs) \<and> cell_marked c" for a c
  proof -
    have "(a, c) \<in> set (filter (\<lambda>(b, c). cell_marked c) (placed ?s (sweep_cells ?cs))) \<longleftrightarrow>
        (a, c) \<in> set (filter (\<lambda>(b, c). cell_marked c) (placed ?s ?cs))" by (simp only: sweep_marked)
    then show ?thesis by auto
  qed
  have alloc: "cell_marked c" if "(a, c) \<in> set (placed ?s (sweep_cells ?cs))" "cell_allocated c" for a c
  proof -
    have "c \<in> set (sweep_cells ?cs)" using that(1) by (auto simp: placed_in_split)
    with that(2) sweep_unmarked_free show ?thesis by blast
  qed
  have "(\<exists>c. (a, c) \<in> set (placed ?s (sweep_cells ?cs)) \<and> cell_allocated c) \<longleftrightarrow>
      a + 16 \<in> M \<and> (\<exists>c. (a, c) \<in> set (placed ?s (sh_cells h)) \<and> cell_allocated c)" for a
    using filt alloc unfolding placed_mark_cells by (metis (no_types, lifting) cell.select_convs(1) cell.select_convs(3) cell.surjective cell.update_convs(3))
  then show ?thesis unfolding large_nodes_def cs sp allocated_image by auto
qed

lemma swept_small_nodes:
  assumes wf: "shape_wf h" and m: "marked_as h m M"
  shows "M \<inter> sh_objects h \<subseteq> swept_objects h m"
proof
  fix x assume x: "x \<in> M \<inter> sh_objects h"
  then obtain b where b: "b \<in> set (shape_blocks h)" "x \<in> block_objects (sh_objects h) b" using small_node [OF wf] by blast
  then have xb: "x \<in> block_objects M b" using x by (simp add: block_objects_def)
  have "0 < Object_size (sh_heap h) x" using marked_small_block(4) [OF wf marked_asD(1) [OF m] b(1) xb] by simp
  with marked_asD(5) [OF m b(1) xb] same_line_marks have "line_marked m b (line_of b x)" "Block_isMarked m b" by blast+
  with b show "x \<in> swept_objects h m" by (auto simp: swept_objects_def kept_objects_def)
qed

section \<open>Finalizers and the callback\<close>

lemma run_callbacks_invariant:
  assumes "\<And>k v s. P s \<Longrightarrow> P (snd (cb k v s))" and "P s"
  shows "P (snd (run_callbacks cb kvs s))"
  using assms(2)
proof (induction kvs arbitrary: s)
  case (Cons kv kvs)
  obtain k v where kv: "kv = (k, v)" by (cases kv)
  have "P (snd (run_callbacks cb kvs (snd (cb k v s))))" by (intro Cons.IH assms(1) Cons.prems)
  then show ?case by (simp add: kv case_prod_beta Let_def)
qed simp

text \<open>What the code relies on: a finalizer leaves the collector's memory and its state alone.\<close>

definition harmless :: "(addr \<Rightarrow> addr \<Rightarrow> 'a gheap_scheme \<Rightarrow> 'a gheap_scheme) \<Rightarrow> bool" where
  "harmless call \<longleftrightarrow> (\<forall>f p g. heap (call f p g) = heap g \<and> global (call f p g) = global g)"

lemma finalize_phase:
  assumes "harmless call" and "hash_wf (finalizers (global g))"
  shows "\<exists>g' table. GlobalAllocator_finalizeObjects call g = ret g' \<and> heap g' = heap g \<and>
    global g' = (global g)\<lparr>finalizers := table\<rparr> \<and> hash_wf table"
proof -
  let ?cb = "GlobalAllocator_finalizeObjectCallback call"
  obtain table where t: "Hash_deleteIf ?cb (finalizers (global g)) g =
      ret (table, snd (run_callbacks ?cb (live_pairs (finalizers (global g))) g))" "hash_wf table"
    using hash_deleteIf_spec [OF assms(2), of ?cb g] by blast
  let ?g = "snd (run_callbacks ?cb (live_pairs (finalizers (global g))) g)"
  have "heap ?g = heap g \<and> global ?g = global g"
    by (rule run_callbacks_invariant [where P = "\<lambda>s. heap s = heap g \<and> global s = global g"])
      (use assms(1) in \<open>auto simp: GlobalAllocator_finalizeObjectCallback_def harmless_def\<close>)
  then show ?thesis
    using t by (intro exI [of _ "upd_global (\<lambda>self. self\<lparr>finalizers := table\<rparr>) ?g"] exI [of _ table])
      (simp add: GlobalAllocator_finalizeObjects_def upd_global_def)
qed

text \<open>
  What a collection and the functions it calls leave alone: a property that does not depend on the heap, the global
  allocator or the mark stack, and that no finalizer destroys.
\<close>

definition not_collected :: "'a cheap_scheme client \<Rightarrow> ('a cheap_scheme \<Rightarrow> bool) \<Rightarrow> bool" where
  "not_collected env P \<longleftrightarrow> (\<forall>s m. P (s\<lparr>heap := m\<rparr>) = P s) \<and> (\<forall>s G. P (s\<lparr>global := G\<rparr>) = P s) \<and>
     (\<forall>s r. P (s\<lparr>roots := r\<rparr>) = P s) \<and> (\<forall>f p s. P s \<longrightarrow> P (call_finalizer env f p s))"

lemma finalize_frame:
  assumes "not_collected env P" and "hash_wf (finalizers (global g))" and "P g"
    and r: "GlobalAllocator_finalizeObjects (call_finalizer env) g = ret g'"
  shows "P g'"
proof -
  let ?cb = "GlobalAllocator_finalizeObjectCallback (call_finalizer env)"
  obtain table where t: "Hash_deleteIf ?cb (finalizers (global g)) g =
      ret (table, snd (run_callbacks ?cb (live_pairs (finalizers (global g))) g))"
    using hash_deleteIf_spec [OF assms(2), of ?cb g] by blast
  have "P (snd (run_callbacks ?cb (live_pairs (finalizers (global g))) g))"
    by (rule run_callbacks_invariant) (use assms(1,3) in \<open>auto simp: GlobalAllocator_finalizeObjectCallback_def not_collected_def\<close>)
  then show ?thesis
    using r t assms(1) by (auto simp: GlobalAllocator_finalizeObjects_def upd_global_def not_collected_def)
qed

definition push_ranges :: "range list \<Rightarrow> Stack \<Rightarrow> Stack" where
  "push_ranges rs s = fold (\<lambda>(a, b) s. Stack_push s a b) rs s"

text \<open>The callback registers the ranges \<open>rs\<close> with \<open>GC_add_roots\<close>, and does nothing else.\<close>

definition callback_adds :: "'a cheap_scheme client \<Rightarrow> addr \<Rightarrow> range list \<Rightarrow> bool" where
  "callback_adds env callback rs \<longleftrightarrow>
     (if callback = 0 then rs = []
      else \<forall>g. call_callback env callback g = ret (g\<lparr>roots := push_ranges rs (roots g)\<rparr>))"

lemma push_ranges_pairs: "stack_wf s \<Longrightarrow> stack_wf (push_ranges rs s) \<and> stack_pairs (push_ranges rs s) = rev rs @ stack_pairs s"
proof (induction rs arbitrary: s)
  case (Cons r rs)
  then show ?case
    using mark_stack.push_invar [of s "fst r" "snd r"] mark_stack.push_pending [of s "fst r" "snd r"] Cons.IH [of "Stack_push s (fst r) (snd r)"]
    by (simp add: push_ranges_def case_prod_beta)
qed (simp add: push_ranges_def)

lemma callback_phase:
  "callback_adds env (collect_callback g) rs \<Longrightarrow> Collector_callCollectCallback env g = ret (g\<lparr>roots := push_ranges rs (roots g)\<rparr>)"
  by (auto simp: callback_adds_def Collector_callCollectCallback_def push_ranges_def Let_def)

section \<open>The collection\<close>

text \<open>The ranges scanned: the data sections, those of the callback, and what was on the stack before.\<close>

definition root_ranges :: "'a cheap_scheme client \<Rightarrow> range list \<Rightarrow> 'a cheap_scheme \<Rightarrow> range set" where
  "root_ranges env rs g =
     set rs \<union> {(BSS_START env, BSS_END env), (DATA_START env, DATA_END env)} \<union> set (stack_pairs (roots g))"

text \<open>The state in which the finalizers start: the mark stack is empty, and nothing else but the heap has changed.\<close>

definition before_finalizers :: "'a cheap_scheme \<Rightarrow> 'a cheap_scheme \<Rightarrow> bool" where
  "before_finalizers g g5 \<longleftrightarrow>
     (\<exists>m r. g5 = g\<lparr>heap := m, global := GlobalAllocator_resetCounters (global g), roots := r\<rparr>) \<and>
     stack_wf (roots g5) \<and> stack_pairs (roots g5) = []"

lemma before_finalizers_global: "before_finalizers g g5 \<Longrightarrow> global g5 = GlobalAllocator_resetCounters (global g)"
  by (auto simp: before_finalizers_def)

lemma before_finalizers_keeps:
  assumes "before_finalizers g g5" and "not_collected env P" and "P g"
  shows "P g5"
proof -
  obtain m r where "g5 = g\<lparr>heap := m, global := GlobalAllocator_resetCounters (global g), roots := r\<rparr>"
    using assms(1) by (auto simp: before_finalizers_def)
  then show ?thesis using assms(2,3) by (simp add: not_collected_def)
qed

lemma mark_run:
  assumes wf: "shape_wf (shape_of g n S cs)" and st: "stack_wf (roots g)"
    and data: "DATA_START env \<le> DATA_END env" "BSS_START env \<le> BSS_END env"
    and cb: "callback_adds env (collect_callback g) rs"
  defines "h \<equiv> shape_of g n S cs"
  shows "\<exists>g5 M m. Collector_collect env g = pbind (GlobalAllocator_finalizeObjects (call_finalizer env) g5) Collector_sweep \<and>
    shape_wf (shape_of (g\<lparr>heap := m\<rparr>) n S (clear_cells cs)) \<and> same_shape h (shape_of (g\<lparr>heap := m\<rparr>) n S (clear_cells cs)) \<and>
    marked_as (shape_of (g\<lparr>heap := m\<rparr>) n S (clear_cells cs)) (heap g5) M \<and>
    reachable h (root_ranges env rs g) \<subseteq> M \<and> M \<subseteq> possibly_reachable h (root_ranges env rs g) \<and> before_finalizers g g5"
proof -
  obtain m1 m2 where u: "Collector_unmarkSmallObjects g = ret (g\<lparr>heap := m1\<rparr>)"
    "Collector_unmarkLargeObjects (g\<lparr>heap := m1\<rparr>) = ret (g\<lparr>heap := m2\<rparr>)"
    "shape_wf (shape_of (g\<lparr>heap := m2\<rparr>) n S (clear_cells cs))"
    "same_shape h (shape_of (g\<lparr>heap := m2\<rparr>) n S (clear_cells cs))"
    "marked_as (shape_of (g\<lparr>heap := m2\<rparr>) n S (clear_cells cs)) m2 {}"
    using unmark_phase [OF wf] unfolding h_def by blast
  let ?g2 = "g\<lparr>heap := m2\<rparr>"
  let ?h = "shape_of ?g2 n S (clear_cells cs)"
  let ?s1 = "Stack_push (roots g) (DATA_START env) (DATA_END env)"
  let ?s2 = "Stack_push ?s1 (BSS_START env) (BSS_END env)"
  let ?s3 = "push_ranges rs ?s2"
  let ?g3 = "?g2\<lparr>roots := ?s3\<rparr>"
  have s: "stack_wf ?s3" "set (stack_pairs ?s3) = root_ranges env rs g"
    using st push_ranges_pairs [of ?s2 rs] mark_stack.push_invar mark_stack.push_pending
    by (auto simp: root_ranges_def)
  have pre: "Collector_collect env g = pbind (Collector_mark ?g3) (\<lambda>g.
      pbind (GlobalAllocator_finalizeObjects (call_finalizer env) (upd_global GlobalAllocator_resetCounters g)) Collector_sweep)"
    using u(1,2) data callback_phase [of env "?g2\<lparr>roots := ?s2\<rparr>" rs] cb
    by (simp add: Collector_collect_def Collector_addRoots_def Let_def)
  have "mark_state ?h ?g2 ?g3 {} (stack_pairs ?s3)"
    using u(3,5) s(1) by (simp add: mark_state_def same_rest_simps)
  from mark_phase [OF this] obtain g4 M where mk: "Collector_mark ?g3 = ret g4" "mark_state ?h ?g2 g4 M []"
    "reachable ?h (root_ranges env rs g) \<subseteq> M" "M \<subseteq> possibly_reachable ?h (root_ranges env rs g)" unfolding s(2) by blast
  note same = same_shape_reachable [OF wf [folded h_def] u(4)]
  have m4: "marked_as ?h (heap g4) M" "stack_wf (roots g4)" "stack_pairs (roots g4) = []"
    using mk(2) by (simp_all add: mark_state_def)
  obtain m r where "g4 = ?g2\<lparr>heap := m, roots := r\<rparr>" using mk(2) by (auto simp: mark_state_def same_rest_def)
  then have "upd_global GlobalAllocator_resetCounters g4 =
      g\<lparr>heap := m, global := GlobalAllocator_resetCounters (global g), roots := r\<rparr>"
    by (cases g) (simp add: upd_global_def)
  moreover have "roots (upd_global GlobalAllocator_resetCounters g4) = roots g4" by (simp add: upd_global_def)
  ultimately have "before_finalizers g (upd_global GlobalAllocator_resetCounters g4)"
    using m4(2,3) unfolding before_finalizers_def by auto
  moreover have "marked_as ?h (heap (upd_global GlobalAllocator_resetCounters g4)) M" using m4(1) by (simp add: upd_global_def)
  ultimately show ?thesis using pre mk(1,3,4) u(3,4) same
    by (intro exI [of _ "upd_global GlobalAllocator_resetCounters g4"] exI [of _ M] exI [of _ m2]) simp
qed

text \<open>Everything up to the sweep, which starts in \<open>g6\<close> with exactly the objects \<open>M\<close> marked.\<close>

lemma collect_run:
  assumes wf: "shape_wf (shape_of g n S cs)" and st: "stack_wf (roots g)"
    and data: "DATA_START env \<le> DATA_END env" "BSS_START env \<le> BSS_END env"
    and cb: "callback_adds env (collect_callback g) rs" and fin: "harmless (call_finalizer env)"
    and hash: "hash_wf (finalizers (global g))"
  defines "h \<equiv> shape_of g n S cs"
  shows "\<exists>g5 g6 M m. Collector_collect env g = Collector_sweep g6 \<and>
    shape_wf (shape_of (g\<lparr>heap := m\<rparr>) n S (clear_cells cs)) \<and> same_shape h (shape_of (g\<lparr>heap := m\<rparr>) n S (clear_cells cs)) \<and>
    marked_as (shape_of (g\<lparr>heap := m\<rparr>) n S (clear_cells cs)) (heap g6) M \<and>
    reachable h (root_ranges env rs g) \<subseteq> M \<and> M \<subseteq> possibly_reachable h (root_ranges env rs g) \<and>
    (\<exists>table. hash_wf table \<and> global g6 = (global g)\<lparr>allocated_bytes_since_collect := 0, finalizers := table\<rparr>) \<and>
    before_finalizers g g5 \<and> heap g5 = heap g6 \<and> GlobalAllocator_finalizeObjects (call_finalizer env) g5 = ret g6"
proof -
  from mark_run [OF assms(1-5), folded h_def] obtain g5 M m where
    r: "Collector_collect env g = pbind (GlobalAllocator_finalizeObjects (call_finalizer env) g5) Collector_sweep"
    "shape_wf (shape_of (g\<lparr>heap := m\<rparr>) n S (clear_cells cs))" "same_shape h (shape_of (g\<lparr>heap := m\<rparr>) n S (clear_cells cs))"
    "marked_as (shape_of (g\<lparr>heap := m\<rparr>) n S (clear_cells cs)) (heap g5) M"
    "reachable h (root_ranges env rs g) \<subseteq> M" "M \<subseteq> possibly_reachable h (root_ranges env rs g)" "before_finalizers g g5"
    by (elim exE conjE) (rule that, assumption+)
  note gl = before_finalizers_global [OF r(7)]
  have "hash_wf (finalizers (global g5))" using hash gl by (simp add: GlobalAllocator_resetCounters_def)
  from finalize_phase [OF fin this] obtain g6 table where f: "GlobalAllocator_finalizeObjects (call_finalizer env) g5 = ret g6"
    "heap g6 = heap g5" "global g6 = (global g5)\<lparr>finalizers := table\<rparr>" "hash_wf table"
    by (elim exE conjE) (rule that, assumption+)
  have "global g6 = (global g)\<lparr>allocated_bytes_since_collect := 0, finalizers := table\<rparr>"
    using f(3) gl by (simp add: GlobalAllocator_resetCounters_def)
  then show ?thesis
    using r f(1,2,4) by (intro exI [of _ g5] exI [of _ g6] exI [of _ M] exI [of _ m]) auto
qed

lemma last_clear_cells: "cs \<noteq> [] \<Longrightarrow> cell_total (last (clear_cells cs)) = cell_total (last cs)"
  by (simp add: clear_cells_def last_map cell_total_def)

text \<open>The sweep, when the mark phase has marked \<open>M\<close>.\<close>

lemma swept_spec:
  assumes wf: "shape_wf (shape_of g n S cs)" and h2: "shape_wf (shape_of (g\<lparr>heap := m2\<rparr>) n S (clear_cells cs))"
    and ss: "same_shape (shape_of g n S cs) (shape_of (g\<lparr>heap := m2\<rparr>) n S (clear_cells cs))"
    and m6: "marked_as (shape_of (g\<lparr>heap := m2\<rparr>) n S (clear_cells cs)) (heap g6) M"
    and gl: "global g6 = (global g)\<lparr>allocated_bytes_since_collect := 0, finalizers := table\<rparr>"
    and small: "cell_total (last cs) < 2 ^ 31"
  defines "h \<equiv> shape_of g n S cs"
  defines "S' \<equiv> swept_objects (shape_of (g\<lparr>heap := m2\<rparr>) n S (clear_cells cs)) (heap g6)"
  shows "\<exists>fl rl cl m' cs'. Collector_sweep g6 = ret (after_sweep g6 fl rl cl m') \<and>
    shape_wf (shape_of (after_sweep g6 fl rl cl m') n S' cs') \<and> M \<inter> S \<subseteq> S' \<and> S' \<subseteq> S \<and>
    large_nodes (shape_of (after_sweep g6 fl rl cl m') n S' cs') = M \<inter> large_nodes h \<and>
    (\<forall>x \<in> M. \<forall>a. x \<le> a \<longrightarrow> a < x + Object_size (heap g) x \<longrightarrow> \<not> mark_byte h a \<longrightarrow> m' a = heap g a) \<and>
    block_queue m' fl (filter (\<lambda>b. block_objects M b = {}) (shape_blocks h))"
proof -
  let ?h = "shape_of (g\<lparr>heap := m2\<rparr>) n S (clear_cells cs)"
  have sp: "same_space (sh_global ?h) (global g6)" using gl by (simp add: same_space_def)
  let ?cs = "sweep_cells (mark_cells M (large_heap_start (global g)) cs)"
  have "cs \<noteq> []" using shape_wfD(3) [OF wf] by (simp add: chunk_list_def)
  then have last: "cell_total (last (sh_cells ?h)) < 2 ^ 31" using small last_clear_cells by simp
  from sweep_phase [OF h2 m6 sp last] obtain fl rl cl m' where
    w: "Collector_sweep g6 = ret (after_sweep g6 fl rl cl m')"
    "shape_wf (shape_of (after_sweep g6 fl rl cl m') n (swept_objects ?h (heap g6)) ?cs)"
    "block_queue m' fl (free_part (heap g6) (shape_blocks ?h))"
    "\<forall>x \<in> M. same_bytes (heap g6) m' x (x + Object_size m2 x)"
    by (auto simp: mark_cells_clear)
  let ?g = "after_sweep g6 fl rl cl m'" and ?S = "swept_objects ?h (heap g6)"
  note n = same_shape_nodes [OF ss, folded h_def]
  have wfh: "shape_wf h" using wf by (simp add: h_def)
  have bytes: "m2 a = heap g a" if "\<not> mark_byte h a" for a
    using ss that by (simp add: same_shape_def h_def)
  have size: "Object_size m2 x = Object_size (heap g) x" if "x \<in> nodes h" for x
    unfolding Object_size_def
  proof (rule load_cong, rule bytes, rule notI)
    fix a assume a: "x \<le> a" "a < x + 8" "mark_byte h a"
    with node_header [OF wfh that a(1) _ a(3)] show False by simp
  qed
  have M: "M \<subseteq> nodes h" using marked_asD(1) [OF m6] n(1) by simp
  have "M \<inter> S \<subseteq> ?S" using swept_small_nodes [OF h2 m6] by simp
  moreover have "?S \<subseteq> S" by (auto simp: swept_objects_def kept_objects_def block_objects_def split: if_splits)
  moreover have "large_nodes (shape_of ?g n ?S ?cs) = M \<inter> large_nodes h"
    using swept_large_nodes [OF marked_asD(1) [OF m6] h2, of "shape_of ?g n ?S ?cs"] sp n(2)
    by (simp add: after_sweep_def same_space_def mark_cells_clear)
  moreover have "heap ?g a = heap g a" if "x \<in> M" "x \<le> a" "a < x + Object_size (heap g) x" "\<not> mark_byte h a" for x a
  proof -
    have "m' a = heap g6 a" using w(4) that(1-3) size M by (auto simp: same_bytes_def)
    also have "\<dots> = m2 a" using marked_asD(2) [OF m6, of a] that(4) n(4) by simp
    finally show ?thesis using bytes [OF that(4)] by (simp add: after_sweep_def)
  qed
  moreover have "free_part (heap g6) (shape_blocks ?h) = filter (\<lambda>b. block_objects M b = {}) (shape_blocks h)"
    unfolding free_part_def n(3)
    by (rule filter_cong [OF refl]) (use marked_asD(5,6) [OF m6] n(3) in auto)
  ultimately show ?thesis
    using w(1-3) unfolding S'_def
    by (intro exI [of _ fl] exI [of _ rl] exI [of _ cl] exI [of _ m'] exI [of _ ?cs]) (simp add: after_sweep_def)
qed

lemma collect_spec:
  assumes wf: "shape_wf (shape_of g n S cs)" and st: "stack_wf (roots g)"
    and data: "DATA_START env \<le> DATA_END env" "BSS_START env \<le> BSS_END env"
    and cb: "callback_adds env (collect_callback g) rs" and fin: "harmless (call_finalizer env)"
    and hash: "hash_wf (finalizers (global g))" and small: "cell_total (last cs) < 2 ^ 31"
  defines "h \<equiv> shape_of g n S cs"
  shows "\<exists>g' M S' cs'. Collector_collect env g = ret g' \<and> shape_wf (shape_of g' n S' cs') \<and>
    reachable h (root_ranges env rs g) \<subseteq> M \<and> M \<subseteq> possibly_reachable h (root_ranges env rs g) \<and>
    M \<inter> S \<subseteq> S' \<and> S' \<subseteq> S \<and> large_nodes (shape_of g' n S' cs') = M \<inter> large_nodes h \<and>
    (\<forall>x \<in> M. \<forall>a. x \<le> a \<longrightarrow> a < x + Object_size (heap g) x \<longrightarrow> \<not> mark_byte h a \<longrightarrow> heap g' a = heap g a) \<and>
    block_queue (heap g') (free_list (global g')) (filter (\<lambda>b. block_objects M b = {}) (shape_blocks h)) \<and>
    allocated_bytes_since_collect (global g') = 0 \<and> hash_wf (finalizers (global g'))"
proof -
  from collect_run [OF assms(1-7), folded h_def] obtain g5 g6 M m2 table where r: "Collector_collect env g = Collector_sweep g6"
    "shape_wf (shape_of (g\<lparr>heap := m2\<rparr>) n S (clear_cells cs))" "same_shape h (shape_of (g\<lparr>heap := m2\<rparr>) n S (clear_cells cs))"
    "marked_as (shape_of (g\<lparr>heap := m2\<rparr>) n S (clear_cells cs)) (heap g6) M"
    "reachable h (root_ranges env rs g) \<subseteq> M" "M \<subseteq> possibly_reachable h (root_ranges env rs g)" "hash_wf table"
    and gl: "global g6 = (global g)\<lparr>allocated_bytes_since_collect := 0, finalizers := table\<rparr>"
    by (elim exE conjE) (rule that, assumption+)
  let ?S = "swept_objects (shape_of (g\<lparr>heap := m2\<rparr>) n S (clear_cells cs)) (heap g6)"
  from swept_spec [OF wf r(2) r(3) [unfolded h_def] r(4) gl small, folded h_def] obtain fl rl cl m' cs' where
    w: "Collector_sweep g6 = ret (after_sweep g6 fl rl cl m')" "shape_wf (shape_of (after_sweep g6 fl rl cl m') n ?S cs')"
    "M \<inter> S \<subseteq> ?S" "?S \<subseteq> S" "large_nodes (shape_of (after_sweep g6 fl rl cl m') n ?S cs') = M \<inter> large_nodes h"
    "\<forall>x \<in> M. \<forall>a. x \<le> a \<longrightarrow> a < x + Object_size (heap g) x \<longrightarrow> \<not> mark_byte h a \<longrightarrow> m' a = heap g a"
    "block_queue m' fl (filter (\<lambda>b. block_objects M b = {}) (shape_blocks h))"
    by (elim exE conjE) (rule that, assumption+)
  then show ?thesis
    using r gl by (intro exI [of _ "after_sweep g6 fl rl cl m'"] exI [of _ M] exI [of _ ?S] exI [of _ cs'])
      (simp add: after_sweep_def)
qed

lemma reached_nodes:
  "x \<in> possibly_reachable h R \<Longrightarrow> x \<in> nodes h"
  unfolding possibly_reachable_def by (induction rule: reached.induct) (auto dest: target_node)

section \<open>Properties\<close>

text \<open>A client that registers no roots of its own; its data section is the range \<open>(a, b)\<close>.\<close>

definition sample_client :: "addr \<Rightarrow> addr \<Rightarrow> cheap client" where
  "sample_client a b =
     \<lparr>program_collect = ret, call_finalizer = (\<lambda>f p g. g), call_callback = (\<lambda>f g. ret g),
      DATA_START = a, DATA_END = b, BSS_START = b, BSS_END = b\<rparr>"

lemma sample_client_ok:
  assumes "a \<le> b"
  shows "DATA_START (sample_client a b) \<le> DATA_END (sample_client a b)" "BSS_START (sample_client a b) \<le> BSS_END (sample_client a b)"
    "callback_adds (sample_client a b) (collect_callback sample_start) []" "harmless (call_finalizer (sample_client a b))"
    "root_ranges (sample_client a b) [] sample_start = {(a, b), (b, b)}"
  using assms stack_init_ok [of 1024]
  by (auto simp: sample_client_def callback_adds_def harmless_def root_ranges_def sample_sel)

lemma sample_start_ok: "stack_wf (roots sample_start)" "hash_wf (finalizers (global sample_start))"
  "shape_of sample_start 1 {65792} [free_cell 1008] = sample_shape" "cell_total (last [free_cell 1008]) < 2 ^ 31"
  using stack_init_ok [of 1024] sample_table_wf
  by (simp_all add: sample_sel sample_shape_def free_cell_def cell_total_def)

text \<open>
  C2. A collection never loses what the program can reach. On a well-formed heap \<open>Collector_collect\<close> returns; afterwards
  the heap is well-formed again, every object that could be reached from the data sections, the ranges of the callback
  and those on the stack is still an object of it, and all its bytes but the collector's mark bytes are
  unchanged. (The callback only registers roots, the finalizers leave the heap alone, the last chunk is below 2 GB.)
\<close>

theorem collect_keeps_reachable:
  assumes "shape_wf (shape_of g n S cs)" and "stack_wf (roots g)" and "DATA_START env \<le> DATA_END env"
    and "BSS_START env \<le> BSS_END env" and "callback_adds env (collect_callback g) rs" and "harmless (call_finalizer env)"
    and "hash_wf (finalizers (global g))" and "cell_total (last cs) < 2 ^ 31"
  shows "\<exists>g' S' cs'. Collector_collect env g = ret g' \<and> shape_wf (shape_of g' n S' cs') \<and>
    (\<forall>x \<in> reachable (shape_of g n S cs) (root_ranges env rs g). x \<in> nodes (shape_of g' n S' cs') \<and>
       (\<forall>a. x \<le> a \<longrightarrow> a < x + Object_size (heap g) x \<longrightarrow> \<not> mark_byte (shape_of g n S cs) a \<longrightarrow> heap g' a = heap g a))"
proof -
  let ?h = "shape_of g n S cs"
  from collect_spec [OF assms] obtain g' M S' cs' where c: "Collector_collect env g = ret g'" "shape_wf (shape_of g' n S' cs')"
    "reachable ?h (root_ranges env rs g) \<subseteq> M" "M \<subseteq> possibly_reachable ?h (root_ranges env rs g)" "M \<inter> S \<subseteq> S'"
    "large_nodes (shape_of g' n S' cs') = M \<inter> large_nodes ?h"
    "\<forall>x \<in> M. \<forall>a. x \<le> a \<longrightarrow> a < x + Object_size (heap g) x \<longrightarrow> \<not> mark_byte ?h a \<longrightarrow> heap g' a = heap g a"
    by blast
  have "x \<in> nodes (shape_of g' n S' cs')" if "x \<in> M" for x
    using that reached_nodes [of x] c(4-6) nodes_eq [OF assms(1)] nodes_eq [OF c(2)] by fastforce
  with c show ?thesis by blast
qed

theorem collect_keeps_reachable_witness:
  "\<exists>g' S' cs'. Collector_collect (sample_client 4096 4104) sample_start = ret g' \<and>
     65792 \<in> nodes (shape_of g' 1 S' cs')"
  using collect_keeps_reachable [OF sample_wf [folded sample_start_ok(3)] sample_start_ok(1) sample_client_ok(1-4) sample_start_ok(2,4),
      of 4096 4104, unfolded sample_start_ok(3)] sample_reachable [of "{(4096, 4104), (4104, 4104)}"]
  by (auto simp: sample_client_ok(5))

text \<open>
  C6. A collection frees what cannot be reached, even when the words that marking itself may write are taken to hold
  anything: such a chunk is not allocated any more, a block with no such object is on the free list, and the counter
  that triggers the next collection is reset.
\<close>

theorem collect_frees_unreachable:
  assumes "shape_wf (shape_of g n S cs)" and "stack_wf (roots g)" and "DATA_START env \<le> DATA_END env"
    and "BSS_START env \<le> BSS_END env" and "callback_adds env (collect_callback g) rs" and "harmless (call_finalizer env)"
    and "hash_wf (finalizers (global g))" and "cell_total (last cs) < 2 ^ 31"
  shows "\<exists>g' S' cs' bs. Collector_collect env g = ret g' \<and> shape_wf (shape_of g' n S' cs') \<and>
    large_nodes (shape_of g' n S' cs') \<subseteq> possibly_reachable (shape_of g n S cs) (root_ranges env rs g) \<and>
    block_queue (heap g') (free_list (global g')) bs \<and>
    (\<forall>b \<in> set (shape_blocks (shape_of g n S cs)).
       block_objects (possibly_reachable (shape_of g n S cs) (root_ranges env rs g)) b = {} \<longrightarrow> b \<in> set bs) \<and>
    allocated_bytes_since_collect (global g') = 0"
proof -
  let ?h = "shape_of g n S cs"
  from collect_spec [OF assms] obtain g' M S' cs' where c: "Collector_collect env g = ret g'" "shape_wf (shape_of g' n S' cs')"
    "M \<subseteq> possibly_reachable ?h (root_ranges env rs g)" "large_nodes (shape_of g' n S' cs') = M \<inter> large_nodes ?h"
    "block_queue (heap g') (free_list (global g')) (filter (\<lambda>b. block_objects M b = {}) (shape_blocks ?h))"
    "allocated_bytes_since_collect (global g') = 0"
    by blast
  have "block_objects M b = {}" if "block_objects (possibly_reachable ?h (root_ranges env rs g)) b = {}" for b
    using that c(3) by (auto simp: block_objects_def)
  with c show ?thesis by (intro exI [of _ g'] exI [of _ S'] exI [of _ cs']) auto
qed

lemma no_roots: "possibly_reachable h {(b, b)} = {}"
proof -
  have "possible_words h (b, b) = {}" by (simp add: possible_words_def steady_words_def)
  then have "possibly_reachable h {(b, b)} \<subseteq> {}"
    unfolding possibly_reachable_def by (intro reached_closed) (auto simp: sources_def)
  then show ?thesis by simp
qed

theorem collect_frees_unreachable_witness:
  "\<exists>g' bs. Collector_collect (sample_client 4096 4096) sample_start = ret g' \<and>
     block_queue (heap g') (free_list (global g')) bs \<and> 65536 \<in> set bs"
  using collect_frees_unreachable [OF sample_wf [folded sample_start_ok(3)] sample_start_ok(1) sample_client_ok(1-4) sample_start_ok(2,4),
      of 4096 4096, unfolded sample_start_ok(3)] no_roots [of sample_shape 4096]
  by (auto simp: sample_client_ok(5) sample_blocks block_objects_def)

end
