(* ===== verification/Large_Space.thy ===== *)
theory Large_Space
  imports Global_Allocator Chunk_Sweep
begin

text \<open>
  The large object space as a whole: allocation takes the first free chunk that is large enough, growth appends one
  free chunk, and after a growth the allocation always succeeds. The abstract state is the list of cells of
  \<open>Chunk_Cells\<close>.
\<close>

section \<open>The invariant\<close>

definition large_wf :: "'a gheap_scheme \<Rightarrow> cell list \<Rightarrow> bool" where
  "large_wf g cs \<longleftrightarrow>
     chunk_list (heap g) (large_chunk_list (global g)) (large_heap_start (global g)) cs \<and>
     large_heap_size (global g) = extent cs \<and>
     large_heap_stop (global g) = large_heap_start (global g) + large_heap_size (global g) \<and>
     small_heap_size (global g) + large_heap_size (global g) < 2 ^ 63 \<and>
     memory_limit (global g) < 2 ^ 63 \<and> large_heap_start (global g) + memory_limit (global g) < 2 ^ 64"

section \<open>First fit\<close>

definition unfit :: "nat \<Rightarrow> cell \<Rightarrow> bool" where
  "unfit n c \<longleftrightarrow> cell_allocated c \<or> cell_size c < n"

definition take_cell :: "nat \<Rightarrow> nat \<Rightarrow> cell \<Rightarrow> cell list" where
  "take_cell n atomic c =
     (hd (split_cell c n))\<lparr>cell_allocated := True, cell_atomic := atomic\<rparr> # tl (split_cell c n)"

fun first_fit :: "nat \<Rightarrow> cell list \<Rightarrow> nat option" where
  "first_fit n [] = None"
| "first_fit n (c # cs) = (if unfit n c then map_option Suc (first_fit n cs) else Some 0)"

lemma first_fit_Some:
  "first_fit n cs = Some i \<Longrightarrow> i < length cs \<and> \<not> unfit n (cs ! i) \<and> (\<forall>j < i. unfit n (cs ! j))"
proof (induction cs arbitrary: i)
  case (Cons c cs)
  then show ?case by (cases i) (auto split: if_splits simp: less_Suc_eq_0_disj)
qed simp

lemma first_fit_None: "first_fit n cs = None \<longleftrightarrow> (\<forall>c \<in> set cs. unfit n c)"
  by (induction cs) auto

lemma first_fit_split: "first_fit n (xs @ c # ys) = Some (length xs) \<longleftrightarrow> (\<forall>d \<in> set xs. unfit n d) \<and> \<not> unfit n c"
  by (induction xs) auto

lemma extent_take_cell: "n \<le> cell_size c \<Longrightarrow> extent (take_cell n atomic c) = cell_total c"
  by (auto simp: take_cell_def split_cell_def cell_total_def free_cell_def)

text \<open>The state after a successful allocation.\<close>

definition with_large :: "'a gheap_scheme \<Rightarrow> ChunkList \<Rightarrow> nat \<Rightarrow> mem \<Rightarrow> 'a gheap_scheme" where
  "with_large g cl sz m =
     g\<lparr>global := GlobalAllocator_incrementCounters ((global g)\<lparr>large_chunk_list := cl\<rparr>) sz, heap := m\<rparr>"

lemma tryAllocateLarge_step:
  assumes "a \<noteq> 0" and "large_heap_start (global g) \<le> a" and "a < large_heap_stop (global g)"
  shows "tryAllocateLarge_from g n sz atomic a =
    (if \<not> Chunk_isAllocated (heap g) a \<and> n \<le> Chunk_osize (heap g) a
     then pbind (ChunkList_split (large_chunk_list (global g)) (heap g) a n) (\<lambda>(cl, m, _).
            ret (with_large g cl sz (Chunk_allocate m a atomic), a + 32))
     else tryAllocateLarge_from g n sz atomic (Chunk_next (heap g) a))"
  using assms by (simp add: tryAllocateLarge_from.simps [of g n sz atomic a] Chunk_mutatorAddress_def with_large_def Let_def)

text \<open>The loop of \<open>tryAllocateLarge\<close>, from the cells behind \<open>xs\<close> on.\<close>

lemma tryAllocateLarge_from_spec:
  assumes wf: "large_wf g (xs @ cs)" and n: "16 \<le> n" and at: "atomic < 256"
  defines "start \<equiv> large_heap_start (global g)"
  shows "case first_fit n cs of
      None \<Rightarrow> tryAllocateLarge_from g n sz atomic (if cs = [] then 0 else start + extent xs) = ret (g, 0)
    | Some i \<Rightarrow> \<exists>cl m. tryAllocateLarge_from g n sz atomic (if cs = [] then 0 else start + extent xs) =
        ret (with_large g cl sz m, start + extent (xs @ take i cs) + 32) \<and>
        chunk_list m cl start (xs @ take i cs @ take_cell n atomic (cs ! i) @ drop (Suc i) cs) \<and>
        same_bytes (heap g) m 0 (start + extent (xs @ take i cs)) \<and>
        same_bytes (heap g) m (start + extent (xs @ take (Suc i) cs)) (2 ^ 64)"
  using wf
proof (induction cs arbitrary: xs)
  case Nil
  then show ?case by (simp add: tryAllocateLarge_from.simps)
next
  case (Cons c cs)
  let ?a = "start + extent xs"
  have l: "chunk_list (heap g) (large_chunk_list (global g)) start (xs @ c # cs)"
    and stop: "large_heap_stop (global g) = start + extent (xs @ c # cs)"
    using Cons.prems by (auto simp: large_wf_def start_def)
  note L = chunk_list_split [OF l]
  have guards: "?a \<noteq> 0" "large_heap_start (global g) \<le> ?a" "?a < large_heap_stop (global g)"
    using L(2) stop by (auto simp: start_def cell_total_def)
  have test: "\<not> Chunk_isAllocated (heap g) ?a \<and> n \<le> Chunk_osize (heap g) ?a \<longleftrightarrow> \<not> unfit n c"
    using L(1) by (auto simp: cell_at_def unfit_def)
  show ?case
  proof (cases "unfit n c")
    case True
    have "tryAllocateLarge_from g n sz atomic ?a =
        tryAllocateLarge_from g n sz atomic (if cs = [] then 0 else start + extent (xs @ [c]))"
      unfolding tryAllocateLarge_step [OF guards] test using True L(5) by (simp add: add.assoc)
    moreover have IH: "large_wf g ((xs @ [c]) @ cs)" using Cons.prems by simp
    ultimately show ?thesis
      using Cons.IH [OF IH] True by (cases "first_fit n cs") simp_all
  next
    case False
    then have sz: "n \<le> cell_size c" by (simp add: unfit_def)
    obtain cl m1 r where s: "ChunkList_split (large_chunk_list (global g)) (heap g) ?a n = ret (cl, m1, r)"
      "chunk_list m1 cl start (xs @ split_cell c n @ cs)" "same_bytes (heap g) m1 0 ?a"
      "same_bytes (heap g) m1 (?a + cell_total c) (2 ^ 64)"
      using ChunkList_split_cells [OF l n sz] by blast
    let ?m = "Chunk_allocate m1 ?a atomic"
    have split: "split_cell c n = hd (split_cell c n) # tl (split_cell c n)" by (simp add: split_cell_def)
    have "chunk_list m1 cl start (xs @ hd (split_cell c n) # (tl (split_cell c n) @ cs))"
      using s(2) by (subst (asm) split) simp
    from Chunk_allocate_cells [OF this at]
    have c': "chunk_list ?m cl start (xs @ take_cell n atomic c @ cs)" by (simp add: take_cell_def)
    have fr: "same_bytes m1 ?m lo hi" if "hi \<le> ?a \<or> ?a + 32 \<le> lo" for lo hi
      using that by (auto simp: Chunk_allocate_def chunk_defs intro!: same_bytes_trans [OF same_bytes_store same_bytes_store])
    have "same_bytes (heap g) ?m 0 ?a" using s(3) fr [of ?a 0] by (auto intro: same_bytes_trans)
    moreover have "same_bytes (heap g) ?m (?a + cell_total c) (2 ^ 64)"
      using s(4) fr [of "2 ^ 64" "?a + cell_total c"] cell_at_size [OF L(1)] by (auto simp: cell_total_def intro: same_bytes_trans)
    moreover have "tryAllocateLarge_from g n sz atomic ?a =
        ret (with_large g cl sz ?m, ?a + 32)"
      unfolding tryAllocateLarge_step [OF guards] test using False s(1) by simp
    ultimately show ?thesis
      using c' False by (auto simp: add.assoc intro!: exI [of _ cl] exI [of _ ?m])
  qed
qed

lemma large_wf_lock [simp]: "large_wf (GC_lock g) cs = large_wf g cs" "large_wf (GC_unlock g) cs = large_wf g cs"
  by (simp_all add: large_wf_def GC_lock_def GC_unlock_def)

lemma with_large_simps [simp]:
  "heap (with_large g cl sz m) = m" "large_chunk_list (global (with_large g cl sz m)) = cl"
  "large_heap_start (global (with_large g cl sz m)) = large_heap_start (global g)"
  "large_heap_stop (global (with_large g cl sz m)) = large_heap_stop (global g)"
  "large_heap_size (global (with_large g cl sz m)) = large_heap_size (global g)"
  "small_heap_size (global (with_large g cl sz m)) = small_heap_size (global g)"
  "memory_limit (global (with_large g cl sz m)) = memory_limit (global g)"
  "lock_depth (with_large g cl sz m) = lock_depth g"
  by (simp_all add: with_large_def GlobalAllocator_incrementCounters_def)

text \<open>What an allocation makes of the cells: the first one that fits is taken, and split when enough is left.\<close>

definition fill :: "nat \<Rightarrow> nat \<Rightarrow> nat \<Rightarrow> cell list \<Rightarrow> cell list" where
  "fill n atomic i cs = take i cs @ take_cell n atomic (cs ! i) @ drop (Suc i) cs"

lemma extent_fill: "i < length cs \<Longrightarrow> n \<le> cell_size (cs ! i) \<Longrightarrow> extent (fill n atomic i cs) = extent cs"
  using id_take_nth_drop [of i cs] extent_take_cell [of n "cs ! i" atomic]
  by (metis extent_simps(2,3) fill_def)

lemma fill_nth:
  assumes "i < length cs" "n \<le> cell_size (cs ! i)"
  shows "i < length (fill n atomic i cs)" and "take i (fill n atomic i cs) = take i cs"
    and "cell_allocated (fill n atomic i cs ! i)" and "cell_atomic (fill n atomic i cs ! i) = atomic"
    and "n \<le> cell_size (fill n atomic i cs ! i)"
  using assms by (auto simp: fill_def take_cell_def split_cell_def nth_append min_def)

lemma first_fit_fill:
  "first_fit n cs = Some i \<Longrightarrow> i < length cs \<and> n \<le> cell_size (cs ! i) \<and> \<not> cell_allocated (cs ! i)"
  using first_fit_Some [of n cs i] by (auto simp: unfit_def)

lemma tryAllocateLarge_spec:
  assumes wf: "large_wf g cs" and n: "sz + 16 < 2 ^ 64" and at: "atomic < 256"
  defines "start \<equiv> large_heap_start (global g)"
  shows "first_fit (sz + 16) cs = None \<Longrightarrow> GlobalAllocator_tryAllocateLarge g sz atomic = ret (g, 0)"
    and "first_fit (sz + 16) cs = Some i \<Longrightarrow> \<exists>cl m.
        GlobalAllocator_tryAllocateLarge g sz atomic =
          ret (with_large g cl sz m, start + extent (take i cs) + 32) \<and>
        chunk_list m cl start (fill (sz + 16) atomic i cs) \<and> large_wf (with_large g cl sz m) (fill (sz + 16) atomic i cs) \<and>
        same_bytes (heap g) m 0 (start + extent (take i cs)) \<and>
        same_bytes (heap g) m (start + extent (take (Suc i) cs)) (2 ^ 64)"
proof -
  have l: "chunk_list (heap g) (large_chunk_list (global g)) start cs"
    using wf by (simp add: large_wf_def start_def)
  then have ne: "cs \<noteq> []" "cl_first (large_chunk_list (global g)) = start"
    by (simp_all add: chunk_list_def)
  have eq: "GlobalAllocator_tryAllocateLarge g sz atomic = tryAllocateLarge_from g (sz + 16) sz atomic (if cs = [] then 0 else start + extent [])"
    using n ne by (simp add: GlobalAllocator_tryAllocateLarge_def)
  note S = tryAllocateLarge_from_spec [of g "[]" cs "sz + 16" atomic sz, simplified append_Nil, OF wf _ at, folded start_def, folded eq]
  show "GlobalAllocator_tryAllocateLarge g sz atomic = ret (g, 0)" if "first_fit (sz + 16) cs = None"
    using S that by simp
  assume i: "first_fit (sz + 16) cs = Some i"
  from S i obtain cl m where r: "GlobalAllocator_tryAllocateLarge g sz atomic =
          ret (with_large g cl sz m, start + extent (take i cs) + 32)"
    "chunk_list m cl start (fill (sz + 16) atomic i cs)"
    "same_bytes (heap g) m 0 (start + extent (take i cs))"
    "same_bytes (heap g) m (start + extent (take (Suc i) cs)) (2 ^ 64)"
    by (auto simp: fill_def)
  have "large_wf (with_large g cl sz m) (fill (sz + 16) atomic i cs)"
    using wf r(2) extent_fill [of i cs "sz + 16" atomic] first_fit_fill [OF i] by (simp add: large_wf_def start_def)
  with r show "\<exists>cl m. GlobalAllocator_tryAllocateLarge g sz atomic =
          ret (with_large g cl sz m, start + extent (take i cs) + 32) \<and>
        chunk_list m cl start (fill (sz + 16) atomic i cs) \<and> large_wf (with_large g cl sz m) (fill (sz + 16) atomic i cs) \<and>
        same_bytes (heap g) m 0 (start + extent (take i cs)) \<and>
        same_bytes (heap g) m (start + extent (take (Suc i) cs)) (2 ^ 64)"
    by blast
qed

section \<open>Growth\<close>

lemma ceil_log2_bounds: "n \<le> 2 ^ ceil_log2 n" "1 < n \<Longrightarrow> 2 ^ ceil_log2 n < 2 * n"
proof -
  have "n \<le> 2 ^ ceil_log2 n \<and> (1 < n \<longrightarrow> 2 ^ ceil_log2 n < 2 * n)"
  proof (induction n rule: ceil_log2.induct)
    case (1 n)
    show ?case
    proof (cases "n \<le> 1")
      case True
      then show ?thesis by (simp add: ceil_log2.simps)
    next
      case False
      let ?h = "(n + 1) div 2"
      have h: "?h \<le> 2 ^ ceil_log2 ?h" "1 < ?h \<longrightarrow> 2 ^ ceil_log2 ?h < 2 * ?h" using 1 False by blast+
      have eq: "(2::nat) ^ ceil_log2 n = 2 * 2 ^ ceil_log2 ?h" using False by (simp add: ceil_log2.simps [of n])
      have "n \<le> 2 * ?h" "2 * ?h \<le> n + 1" by simp_all
      moreover have "2 ^ ceil_log2 ?h < n"
      proof (cases "1 < ?h")
        case True
        then have "ceil_log2 ?h = Suc (ceil_log2 ((?h + 1) div 2))"
            by (subst ceil_log2.simps) (simp only: if_not_P not_le)
        then have "even (2 ^ ceil_log2 ?h :: nat)" by simp
        moreover have "2 ^ ceil_log2 ?h < 2 * ?h" using True h by blast
        ultimately show ?thesis using \<open>2 * ?h \<le> n + 1\<close> by presburger
      next
        case False
        then have "ceil_log2 ?h = 0" by (subst ceil_log2.simps) (simp only: if_P not_less)
        then show ?thesis using \<open>\<not> n \<le> 1\<close> by simp
      qed
      ultimately show ?thesis using h eq False by linarith
    qed
  qed
  then show "n \<le> 2 ^ ceil_log2 n" "1 < n \<Longrightarrow> 2 ^ ceil_log2 n < 2 * n" by blast+
qed

text \<open>The free cell that a growth for \<open>n\<close> bytes appends.\<close>

definition growth :: "nat \<Rightarrow> nat" where
  "growth n = ROUND_TO_NEXT_MULTIPLE (2 ^ ceil_log2 n) BLOCK_SIZE"

lemma growth_bounds:
  assumes "1 < n" "n < 2 ^ 62"
  shows "n \<le> growth n" "growth n < 2 * n + BLOCK_SIZE" "size_t (2 ^ ceil_log2 n) = 2 ^ ceil_log2 n" "BLOCK_SIZE dvd growth n"
proof -
  have b: "n \<le> 2 ^ ceil_log2 n" "2 ^ ceil_log2 n < 2 * n" using ceil_log2_bounds assms(1) by blast+
  then have "2 ^ ceil_log2 n + BLOCK_SIZE < (2::nat) ^ 64" using assms(2) by simp
  note R = ROUND_props [OF _ this, folded growth_def]
  show "n \<le> growth n" "growth n < 2 * n + BLOCK_SIZE" "BLOCK_SIZE dvd growth n" using R b by simp_all
  show "size_t (2 ^ ceil_log2 n) = 2 ^ ceil_log2 n" using b assms(2) by (intro size_t_small) simp
qed

text \<open>The state after a growth: the memory \<open>m\<close> has one more chunk, linked behind the last one.\<close>

definition grown_large :: "'a gheap_scheme \<Rightarrow> nat \<Rightarrow> ChunkList \<Rightarrow> mem \<Rightarrow> 'a gheap_scheme" where
  "grown_large g n cl m =
     g\<lparr>global := (global g)\<lparr>large_heap_stop := large_heap_stop (global g) + growth n,
         large_heap_size := large_heap_size (global g) + growth n, large_chunk_list := cl\<rparr>, heap := m\<rparr>"

lemma grown_large_simps [simp]:
  "heap (grown_large g n cl m) = m" "large_chunk_list (global (grown_large g n cl m)) = cl"
  "large_heap_start (global (grown_large g n cl m)) = large_heap_start (global g)"
  "large_heap_stop (global (grown_large g n cl m)) = large_heap_stop (global g) + growth n"
  "large_heap_size (global (grown_large g n cl m)) = large_heap_size (global g) + growth n"
  "small_heap_size (global (grown_large g n cl m)) = small_heap_size (global g)"
  "memory_limit (global (grown_large g n cl m)) = memory_limit (global g)"
  "lock_depth (grown_large g n cl m) = lock_depth g"
  by (simp_all add: grown_large_def)

lemma growLarge_spec:
  assumes wf: "large_wf g cs" and n: "32 \<le> n" "n < 2 ^ 61"
  shows "if small_heap_size (global g) + large_heap_size (global g) + growth n > memory_limit (global g)
    then GlobalAllocator_growLarge g n = abort_with ''GC: out of memory''
    else \<exists>cl m. GlobalAllocator_growLarge g n = ret (grown_large g n cl m) \<and>
      large_wf (grown_large g n cl m) (cs @ [free_cell (growth n - 16)]) \<and>
      (\<forall>lo hi. hi \<le> large_heap_start (global g) + extent (butlast cs) \<or> large_heap_start (global g) + extent (butlast cs) + 8 \<le> lo \<longrightarrow>
        hi \<le> large_heap_stop (global g) \<or> large_heap_stop (global g) + 32 \<le> lo \<longrightarrow> same_bytes (heap g) m lo hi)"
proof -
  have gr: "n \<le> growth n" "growth n < 2 * n + BLOCK_SIZE" "size_t (2 ^ ceil_log2 n) = 2 ^ ceil_log2 n"
    using growth_bounds [of n] n by simp_all
  have sm: "growth n < 2 ^ 63" using gr(2) n(2) by simp
  let ?g = "global g"
  have gd: "ROUND_TO_NEXT_MULTIPLE (2 ^ ceil_log2 n) 32768 = growth n" by (simp add: growth_def)
  have sums: "size_add (size_add (small_heap_size ?g) (large_heap_size ?g)) (growth n) =
      small_heap_size ?g + large_heap_size ?g + growth n"
    using wf sm by (simp add: large_wf_def)
  show ?thesis
  proof (cases "small_heap_size ?g + large_heap_size ?g + growth n > memory_limit ?g")
    case True
    then show ?thesis
      by (simp add: GlobalAllocator_growLarge_def Let_def gr(3) sums gd)
  next
    case False
    have l: "chunk_list (heap g) (large_chunk_list ?g) (large_heap_start ?g) cs"
      and stop: "large_heap_stop ?g = large_heap_start ?g + extent cs"
      using wf by (auto simp: large_wf_def)
    have sz: "size_sub (growth n) CHUNK_HEADER_SIZE = growth n - 16" using gr(1) n sm by simp
    have room: "16 \<le> growth n - 16" "large_heap_stop ?g + 16 + (growth n - 16) < 2 ^ 64"
      using gr(1) n wf False by (auto simp: large_wf_def)
    obtain cl m where p: "ChunkList_push (large_chunk_list ?g) (Chunk_init (heap g) (large_heap_stop ?g) (growth n - 16))
        (large_heap_stop ?g) = (cl, m)"
      "chunk_list m cl (large_heap_start ?g) (cs @ [free_cell (growth n - 16)])"
      "\<forall>lo hi. (hi \<le> cl_last (large_chunk_list ?g) \<or> cl_last (large_chunk_list ?g) + 8 \<le> lo) \<longrightarrow>
        (hi \<le> large_heap_stop ?g \<or> large_heap_stop ?g + 32 \<le> lo) \<longrightarrow> same_bytes (heap g) m lo hi"
      using ChunkList_push_cells [OF l stop room] by blast
    have last: "cl_last (large_chunk_list ?g) = large_heap_start ?g + extent (butlast cs)" using l by (simp add: chunk_list_def)
    have eq: "GlobalAllocator_growLarge g n = ret (grown_large g n cl m)"
      using False p(1) wf gr(1) n sm
      by (simp add: GlobalAllocator_growLarge_def Let_def gr(3) sums sz large_wf_def gd grown_large_def)
    have "small_heap_size ?g + (large_heap_size ?g + growth n) < 2 ^ 63" using False wf by (simp add: large_wf_def)
    then have "large_wf (grown_large g n cl m) (cs @ [free_cell (growth n - 16)])"
      using p(2) wf gr(1) n by (simp add: large_wf_def) (simp add: cell_total_def free_cell_def)
    then show ?thesis using False eq p(3) unfolding last by auto
  qed
qed

section \<open>Allocation of a large object\<close>

text \<open>
  After a growth the allocation cannot fail: the appended cell is large enough. Together with the cells before the
  growth this decides every outcome of \<open>allocateLarge\<close>.
\<close>

text \<open>The object \<open>p\<close> is the payload of the allocated cell \<open>i\<close>, with room for \<open>n\<close> bytes and its header.\<close>

definition large_object :: "addr \<Rightarrow> cell list \<Rightarrow> nat \<Rightarrow> nat \<Rightarrow> nat \<Rightarrow> addr \<Rightarrow> bool" where
  "large_object start cs i n atomic p \<longleftrightarrow> i < length cs \<and> p = start + extent (take i cs) + 32 \<and>
     cell_allocated (cs ! i) \<and> cell_atomic (cs ! i) = atomic \<and> n + 16 \<le> cell_size (cs ! i)"

lemma tryAllocateLarge_found:
  assumes wf: "large_wf g cs" and n: "sz + 16 < 2 ^ 64" and at: "atomic < 256" and i: "first_fit (sz + 16) cs = Some i"
  shows "\<exists>g' p. GlobalAllocator_tryAllocateLarge g sz atomic = ret (g', p) \<and> p \<noteq> 0 \<and>
    large_wf g' (fill (sz + 16) atomic i cs) \<and> large_heap_start (global g') = large_heap_start (global g) \<and>
    lock_depth g' = lock_depth g \<and>
    large_object (large_heap_start (global g)) (fill (sz + 16) atomic i cs) i sz atomic p"
proof -
  have f: "i < length cs" "sz + 16 \<le> cell_size (cs ! i)" using first_fit_fill [OF i] by auto
  note F = fill_nth [OF f, of atomic]
  show ?thesis
    using tryAllocateLarge_spec(2) [OF wf n at i] F by (auto simp: large_object_def)
qed

text \<open>No chunk fits, and growing would exceed the memory limit.\<close>

definition no_room :: "'a gheap_scheme \<Rightarrow> nat \<Rightarrow> bool" where
  "no_room g n \<longleftrightarrow> (\<exists>cs. large_wf g cs \<and> (\<forall>c \<in> set cs. unfit (n + 16) c)) \<and>
     small_heap_size (global g) + large_heap_size (global g) + growth (n + 32) > memory_limit (global g)"

lemma no_room_lock: "no_room (GC_lock g) n = no_room g n"
  by (simp add: no_room_def) (simp add: GC_lock_def)

lemma growLarge_then_fits:
  assumes wf: "large_wf g cs" and none: "first_fit (sz + 16) cs = None" and sz: "sz < 2 ^ 60" and at: "atomic < 256"
  shows "(GlobalAllocator_growLarge g (size_add sz sizeof_Chunk) = abort_with ''GC: out of memory'' \<and> no_room g sz) \<or>
    (\<exists>g1 g2 cs2 i p. GlobalAllocator_growLarge g (size_add sz sizeof_Chunk) = ret g1 \<and>
       GlobalAllocator_tryAllocateLarge g1 sz atomic = ret (g2, p) \<and> p \<noteq> 0 \<and> large_wf g2 cs2 \<and>
       lock_depth g2 = lock_depth g \<and> large_object (large_heap_start (global g)) cs2 i sz atomic p)"
proof -
  have n: "size_add sz sizeof_Chunk = sz + 32" "32 \<le> sz + 32" "sz + 32 < 2 ^ 61" "sz + 16 < 2 ^ 64" using sz by simp_all
  have big: "sz + 32 \<le> growth (sz + 32)" using growth_bounds(1) [of "sz + 32"] n by simp
  let ?cs = "cs @ [free_cell (growth (sz + 32) - 16)]"
  have fit: "first_fit (sz + 16) ?cs = Some (length cs)"
    using none big by (auto simp: first_fit_split first_fit_None unfit_def free_cell_def)
  show ?thesis
  proof (cases "small_heap_size (global g) + large_heap_size (global g) + growth (sz + 32) > memory_limit (global g)")
    case True
    then have "no_room g sz" using wf none unfolding no_room_def first_fit_None by blast
    then show ?thesis using growLarge_spec [OF wf n(2,3)] n(1) True by simp
  next
    case False
    then obtain cl m where gr: "GlobalAllocator_growLarge g (sz + 32) = ret (grown_large g (sz + 32) cl m)"
      "large_wf (grown_large g (sz + 32) cl m) ?cs"
      using growLarge_spec [OF wf n(2,3)] by (auto simp del: sizeof_Chunk_def)
    define g1 where "g1 = grown_large g (sz + 32) cl m"
    have g1: "GlobalAllocator_growLarge g (sz + 32) = ret g1" "large_wf g1 ?cs"
      "lock_depth g1 = lock_depth g" "large_heap_start (global g1) = large_heap_start (global g)"
      using gr by (simp_all add: g1_def)
    from tryAllocateLarge_found [OF g1(2) n(4) at fit] obtain g2 p where
      "GlobalAllocator_tryAllocateLarge g1 sz atomic = ret (g2, p)" "p \<noteq> 0"
      "large_wf g2 (fill (sz + 16) atomic (length cs) ?cs)" "lock_depth g2 = lock_depth g1"
      "large_object (large_heap_start (global g1)) (fill (sz + 16) atomic (length cs) ?cs) (length cs) sz atomic p"
      by blast
    with g1 n(1) show ?thesis by metis
  qed
qed

lemma grow_branch:
  assumes "large_wf g cs" "first_fit (sz + 16) cs = None" "sz < 2 ^ 60" "atomic < 256"
  defines "r \<equiv> pbind (GlobalAllocator_growLarge g (size_add sz sizeof_Chunk)) (\<lambda>g.
                   pbind (GlobalAllocator_tryAllocateLarge g sz atomic) (\<lambda>(g, mutator).
                   if mutator \<noteq> 0 then ret (GC_unlock g, mutator)
                   else abort_with ''GC: failed to allocate large object''))"
  shows "(r = abort_with ''GC: out of memory'' \<and> no_room g sz) \<or>
    (\<exists>g' cs' i p. r = ret (g', p) \<and> large_wf g' cs' \<and> lock_depth g' = lock_depth g - 1 \<and>
      large_object (large_heap_start (global g)) cs' i sz atomic p)"
  using growLarge_then_fits [OF assms(1-4)]
proof (elim disjE exE conjE)
  fix g1 g2 cs2 i p
  assume "GlobalAllocator_growLarge g (size_add sz sizeof_Chunk) = ret g1"
    "GlobalAllocator_tryAllocateLarge g1 sz atomic = ret (g2, p)" "p \<noteq> 0" "large_wf g2 cs2"
    "lock_depth g2 = lock_depth g" "large_object (large_heap_start (global g)) cs2 i sz atomic p"
  then have "r = ret (GC_unlock g2, p)" "large_wf (GC_unlock g2) cs2" "lock_depth (GC_unlock g2) = lock_depth g - 1"
    "large_object (large_heap_start (global g)) cs2 i sz atomic p"
    by (simp_all add: r_def del: sizeof_Chunk_def) (simp add: GC_unlock_def)
  then show ?thesis by blast
qed (simp add: r_def del: sizeof_Chunk_def)

text \<open>
  \<open>collects collect g\<close>: the program's collection, when \<open>allocateLarge\<close> asks for one, returns a well-formed large
  object space and leaves the lock as it was.
\<close>

definition collects :: "('a gheap_scheme \<Rightarrow> 'a gheap_scheme prog) \<Rightarrow> 'a gheap_scheme \<Rightarrow> bool" where
  "collects collect g \<longleftrightarrow> (\<exists>g1 cs1. collect g = ret g1 \<and> large_wf g1 cs1 \<and>
     large_heap_start (global g1) = large_heap_start (global g) \<and> lock_depth g1 = lock_depth g)"

lemma tryCollect_large:
  assumes "large_wf g cs" and "free_space_divisor (global g) \<noteq> 0" and "collects collect g"
  obtains (none) "GlobalAllocator_tryCollect collect g = ret (g, False)"
  | (collected) g1 cs1 where "GlobalAllocator_tryCollect collect g = ret (g1, True)" "large_wf g1 cs1"
      "large_heap_start (global g1) = large_heap_start (global g)" "lock_depth g1 = lock_depth g" "collect g = ret g1"
proof -
  have "(GlobalAllocator_tryCollect collect g = ret (g, False)) \<or>
      (GlobalAllocator_tryCollect collect g = pbind (collect g) (\<lambda>g. ret (g, True)))"
    using assms(2) by (simp add: GlobalAllocator_tryCollect_def Let_def)
  moreover obtain g1 cs1 where "collect g = ret g1" "large_wf g1 cs1"
      "large_heap_start (global g1) = large_heap_start (global g)" "lock_depth g1 = lock_depth g"
    using assms(3) by (auto simp: collects_def)
  ultimately show thesis using that by auto
qed

text \<open>What a caller of \<open>allocateLarge\<close> can observe; \<open>full\<close> is the condition under which the memory is exhausted.\<close>

definition large_outcome ::
  "bool \<Rightarrow> ('a gheap_scheme \<times> addr) prog \<Rightarrow> addr \<Rightarrow> nat \<Rightarrow> nat \<Rightarrow> nat \<Rightarrow> bool" where
  "large_outcome full r start depth n atomic \<longleftrightarrow> (r = abort_with ''GC: out of memory'' \<and> full) \<or>
     (\<exists>g cs i p. r = ret (g, p) \<and> large_wf g cs \<and> lock_depth g = depth \<and> large_object start cs i n atomic p)"

lemma large_outcome_mono:
  "large_outcome full r start depth n atomic \<Longrightarrow> (full \<Longrightarrow> full') \<Longrightarrow> large_outcome full' r start depth n atomic"
  by (auto simp: large_outcome_def)

text \<open>One attempt under the lock, with \<open>retry\<close> for what follows when nothing fits.\<close>

lemma attempt_outcome:
  assumes "large_wf h ds" and n: "n + 16 < 2 ^ 64" "atomic < 256" and "lock_depth h = depth + 1"
    and "first_fit (n + 16) ds = None \<Longrightarrow> large_outcome full (retry h) (large_heap_start (global h)) depth n atomic"
  shows "large_outcome full (pbind (GlobalAllocator_tryAllocateLarge h n atomic) (\<lambda>(g, mutator).
      if mutator \<noteq> 0 then ret (GC_unlock g, mutator) else retry g)) (large_heap_start (global h)) depth n atomic"
proof (cases "first_fit (n + 16) ds")
  case None
  then show ?thesis using tryAllocateLarge_spec(1) [OF assms(1-3) None] assms(5) by simp
next
  case (Some i)
  from tryAllocateLarge_found [OF assms(1-3) Some] obtain g2 p where g2:
    "GlobalAllocator_tryAllocateLarge h n atomic = ret (g2, p)" "p \<noteq> 0"
    "large_wf g2 (fill (n + 16) atomic i ds)" "lock_depth g2 = lock_depth h"
    "large_object (large_heap_start (global h)) (fill (n + 16) atomic i ds) i n atomic p"
    by blast
  then have "lock_depth (GC_unlock g2) = depth" "large_wf (GC_unlock g2) (fill (n + 16) atomic i ds)"
    using assms(4) by (simp add: GC_unlock_def, simp only: large_wf_lock)
  then show ?thesis using g2 unfolding large_outcome_def by auto
qed

abbreviation grow_and_retry :: "nat \<Rightarrow> nat \<Rightarrow> 'a gheap_scheme \<Rightarrow> ('a gheap_scheme \<times> addr) prog" where
  "grow_and_retry n atomic h \<equiv>
    pbind (GlobalAllocator_growLarge h (size_add n sizeof_Chunk)) (\<lambda>g.
      pbind (GlobalAllocator_tryAllocateLarge g n atomic) (\<lambda>(g, mutator).
        if mutator \<noteq> 0 then ret (GC_unlock g, mutator)
        else abort_with ''GC: failed to allocate large object''))"

lemma grow_outcome:
  assumes "large_wf h ds" and none: "first_fit (n + 16) ds = None" and n: "n < 2 ^ 60" "atomic < 256"
    and "lock_depth h = depth + 1"
  shows "large_outcome (no_room h n) (grow_and_retry n atomic h) (large_heap_start (global h)) depth n atomic"
  using grow_branch [OF assms(1-4)] assms(5) unfolding large_outcome_def by auto

lemma allocateLarge_spec:
  assumes wf: "large_wf g cs" and sz: "sz < 2 ^ 59" and at: "atomic < 256"
    and div: "free_space_divisor (global g) \<noteq> 0" and col: "collects collect (GC_lock g)"
  defines "n \<equiv> ROUND_TO_NEXT_MULTIPLE sz WORD_SIZE"
  shows "large_outcome (no_room g n \<or> (\<exists>h. collect (GC_lock g) = ret h \<and> no_room h n))
    (GlobalAllocator_allocateLarge collect g sz atomic) (large_heap_start (global g)) (lock_depth g) n atomic"
proof -
  have n: "n < 2 ^ 60" "n + 16 < 2 ^ 64"
    using ROUND_props(3) [of WORD_SIZE sz, folded n_def] sz by auto
  let ?g = "GC_lock g"
  have lk: "lock_depth ?g = lock_depth g + 1" "large_heap_start (global ?g) = large_heap_start (global g)"
    "free_space_divisor (global ?g) \<noteq> 0"
    using div by (simp_all add: GC_lock_def)
  have wf': "large_wf ?g cs" using wf by (simp only: large_wf_lock)
  show ?thesis
    unfolding GlobalAllocator_allocateLarge_def Let_def n_def [symmetric] lk(2) [symmetric]
  proof (rule attempt_outcome [OF wf' n(2) at lk(1)])
    assume none: "first_fit (n + 16) cs = None"
    from wf' lk(3) col
    show "large_outcome (no_room g n \<or> (\<exists>h. collect (GC_lock g) = ret h \<and> no_room h n))
       (pbind (GlobalAllocator_tryCollect collect ?g) (\<lambda>(g, collected).
              pbind (if collected then GlobalAllocator_tryAllocateLarge g n atomic else ret (g, 0)) (\<lambda>(g, mutator).
              if mutator \<noteq> 0 then ret (GC_unlock g, mutator)
              else grow_and_retry n atomic g)))
       (large_heap_start (global ?g)) (lock_depth g) n atomic"
    proof (cases rule: tryCollect_large)
      case none
      have "large_outcome (no_room g n \<or> (\<exists>h. collect (GC_lock g) = ret h \<and> no_room h n)) (grow_and_retry n atomic ?g)
          (large_heap_start (global ?g)) (lock_depth g) n atomic"
        by (rule large_outcome_mono [OF grow_outcome [OF wf' \<open>first_fit (n + 16) cs = None\<close> n(1) at lk(1)]])
          (simp only: no_room_lock simp_thms)
      then show ?thesis by (simp add: none)
    next
      case (collected g1 cs1)
      then have d: "lock_depth g1 = lock_depth g + 1" using lk(1) by simp
      show ?thesis
        unfolding collected(1,3) [symmetric]
        using large_outcome_mono [OF attempt_outcome [of g1 cs1 n atomic "lock_depth g" "no_room g1 n" "grow_and_retry n atomic",
            OF collected(2) n(2) at d grow_outcome [OF collected(2) _ n(1) at d]]] collected(5)
        by (simp add: collected(1))
    qed
  qed
qed

section \<open>Deallocation\<close>

lemma deallocateLarge_spec:
  assumes wf: "large_wf g (xs @ c # ys)" and hash: "hash_wf (finalizers (global g))"
    and call: "\<And>f p h. heap (call f p h) = heap h \<and> global (call f p h) = global h \<and> lock_depth (call f p h) = lock_depth h"
  defines "chunk \<equiv> large_heap_start (global g) + extent xs"
  shows "\<exists>g'. GlobalAllocator_deallocateLarge call g (chunk + 32) = ret g' \<and>
    large_wf g' (xs @ c\<lparr>cell_allocated := False\<rparr> # ys) \<and> lock_depth g' = lock_depth g \<and>
    hash_map (finalizers (global g')) = (hash_map (finalizers (global g)))(chunk + 16 := None) \<and>
    hash_wf (finalizers (global g'))"
proof -
  obtain table where t: "Hash_delete (finalizers (global g)) (chunk + 16) =
      ret (table, case hash_map (finalizers (global g)) (chunk + 16) of None \<Rightarrow> 0 | Some v \<Rightarrow> v)"
    "hash_wf table" "hash_map table = (hash_map (finalizers (global g)))(chunk + 16 := None)"
    using hash_delete_spec [OF hash, of "chunk + 16"] by blast
  define f where "f = (case hash_map (finalizers (global g)) (chunk + 16) of None \<Rightarrow> 0 | Some v \<Rightarrow> v)"
  let ?g1 = "(GC_lock g)\<lparr>global := (global g)\<lparr>finalizers := table\<rparr>\<rparr>"
  let ?g2 = "if f \<noteq> 0 then call f (chunk + 32) ?g1 else ?g1"
  let ?g3 = "GC_unlock (?g2\<lparr>heap := Chunk_set_allocated (heap ?g2) chunk 0\<rparr>)"
  have e: "GlobalAllocator_deallocateLarge call g (chunk + 32) = ret ?g3"
    unfolding GlobalAllocator_deallocateLarge_def Let_def
    by (simp add: GlobalAllocator_deleteFinalizer_def t(1) GC_lock_def Chunk_mutatorAddress_def flip: f_def)
  have g2: "heap ?g2 = heap g" "global ?g2 = (global g)\<lparr>finalizers := table\<rparr>" "lock_depth ?g2 = lock_depth g + 1"
    using call [of f "chunk + 32" ?g1] by (auto simp: GC_lock_def)
  have "chunk_list (heap g) (large_chunk_list (global g)) (large_heap_start (global g)) (xs @ c # ys)"
    using wf by (simp add: large_wf_def)
  from Chunk_free_cells [OF this] have "large_wf ?g3 (xs @ c\<lparr>cell_allocated := False\<rparr> # ys)"
    using wf g2 by (simp add: large_wf_def GC_unlock_def chunk_def cell_total_def)
  moreover have "lock_depth ?g3 = lock_depth g" "global ?g3 = (global g)\<lparr>finalizers := table\<rparr>"
    using g2 by (simp_all add: GC_unlock_def)
  ultimately show ?thesis using e t by (intro exI [of _ ?g3]) simp
qed

section \<open>A concrete space\<close>

text \<open>A large heap of two blocks at \<open>65536\<close>, one free chunk, with a limit of 1 MB.\<close>

definition sample_large :: gheap where
  "sample_large =
     \<lparr>heap = Chunk_init (\<lambda>_. 0) 65536 65520,
      global = \<lparr>small_heap_size = 65536, small_heap_start = 262144, small_heap_stop = 327680,
        free_list = \<lparr>bl_first = 0, bl_last = 0, bl_size = 0\<rparr>, recyclable_list = \<lparr>bl_first = 0, bl_last = 0, bl_size = 0\<rparr>,
        large_heap_size = 65536, large_heap_start = 65536, large_heap_stop = 131072,
        large_chunk_list = \<lparr>cl_first = 65536, cl_last = 65536, cl_size = 1\<rparr>,
        finalizers = \<lparr>entries = replicate 8 \<lparr>e_status = FREE, e_key = 0, e_value = 0\<rparr>, mask = 7, used = 0, deleted = 0\<rparr>,
        memory_limit = 1048576, free_space_divisor = 3, allocated_bytes_since_collect = 0, total_allocated_bytes = 0\<rparr>,
      is_collecting = False, lock_depth = 0\<rparr>"

lemma sample_large_wf: "large_wf sample_large [free_cell 65520]"
  using chunk_init_cell [of 65520 "\<lambda>_. 0" 65536]
  by (simp add: large_wf_def sample_large_def chunk_list_def cell_total_def) (simp add: free_cell_def)

lemma sample_large_sel: "free_space_divisor (global sample_large) = 3" "large_heap_start (global sample_large) = 65536"
  "hash_wf (finalizers (global sample_large))" "lock_depth sample_large = 0"
  using hash_create_spec [of 8] create_8 by (auto simp: sample_large_def)

lemma sample_collects: "collects ret (GC_lock sample_large)"
  unfolding collects_def using sample_large_wf large_wf_lock(1) by blast

section \<open>Properties\<close>

text \<open>
  C23. \<open>tryAllocateLarge\<close> takes the first free chunk that is large enough, splits it when the rest can hold a chunk, and
  returns its payload; nothing outside that chunk changes. When no chunk fits it returns \<open>NULL\<close> and changes nothing.
\<close>

theorem large_first_fit:
  assumes "large_wf g cs" and "sz + 16 < 2 ^ 64" and "atomic < 256"
  shows "case first_fit (sz + 16) cs of
      None \<Rightarrow> (\<forall>c \<in> set cs. cell_allocated c \<or> cell_size c < sz + 16) \<and>
        GlobalAllocator_tryAllocateLarge g sz atomic = ret (g, 0)
    | Some i \<Rightarrow> (\<forall>j < i. cell_allocated (cs ! j) \<or> cell_size (cs ! j) < sz + 16) \<and> \<not> cell_allocated (cs ! i) \<and>
        (\<exists>g'. GlobalAllocator_tryAllocateLarge g sz atomic =
            ret (g', large_heap_start (global g) + extent (take i cs) + 32) \<and>
          large_wf g' (take i cs @ take_cell (sz + 16) atomic (cs ! i) @ drop (Suc i) cs) \<and>
          same_bytes (heap g) (heap g') 0 (large_heap_start (global g) + extent (take i cs)) \<and>
          same_bytes (heap g) (heap g') (large_heap_start (global g) + extent (take (Suc i) cs)) (2 ^ 64))"
proof (cases "first_fit (sz + 16) cs")
  case None
  then have "\<forall>c \<in> set cs. cell_allocated c \<or> cell_size c < sz + 16" by (simp add: first_fit_None unfit_def)
  then show ?thesis using tryAllocateLarge_spec(1) [OF assms None] unfolding None by simp
next
  case (Some i)
  obtain cl m where "GlobalAllocator_tryAllocateLarge g sz atomic =
      ret (with_large g cl sz m, large_heap_start (global g) + extent (take i cs) + 32)"
    "large_wf (with_large g cl sz m) (fill (sz + 16) atomic i cs)"
    "same_bytes (heap g) m 0 (large_heap_start (global g) + extent (take i cs))"
    "same_bytes (heap g) m (large_heap_start (global g) + extent (take (Suc i) cs)) (2 ^ 64)"
    using tryAllocateLarge_spec(2) [OF assms Some] by blast
  then show ?thesis
    using first_fit_Some [OF Some] Some by (auto simp: unfit_def fill_def intro!: exI [of _ "with_large g cl sz m"])
qed

theorem large_first_fit_witness:
  "\<exists>g'. GlobalAllocator_tryAllocateLarge sample_large 10000 1 = ret (g', 65568) \<and>
     large_wf g' [(free_cell 10016)\<lparr>cell_allocated := True, cell_atomic := 1\<rparr>, free_cell 55488]"
  using large_first_fit [OF sample_large_wf, of 10000 1]
  by (auto simp: unfit_def take_cell_def split_cell_def free_cell_def sample_large_sel)



text \<open>
  C25. \<open>deallocateLarge\<close> on the payload of a chunk makes the chunk free again, forgets its finalizer, and releases the
  lock, whatever finalizer it calls as long as that leaves the heap alone.
\<close>

theorem deallocate_large_frees:
  assumes "large_wf g (xs @ c # ys)" and "hash_wf (finalizers (global g))"
    and "\<And>f p h. heap (call f p h) = heap h \<and> global (call f p h) = global h \<and> lock_depth (call f p h) = lock_depth h"
  shows "\<exists>g'. GlobalAllocator_deallocateLarge call g (large_heap_start (global g) + extent xs + 32) = ret g' \<and>
    large_wf g' (xs @ c\<lparr>cell_allocated := False\<rparr> # ys) \<and> lock_depth g' = lock_depth g \<and>
    hash_map (finalizers (global g')) =
      (hash_map (finalizers (global g)))(large_heap_start (global g) + extent xs + 16 := None) \<and>
    hash_wf (finalizers (global g'))"
  using deallocateLarge_spec [OF assms] .

theorem deallocate_large_frees_witness:
  "\<exists>g'. GlobalAllocator_deallocateLarge (\<lambda>f p h. h) sample_large 65568 = ret g' \<and> large_wf g' [free_cell 65520]"
  using deallocate_large_frees [of sample_large "[]" "free_cell 65520" "[]" "\<lambda>f p h. h"] sample_large_wf
  by (auto simp: sample_large_sel free_cell_def)

end
