(* ===== verification/Bump.thy ===== *)
theory Bump
  imports Layout
begin

text \<open>
  Bump allocation inside one block: the region a local allocator hands out, from its cursor to its limit, and what placing
  an object at the cursor does to the layout of the block. The region is a hole of the last sweep or a whole block.
\<close>

section \<open>The header of a line\<close>

definition header_of :: "int \<Rightarrow> 8 word" where
  "header_of offset = (of_int offset AND LINE_OBJECT_OFFSET_MARK) OR LINE_CONTAINS_OBJECT"

lemma header_of_offset: "k < 32 \<Longrightarrow> hdr_offset (header_of (8 * int k)) = 8 * k"
proof -
  have "\<forall>k \<in> {0..<32}. hdr_offset (header_of (8 * int k)) = 8 * k"
    by code_simp
  then show "k < 32 \<Longrightarrow> hdr_offset (header_of (8 * int k)) = 8 * k" by simp
qed

lemma header_of_object: "hdr_object (header_of offset)"
  using bit_exp_iff [of 1 1, where ?'a = "8 word"] by (simp add: header_of_def hdr_object_def bit_or_iff)

text \<open>The memory after \<open>Line_update\<close>: only an empty header is written.\<close>

definition line_updated :: "mem \<Rightarrow> addr \<Rightarrow> addr \<Rightarrow> mem" where
  "line_updated m b x =
     (let hdr = b + 16 + line_of b x
      in if hdr_object (m hdr) then m else m(hdr := header_of (int x - int (line_addr b (line_of b x)))))"

lemma Line_update_spec:
  assumes x: "b + 256 \<le> x" "x < b + 32768" "8 dvd x" and b: "8 dvd b"
  shows "Line_update m b x = ret (line_updated m b x)"
    and "hdr_offset (header_of (int x - int (line_addr b (line_of b x)))) = x - line_addr b (line_of b x)"
proof -
  let ?i = "line_of b x"
  have i: "?i < 127" "line_addr b ?i \<le> x" "x < line_addr b ?i + 256"
    using line_of_less [OF x(1,2)] line_of_bounds [OF x(1)] by auto
  have "8 dvd x - line_addr b ?i" using x(3) line_addr_dvd [OF b] i(2) by (simp add: dvd_diff_nat)
  then obtain k where k: "x - line_addr b ?i = 8 * k" by (auto elim: dvdE)
  then have k': "int x - int (line_addr b ?i) = 8 * int k" "k < 32" using i by linarith+
  show "hdr_offset (header_of (int x - int (line_addr b ?i))) = x - line_addr b ?i"
    using header_of_offset [OF k'(2)] k'(1) k by simp
  have "int x - int (b + 256) = int (x - (b + 256))" using x(1) by simp
  then have idx: "Block_lineIndex b x = ret (int ?i)"
    using x i(1) by (simp add: Block_lineIndex_def Block_stop_def Block_start_def line_of_def c_int_small flip: zdiv_int)
  have off: "LineHeader_setOffset m (b + 16 + ?i) (8 * int k) = ret (m(b + 16 + ?i := header_of (8 * int k)))" for m
    using k'(2) by (simp add: LineHeader_setOffset_def header_of_def)
  show "Line_update m b x = ret (line_updated m b x)"
    using x i k'
    by (simp add: Line_update_def Block_contains_def Block_start_def Block_stop_def idx Block_lineHeader_eq Block_line_eq
        LineHeader_containsObject_iff line_updated_def Let_def off)
qed

section \<open>The region of a cursor\<close>

text \<open>
  \<open>bump_ok m b S K h c lim\<close>: in the block \<open>b\<close> with the objects \<open>S\<close>, of which those in \<open>K\<close> matter, the region begins at
  the line \<open>h\<close>, is used up to the cursor \<open>c\<close> and ends at the line \<open>lim\<close>. The objects in it lie side by side up to
  the cursor; an object before it reaches into it only when it does not matter and begins two lines before.
\<close>

definition bump_ok :: "mem \<Rightarrow> addr \<Rightarrow> addr set \<Rightarrow> addr set \<Rightarrow> addr \<Rightarrow> addr \<Rightarrow> addr \<Rightarrow> bool" where
  "bump_ok m b S K h c lim \<longleftrightarrow>
     (\<exists>i < 127. h = line_addr b i) \<and> (\<exists>j \<le> 127. lim = line_addr b j) \<and> h \<le> c \<and> c \<le> lim \<and> 8 dvd c \<and>
     (\<forall>x \<in> S. x < h \<longrightarrow> x + Object_size m x \<le> h \<or> (x \<notin> K \<and> line_of b x + 2 \<le> line_of b h)) \<and>
     (\<forall>x \<in> S. h \<le> x \<longrightarrow> x < lim \<longrightarrow> x + Object_size m x \<le> c \<and> (x + Object_size m x \<in> S \<or> x + Object_size m x = c))"

lemma bump_okD:
  assumes "bump_ok m b S K h c lim"
  shows "b + 256 \<le> h" "h \<le> c" "c \<le> lim" "lim \<le> b + 32768" "8 dvd c"
  using assms by (auto simp: bump_ok_def line_addr_def)

text \<open>The memory after an object of \<open>sz\<close> bytes was placed at \<open>c\<close> and its header was written.\<close>

definition new_object :: "mem \<Rightarrow> addr \<Rightarrow> addr \<Rightarrow> nat \<Rightarrow> addr \<Rightarrow> nat \<Rightarrow> mem" where
  "new_object m b c sz lim atomic =
     (let m = line_updated m b c;
          m = (if c + sz < lim then Object_set_size m (c + sz) 0 else m)
      in Object_allocate m c sz atomic)"

lemma new_object_frame:
  assumes "new_object m b c sz lim atomic a \<noteq> m a"
  shows "a = b + 16 + line_of b c \<and> \<not> hdr_object (m a) \<or> c \<le> a \<and> a < c + 8 \<or> a = c + 9 \<or>
    c + sz < lim \<and> c + sz \<le> a \<and> a < c + sz + 8"
proof (rule ccontr)
  assume n: "\<not> ?thesis"
  have "store 8 mm (c + sz) v a = mm a" if "c + sz < lim" for mm v using n that by (intro store_frame) auto
  moreover have "store 8 mm c v a = mm a" "store 1 mm (c + 9) v a = mm a" for mm v using n by (auto intro!: store_frame)
  moreover have "line_updated m b c a = m a" using n by (auto simp: line_updated_def Let_def)
  ultimately show False
    using assms by (simp add: new_object_def Object_allocate_def Object_set_size_def Let_def split: if_splits)
qed

lemma new_object_fields:
  assumes "16 \<le> sz" "sz \<le> 8192" "b + 16 + line_of b c < c" "atomic < 256"
  shows "Object_size (new_object m b c sz lim atomic) c = sz" "Object_atomic (new_object m b c sz lim atomic) c = atomic"
    and "c + sz < lim \<Longrightarrow> Object_size (new_object m b c sz lim atomic) (c + sz) = 0"
    and "hdr_object (new_object m b c sz lim atomic (b + 16 + line_of b c))"
    and "\<not> hdr_object (m (b + 16 + line_of b c)) \<Longrightarrow> new_object m b c sz lim atomic (b + 16 + line_of b c) =
      header_of (int c - int (line_addr b (line_of b c)))"
proof -
  show "Object_size (new_object m b c sz lim atomic) c = sz" "Object_atomic (new_object m b c sz lim atomic) c = atomic"
    "c + sz < lim \<Longrightarrow> Object_size (new_object m b c sz lim atomic) (c + sz) = 0"
    using assms(1,2,4) by (simp_all add: new_object_def Object_allocate_def Object_set_size_def Object_size_def Object_atomic_def
        Let_def load_store_other load_store_same)
  have "new_object m b c sz lim atomic (b + 16 + line_of b c) = line_updated m b c (b + 16 + line_of b c)"
    using assms(3) by (simp add: new_object_def Object_allocate_def Object_set_size_def Let_def store_frame)
  then show "hdr_object (new_object m b c sz lim atomic (b + 16 + line_of b c))"
    "\<not> hdr_object (m (b + 16 + line_of b c)) \<Longrightarrow> new_object m b c sz lim atomic (b + 16 + line_of b c) =
      header_of (int c - int (line_addr b (line_of b c)))"
    by (auto simp: line_updated_def Let_def header_of_object)
qed

lemma place_object_spec:
  assumes "b + 256 \<le> c" "c < b + 32768" "8 dvd c" "8 dvd b"
  shows "\<exists>m'. place_object m b c (c + sz) lim = ret m' \<and> Object_allocate m' c sz atomic = new_object m b c sz lim atomic"
  using Line_update_spec(1) [OF assms] by (simp add: place_object_def new_object_def Let_def)

section \<open>Placing an object\<close>

text \<open>An allocation that fits the region.\<close>

definition fits :: "mem \<Rightarrow> addr \<Rightarrow> addr set \<Rightarrow> addr set \<Rightarrow> addr \<Rightarrow> addr \<Rightarrow> addr \<Rightarrow> nat \<Rightarrow> bool" where
  "fits m b S K h c lim sz \<longleftrightarrow> is_block b \<and> layout m b S \<and> bump_ok m b S K h c lim \<and>
     16 \<le> sz \<and> sz \<le> 8192 \<and> 8 dvd sz \<and> c + sz \<le> lim"

lemma fitsD:
  assumes "fits m b S K h c lim sz"
  shows "8 dvd b" "layout m b S" "bump_ok m b S K h c lim" "16 \<le> sz" "sz \<le> 8192" "8 dvd sz" "c + sz \<le> lim"
    "b + 256 \<le> c" "c < b + 32768" "8 dvd c" "8 dvd lim" "line_of b c < 127" "b + 16 + line_of b c < b + 256"
    "c + sz < lim \<Longrightarrow> c + sz + 8 \<le> lim"
proof -
  show g: "8 dvd b" "layout m b S" "bump_ok m b S K h c lim" "16 \<le> sz" "sz \<le> 8192" "8 dvd sz" "c + sz \<le> lim"
    using assms is_block_dvd8 by (auto simp: fits_def)
  note d = bump_okD [OF g(3)]
  show c: "b + 256 \<le> c" "c < b + 32768" "8 dvd c" using d g(4,7) by simp_all
  show l: "8 dvd lim" using g(1,3) line_addr_dvd by (auto simp: bump_ok_def)
  show "line_of b c < 127" using line_of_less [OF c(1,2)] .
  then show "b + 16 + line_of b c < b + 256" by simp
  show "c + sz < lim \<Longrightarrow> c + sz + 8 \<le> lim" by (intro dvd_step dvd_add c(3) g(6) l)
qed

text \<open>Where the objects of the block are, relative to the region.\<close>

lemma fits_cases:
  assumes f: "fits m b S K h c lim sz" and x: "x \<in> S"
  obtains (before) "x + 8 \<le> h" "line_addr b (line_of b x) + 256 \<le> h" "line_of b x < line_of b h"
      "x + Object_size m x \<le> h \<or> (x \<notin> K \<and> line_of b x + 2 \<le> line_of b h)"
  | (used) "h \<le> x" "x + Object_size m x \<le> c" "x + Object_size m x \<in> S \<or> x + Object_size m x = c"
  | (behind) "lim \<le> x"
proof -
  note d = fitsD [OF f] and l = layoutD [OF fitsD(2) [OF f] x]
  have h: "8 dvd h" "\<exists>i < 127. h = line_addr b i" using d(1,3) line_addr_dvd by (auto simp: bump_ok_def)
  consider "x < h" | "h \<le> x" "x < lim" | "lim \<le> x" by linarith
  then show thesis
  proof cases
    case 1
    obtain i where i: "h = line_addr b i" using h(2) by blast
    have hi: "line_of b h = i" by (subst line_of_iff) (auto simp: i)
    have "line_of b x < i" using 1 l(1) i by (simp add: line_of_less_iff)
    then have "line_addr b (line_of b x) + 256 \<le> h" unfolding i by (rule line_addr_mono)
    moreover have "x + 8 \<le> h" using dvd_step [OF l(5) h(1) 1] .
    moreover have "x + Object_size m x \<le> h \<or> (x \<notin> K \<and> line_of b x + 2 \<le> line_of b h)"
      using d(3) x 1 by (simp add: bump_ok_def)
    ultimately show thesis using before \<open>line_of b x < i\<close> hi by simp
  next
    case 2
    then show thesis using used d(3) x by (simp add: bump_ok_def)
  qed (rule behind)
qed

lemma fits_fresh:
  assumes f: "fits m b S K h c lim sz"
  shows "c \<notin> S"
proof
  assume "c \<in> S"
  note d = fitsD [OF f]
  from layoutD(3) [OF d(2) \<open>c \<in> S\<close>] \<open>c \<in> S\<close> d(3,4,7) show False by (fastforce simp: bump_ok_def)
qed

text \<open>The size fields of the other objects are not written, nor any byte of an object that matters.\<close>

lemma new_object_sizes:
  assumes f: "fits m b S K h c lim sz" and x: "x \<in> S"
  shows "Object_size (new_object m b c sz lim at) x = Object_size m x"
  unfolding Object_size_def
proof (rule load_cong, rule ccontr)
  note d = fitsD [OF f] and l = layoutD [OF fitsD(2) [OF f] x]
  fix a assume a: "x \<le> a" "a < x + 8" "new_object m b c sz lim at a \<noteq> m a"
  have w: "h \<le> c" using d(3) by (simp add: bump_ok_def)
  from new_object_frame [OF a(3)] d(13) l(1) a(1) have n: "c \<le> a" "a < lim"
    using d(4,7,14) by auto
  from f x show False
    by (cases rule: fits_cases) (use n a w l(3) in auto)
qed

lemma new_object_keeps:
  assumes f: "fits m b S K h c lim sz" and x: "x \<in> S" "x \<in> K"
  shows "same_bytes m (new_object m b c sz lim at) x (x + Object_size m x)"
    and "x + Object_size m x \<le> c \<or> c + sz \<le> x"
proof -
  note d = fitsD [OF f] and l = layoutD [OF fitsD(2) [OF f] x(1)]
  have w: "h \<le> c" using d(3) by (simp add: bump_ok_def)
  have "x + Object_size m x \<le> c \<or> lim \<le> x"
    using f x(1) by (cases rule: fits_cases) (use x(2) w in auto)
  then show "x + Object_size m x \<le> c \<or> c + sz \<le> x" using d(7) by auto
  show "same_bytes m (new_object m b c sz lim at) x (x + Object_size m x)"
    unfolding same_bytes_def
  proof (intro allI impI, rule ccontr)
    fix a assume a: "x \<le> a" "a < x + Object_size m x" "m a \<noteq> new_object m b c sz lim at a"
    from new_object_frame [OF a(3) [symmetric]] d(13) l(1) a(1) have "c \<le> a" "a < lim"
      using d(4,7,14) by auto
    with a \<open>x + Object_size m x \<le> c \<or> lim \<le> x\<close> show False by auto
  qed
qed

text \<open>The four parts of the layout after the object was placed.\<close>

lemma new_object_size_new:
  assumes f: "fits m b S K h c lim sz" and "at < 256"
  shows "Object_size (new_object m b c sz lim at) c = sz" "Object_atomic (new_object m b c sz lim at) c = at"
  using new_object_fields(1,2) fitsD [OF f] assms(2) by simp_all

lemma new_object_chain_old:
  assumes f: "fits m b S K h c lim sz" and x: "x \<in> S"
  shows "chain_ok (new_object m b c sz lim at) b (insert c S) x"
proof -
  note d = fitsD [OF f] and l = layoutD [OF fitsD(2) [OF f] x]
  let ?m = "new_object m b c sz lim at" and ?e = "x + Object_size m x"
  have size: "Object_size ?m x = Object_size m x" by (rule new_object_sizes [OF f x])
  have "?e \<in> insert c S \<or> (Object_size ?m ?e = 0 \<and> (\<forall>y \<in> insert c S. line_of b y = line_of b x \<longrightarrow> y \<le> x))"
    if e: "?e < line_addr b (line_of b x) + 256" "?e \<notin> insert c S"
  proof -
    have z: "Object_size m ?e = 0" "\<forall>y \<in> S. line_of b y = line_of b x \<longrightarrow> y \<le> x"
      using l(7) e by (auto simp: chain_ok_def Let_def)
    have e8: "?e + 8 \<le> line_addr b (line_of b x) + 256"
      by (intro dvd_step e(1) dvd_add l(5,6) line_addr_dvd d(1)) simp
    have w: "h \<le> c" "c < lim" using d(3,4,7) by (auto simp: bump_ok_def)
    have "(?e + 8 \<le> c \<or> lim \<le> ?e) \<and> (line_of b c = line_of b x \<longrightarrow> c \<le> x)"
      using f x
    proof (cases rule: fits_cases)
      case before
      have "line_of b h \<le> line_of b c" using w(1) by (rule line_of_mono)
      with before e8 w(1) show ?thesis by auto
    next
      case used
      then show ?thesis using e by auto
    next
      case behind
      then show ?thesis using w by auto
    qed
    moreover have "b + 256 \<le> ?e" using l(1) by simp
    ultimately have "?m a = m a" if "?e \<le> a" "a < ?e + 8" for a
      using new_object_frame [of m b c sz lim at a] that d(4,7,13,14) by fastforce
    then have "Object_size ?m ?e = Object_size m ?e" unfolding Object_size_def by (rule load_cong)
    with z \<open>(?e + 8 \<le> c \<or> lim \<le> ?e) \<and> (line_of b c = line_of b x \<longrightarrow> c \<le> x)\<close> show ?thesis by simp
  qed
  then show ?thesis by (auto simp: chain_ok_def Let_def size)
qed

lemma new_object_chain_new:
  assumes f: "fits m b S K h c lim sz" and at: "at < 256"
  shows "chain_ok (new_object m b c sz lim at) b (insert c S) c"
proof -
  note d = fitsD [OF f]
  obtain j where j: "lim = line_addr b j" using d(3) by (auto simp: bump_ok_def)
  have "line_of b c < j" using d(4,7,8) j by (subst line_of_less_iff) auto
  then have le: "line_addr b (line_of b c) + 256 \<le> lim" unfolding j by (rule line_addr_mono)
  have "y \<le> c" if y: "y \<in> S" "line_of b y = line_of b c" for y
    using f y(1)
  proof (cases rule: fits_cases)
    case behind
    then show ?thesis using line_of_bounds [OF layoutD(1) [OF d(2) y(1)]] y(2) le by simp
  qed (use d(3) layoutD(3) [OF d(2) y(1)] in \<open>auto simp: bump_ok_def\<close>)
  then show ?thesis
    using le new_object_fields(3) [of sz b c at lim m] new_object_size_new(1) [OF f at] d at
    by (auto simp: chain_ok_def Let_def)
qed

lemma new_object_apart:
  assumes f: "fits m b S K h c lim sz" and at: "at < 256" and xy: "x \<in> insert c S" "y \<in> insert c S" "x < y"
  shows "apart (new_object m b c sz lim at) b x y"
proof -
  note d = fitsD [OF f]
  have w: "h \<le> c" using d(3) by (simp add: bump_ok_def)
  consider "x \<in> S" "y \<in> S" | "x \<in> S" "y = c" | "x = c" "y \<in> S" using xy by auto
  then show ?thesis
  proof cases
    case 1
    then show ?thesis using layout_apart [OF d(2) 1 xy(3)] new_object_sizes [OF f 1(1)] by (simp add: apart_def)
  next
    case 2
    have "x + Object_size m x \<le> c \<or> line_of b x + 2 \<le> line_of b c"
      using f 2(1) by (cases rule: fits_cases) (use w xy(3) 2(2) d(4,7) line_of_mono [of h c b] in auto)
    then show ?thesis using new_object_sizes [OF f 2(1)] 2(2) by (simp add: apart_def)
  next
    case 3
    have "lim \<le> y" using f 3(2) by (cases rule: fits_cases) (use w xy(3) 3(1) in auto)
    then show ?thesis using new_object_size_new(1) [OF f at] d(7) 3(1) by (simp add: apart_def)
  qed
qed

lemma new_object_header:
  assumes f: "fits m b S K h c lim sz" and at: "at < 256" and i: "i < 127"
  shows "header_ok (new_object m b c sz lim at) b (insert c S) i"
proof -
  note d = fitsD [OF f]
  let ?m = "new_object m b c sz lim at" and ?i = "line_of b c"
  have old: "header_ok m b S i" using d(2) i by (simp add: layout_def)
  have keep: "?m (b + 16 + i) = m (b + 16 + i)" if "i \<noteq> ?i \<or> hdr_object (m (b + 16 + i))"
  proof (rule ccontr)
    assume n: "?m (b + 16 + i) \<noteq> m (b + 16 + i)"
    have lt: "b + 16 + i < c" using i d(8) by simp
    from new_object_frame [OF n] that show False by (elim disjE conjE) (use lt in simp_all)
  qed
  consider "i \<noteq> ?i" | "i = ?i" "hdr_object (m (b + 16 + i))" | "i = ?i" "\<not> hdr_object (m (b + 16 + i))" by blast
  then show ?thesis
  proof cases
    case 1
    then show ?thesis using old keep by (auto simp: header_ok_def Let_def)
  next
    case 2
    let ?x = "line_addr b i + hdr_offset (m (b + 16 + i))"
    have x: "?x \<in> S" "line_of b ?x = i" using old 2(2) by (auto simp: header_ok_def Let_def)
    have "?x \<le> c"
      using f x(1)
    proof (cases rule: fits_cases)
      case behind
      obtain j where j: "lim = line_addr b j" using d(3) by (auto simp: bump_ok_def)
      have "?i < j" using d(4,7,8) j by (subst line_of_less_iff) auto
      moreover have "j \<le> line_of b ?x" using behind layoutD(1) [OF d(2) x(1)] j by (simp add: line_of_ge_iff)
      ultimately show ?thesis using x(2) 2(1) by simp
    qed (use d(3) layoutD(3) [OF d(2) x(1)] in \<open>auto simp: bump_ok_def\<close>)
    then show ?thesis using old keep 2 by (auto simp: header_ok_def Let_def)
  next
    case 3
    have hdr: "hdr_object (?m (b + 16 + i))" "hdr_offset (?m (b + 16 + i)) = c - line_addr b i"
      using new_object_fields(4,5) [of sz b c at m lim] Line_update_spec(2) [of b c] 3 d at by auto
    have "line_addr b i \<le> c" using line_of_bounds [OF d(8)] 3(1) by simp
    moreover have "\<forall>y \<in> S. line_of b y \<noteq> i" using old 3(2) by (auto simp: header_ok_def Let_def)
    ultimately show ?thesis using hdr 3(1) by (simp add: header_ok_def Let_def)
  qed
qed

lemma new_object_layout:
  assumes f: "fits m b S K h c lim sz" and at: "at < 256"
  shows "layout (new_object m b c sz lim at) b (insert c S)"
proof -
  note d = fitsD [OF f]
  have "well_placed (new_object m b c sz lim at) b c"
    using d bump_okD(4) [OF d(3)] new_object_size_new [OF f at] by (simp add: well_placed_def)
  moreover have "well_placed (new_object m b c sz lim at) b x" if "x \<in> S" for x
    using layoutD [OF d(2) that] new_object_sizes [OF f that] by (simp add: well_placed_def)
  ultimately show ?thesis
    using new_object_chain_old [OF f] new_object_chain_new [OF f at] new_object_apart [OF f at] new_object_header [OF f at]
    by (auto simp: layout_def)
qed

text \<open>The cursor behind the object.\<close>

lemma new_object_bump:
  assumes f: "fits m b S K h c lim sz" and at: "at < 256"
  shows "bump_ok (new_object m b c sz lim at) b (insert c S) (insert c K) h (c + sz) lim"
proof -
  note d = fitsD [OF f]
  have size: "Object_size (new_object m b c sz lim at) x = (if x = c then sz else Object_size m x)" if "x \<in> insert c S" for x
    using that new_object_sizes [OF f, of x] new_object_size_new [OF f at] by auto
  have "h \<le> c" using d(3) by (simp add: bump_ok_def)
  then show ?thesis using d(3,6,7) size by (auto simp: bump_ok_def)
qed

text \<open>A region of the same block that begins behind this one.\<close>

lemma new_object_other_region:
  assumes f: "fits m b S K h c lim sz" and at: "at < 256" and o: "bump_ok m b S K h' c' lim'" and le: "lim \<le> h'"
  shows "bump_ok (new_object m b c sz lim at) b (insert c S) (insert c K) h' c' lim'"
proof -
  note d = fitsD [OF f]
  have size: "Object_size (new_object m b c sz lim at) x = (if x = c then sz else Object_size m x)" if "x \<in> insert c S" for x
    using that new_object_sizes [OF f, of x] new_object_size_new [OF f at] by auto
  have c: "c < h'" "c + sz \<le> h'" using d(4,7) le by simp_all
  note O = o [unfolded bump_ok_def]
  show ?thesis
    unfolding bump_ok_def
  proof (intro conjI ballI impI)
    fix x assume x: "x \<in> insert c S"
    show "x + Object_size (new_object m b c sz lim at) x \<le> h' \<or> (x \<notin> insert c K \<and> line_of b x + 2 \<le> line_of b h')" if "x < h'"
    proof (cases "x = c")
      case False
      then show ?thesis using O x that by (simp add: size)
    qed (use c size in simp)
    assume r: "h' \<le> x" "x < lim'"
    then have "x \<in> S" "x \<noteq> c" using x c by auto
    with O r show "x + Object_size (new_object m b c sz lim at) x \<le> c'"
      "x + Object_size (new_object m b c sz lim at) x \<in> insert c S \<or> x + Object_size (new_object m b c sz lim at) x = c'"
      by (simp_all add: size)
  qed (use O in blast)+
qed

section \<open>The holes behind the cursor\<close>

lemma bump_ok_cong:
  assumes "bump_ok m b S K h c lim" and "\<And>x. x \<in> S \<Longrightarrow> Object_size m' x = Object_size m x"
    and "\<And>x. x \<in> S \<Longrightarrow> x \<in> K' \<longleftrightarrow> x \<in> K"
  shows "bump_ok m' b S K' h c lim"
  using assms unfolding bump_ok_def by simp

text \<open>
  The holes \<open>hs\<close>, as pairs of start and limit, that a hole pointer leads to; they lie in order behind \<open>lo\<close>, and no
  object begins in them.
\<close>

primrec holes_ok :: "mem \<Rightarrow> addr \<Rightarrow> addr set \<Rightarrow> addr set \<Rightarrow> addr \<Rightarrow> addr \<Rightarrow> (addr \<times> addr) list \<Rightarrow> bool" where
  "holes_ok m b S K lo nx [] \<longleftrightarrow> nx = 0"
| "holes_ok m b S K lo nx (hl # hs) \<longleftrightarrow> nx = fst hl \<and> lo \<le> fst hl \<and> fst hl < snd hl \<and> Hole_limit m nx = snd hl \<and>
     bump_ok m b S K (fst hl) (fst hl) (snd hl) \<and> holes_ok m b S K (snd hl) (Hole_next m nx) hs"

lemma holes_ok_cong:
  assumes "holes_ok m b S K lo nx hs" and "b + 256 \<le> lo" and "\<And>x. x \<in> S \<Longrightarrow> Object_size m' x = Object_size m x"
    and "\<And>x. x \<in> S \<Longrightarrow> x \<in> K' \<longleftrightarrow> x \<in> K" and "\<And>a. b + 256 \<le> a \<Longrightarrow> a < b + 32768 \<Longrightarrow> m' a = m a"
  shows "holes_ok m' b S K' lo nx hs"
  using assms(1,2)
proof (induction hs arbitrary: lo nx)
  case (Cons hl hs)
  have r: "nx = fst hl" "lo \<le> fst hl" "fst hl < snd hl" "bump_ok m b S K (fst hl) (fst hl) (snd hl)"
    "holes_ok m b S K (snd hl) (Hole_next m nx) hs" "Hole_limit m nx = snd hl" using Cons.prems(1) by auto
  have "fst hl + 256 \<le> snd hl \<and> snd hl \<le> b + 32768" using r(3,4) line_addr_mono by (auto simp: bump_ok_def line_addr_def)
  then have "Hole_limit m' nx = Hole_limit m nx" "Hole_next m' nx = Hole_next m nx"
    unfolding Hole_limit_def Hole_next_def using r(1,2) Cons.prems(2) by (auto intro!: load_cong assms(5))
  then show ?case using r bump_ok_cong [OF r(4) assms(3,4)] Cons.IH [OF r(5)] Cons.prems(2) by simp
qed simp

text \<open>Placing an object in the region before the holes.\<close>

lemma new_object_holes:
  assumes f: "fits m b S K h c lim sz" and at: "at < 256" and "holes_ok m b S K lo nx hs" and "lim \<le> lo"
  shows "holes_ok (new_object m b c sz lim at) b (insert c S) (insert c K) lo nx hs"
  using assms(3,4)
proof (induction hs arbitrary: lo nx)
  case (Cons hl hs)
  note d = fitsD [OF f]
  let ?m = "new_object m b c sz lim at"
  have r: "nx = fst hl" "lo \<le> fst hl" "fst hl < snd hl" "bump_ok m b S K (fst hl) (fst hl) (snd hl)"
    "holes_ok m b S K (snd hl) (Hole_next m nx) hs" "Hole_limit m nx = snd hl" using Cons.prems(1) by auto
  have "?m a = m a" if "lim \<le> a" for a
  proof (rule ccontr)
    assume n: "?m a \<noteq> m a"
    from new_object_frame [OF n] show False
      by (elim disjE conjE) (use that d(4,7,8,13,14) in simp_all)
  qed
  then have "Hole_limit ?m nx = Hole_limit m nx" "Hole_next ?m nx = Hole_next m nx"
    unfolding Hole_limit_def Hole_next_def using r(1,2) Cons.prems(2) by (auto intro!: load_cong)
  moreover have "bump_ok ?m b (insert c S) (insert c K) (fst hl) (fst hl) (snd hl)"
    by (rule new_object_other_region [OF f at r(4)]) (use r(2) Cons.prems(2) in simp)
  moreover have "holes_ok ?m b (insert c S) (insert c K) (snd hl) (Hole_next m nx) hs"
    by (rule Cons.IH [OF r(5)]) (use r(2,3) Cons.prems(2) in simp)
  ultimately show ?case using r by simp
qed simp

section \<open>A whole free block\<close>

lemma bump_ok_free: "is_block b \<Longrightarrow> bump_ok m b {} K (b + 256) (b + 256) (b + 32768)"
  using line_addr_dvd [of b 0] is_block_dvd8 [of b]
  by (auto simp: bump_ok_def line_addr_def intro!: exI [of _ 0] exI [of _ 127])

section \<open>Marks of a header\<close>

text \<open>The mark bit comes and goes without the rest.\<close>

lemma header_of_unmarked: "\<not> hdr_marked (header_of offset)"
  unfolding header_of_def hdr_marked_def bit_or_iff bit_and_iff LINE_OBJECT_OFFSET_MARK_def LINE_CONTAINS_OBJECT_def by simp

lemma hdr_mark_unmark:
  fixes h :: "8 word"
  assumes "\<not> hdr_marked h"
  shows "(h OR 1) AND NOT 1 = h"
proof (rule bit_word_eqI)
  fix n assume "n < LENGTH(8)"
  then show "bit ((h OR 1) AND NOT 1) n \<longleftrightarrow> bit h n"
    using assms by (cases n) (auto simp: hdr_marked_def bit_and_iff bit_or_iff bit_not_iff bit_1_iff)
qed

section \<open>Properties\<close>

text \<open>
  C37. A line header packs an offset and two flags in one byte and gives them back. \<open>LineHeader_setOffset\<close> fails one of its assertions
  for an offset that is negative, not below 256 or not a multiple of 8; for all others the header then names an object and is not
  marked, \<open>LineHeader_getOffset\<close> reads the offset back, marking sets the mark and keeps the offset, and unmarking restores the byte.
\<close>

theorem line_header_roundtrip:
  "if 0 \<le> offset \<and> offset < int LINE_SIZE \<and> offset mod int WORD_SIZE = 0
   then \<exists>m'. LineHeader_setOffset m flag offset = ret m' \<and> LineHeader_containsObject m' flag \<and> \<not> LineHeader_isMarked m' flag \<and>
     LineHeader_getOffset m' flag = ret offset \<and> m'(flag := m flag) = m \<and>
     LineHeader_isMarked (LineHeader_mark m' flag) flag \<and> LineHeader_getOffset (LineHeader_mark m' flag) flag = ret offset \<and>
     LineHeader_unmark (LineHeader_mark m' flag) flag = m'
   else \<exists>msg. LineHeader_setOffset m flag offset = Some (Inl (Assertion msg))"
proof (cases "0 \<le> offset \<and> offset < int LINE_SIZE \<and> offset mod int WORD_SIZE = 0")
  case True
  define k where "k = nat (offset div 8)"
  have k: "offset = 8 * int k" "k < 32" using True by (auto simp: k_def)
  let ?h = "header_of (8 * int k)"
  note h = header_of_offset [OF k(2)] header_of_object [of "8 * int k"] header_of_unmarked [of "8 * int k"] hdr_mark_unmark [of ?h] hdr_mark [of ?h]
  have "LineHeader_setOffset m flag offset = ret (m(flag := ?h))"
    using k by (simp add: LineHeader_setOffset_def header_of_def)
  then show ?thesis
    using True k(1) h by (auto simp: LineHeader_containsObject_iff LineHeader_isMarked_iff getOffset_eq LineHeader_mark_def LineHeader_unmark_def)
next
  case False
  then show ?thesis by (auto simp: LineHeader_setOffset_def guard_def)
qed

end
