(* ===== verification/Growth.thy ===== *)
theory Growth
  imports Block_Sweep
begin

text \<open>
  Growing the small object space: the blocks that \<open>growSmall\<close> and \<open>init\<close> append to the free list are initialised, and no
  byte of the old blocks changes but the links of the list.
\<close>

section \<open>Appending blocks\<close>

text \<open>The header of a fresh block is zero but for the link of its list.\<close>

definition fresh_header :: "mem \<Rightarrow> addr \<Rightarrow> bool" where
  "fresh_header m b \<longleftrightarrow> (\<forall>a. b \<le> a \<longrightarrow> a < b + 144 \<longrightarrow> \<not> (b + 8 \<le> a \<and> a < b + 16) \<longrightarrow> m a = 0)"

definition link_of :: "addr list \<Rightarrow> addr \<Rightarrow> bool" where
  "link_of bs a \<longleftrightarrow> (\<exists>b \<in> set bs. b + 8 \<le> a \<and> a < b + 16)"

lemma fresh_header_fields:
  assumes "fresh_header m b"
  shows "Block_isFree m b" "i < 127 \<Longrightarrow> m (b + 16 + i) = 0" "\<not> Block_isMarked m b"
proof -
  have z: "m a = 0" if "b \<le> a" "a < b + 144" "\<not> (b + 8 \<le> a \<and> a < b + 16)" for a
    using assms that by (simp add: fresh_header_def)
  show "Block_isFree m b" "\<not> Block_isMarked m b"
    using z [of "b + 1"] z [of b] by (simp_all add: Block_isFree_def Block_flag_def Block_isMarked_def load.simps)
  show "i < 127 \<Longrightarrow> m (b + 16 + i) = 0" using z [of "b + 16 + i"] by simp
qed

definition appended :: "mem \<Rightarrow> mem \<Rightarrow> BlockList \<Rightarrow> addr list \<Rightarrow> addr list \<Rightarrow> bool" where
  "appended m m' bl bs new \<longleftrightarrow> block_queue m' bl (bs @ new) \<and> (\<forall>b \<in> set new. fresh_header m' b) \<and>
     (\<forall>a. \<not> link_of bs a \<longrightarrow> (\<forall>b \<in> set new. \<not> (b \<le> a \<and> a < b + 144)) \<longrightarrow> m' a = m a)"

lemma init_push:
  assumes q: "block_queue m bl bs" and b: "is_block b" "b \<notin> set bs"
  obtains bl' m' where "BlockList_push bl (Block_init m b) b = (bl', m')" "appended m m' bl' bs [b]"
proof -
  have out: "Block_init m b a = m a" if "\<not> (b \<le> a \<and> a < b + 144)" for a using that by (auto simp: Block_init_def memzero_def)
  have q1: "block_queue (Block_init m b) bl bs"
  proof (rule block_queue_cong [OF q], rule Block_next_cong, rule out)
    fix x a assume x: "x \<in> set bs" and a: "x + 8 \<le> a" "a < x + 16"
    have "is_block x" "x \<noteq> b" using q x b by (auto simp: block_queue_def)
    from blocks_disjoint [OF this(1) b(1) this(2)] a show "\<not> (b \<le> a \<and> a < b + 144)" by auto
  qed
  obtain bl' m' where p: "BlockList_push bl (Block_init m b) b = (bl', m')" "block_queue m' bl' (bs @ [b])"
    using BlockList_push_queue [OF q1 b] by blast
  have fr: "m' a = Block_init m b a" if "\<not> (b + 8 \<le> a \<and> a < b + 16)" "\<not> link_of bs a" for a
    by (rule BlockList_push_frame [OF q1 that(1) _ p(1)]) (use that(2) in \<open>auto simp: link_of_def\<close>)
  have inside: "\<not> link_of bs a" if a: "b \<le> a" "a < b + 144" for a
  proof
    assume "link_of bs a"
    then obtain x where x: "x \<in> set bs" "x + 8 \<le> a" "a < x + 16" by (auto simp: link_of_def)
    have "is_block x" "x \<noteq> b" using q x(1) b by (auto simp: block_queue_def)
    from blocks_disjoint [OF this(1) b(1) this(2)] x a show False by auto
  qed
  have "m' a = 0" if "b \<le> a" "a < b + 144" "\<not> (b + 8 \<le> a \<and> a < b + 16)" for a
    using fr [OF that(3) inside [OF that(1,2)]] that(1,2) by (simp add: Block_init_def memzero_def)
  moreover have "m' a = m a" if "\<not> link_of bs a" "\<not> (b \<le> a \<and> a < b + 144)" for a
    using fr [OF _ that(1)] out [OF that(2)] that(2) by auto
  ultimately have "appended m m' bl' bs [b]" using p(2) by (simp add: appended_def fresh_header_def)
  with p(1) show thesis by (rule that)
qed

lemma appended_trans:
  assumes a: "appended m m1 bl1 bs [b]" and n: "appended m1 m2 bl2 (bs @ [b]) new"
    and b: "is_block b" "b \<notin> set new" "\<And>x. x \<in> set new \<Longrightarrow> is_block x"
  shows "appended m m2 bl2 bs (b # new)"
proof -
  have far: "\<not> (x \<le> a \<and> a < x + 144)" if "x \<in> set new" "b \<le> a" "a < b + 144" for x a
    using blocks_disjoint [OF b(1) b(3) [OF that(1)]] b(2) that by fastforce
  have own: "m2 a = m1 a" if "b \<le> a" "a < b + 144" "\<not> link_of (bs @ [b]) a" for a
    using n that far [OF _ that(1,2)] by (auto simp: appended_def)
  have "fresh_header m2 b"
    unfolding fresh_header_def
  proof (intro allI impI)
    fix a assume h: "b \<le> a" "a < b + 144" "\<not> (b + 8 \<le> a \<and> a < b + 16)"
    have "\<not> link_of bs a"
    proof
      assume "link_of bs a"
      then obtain x where x: "x \<in> set bs" "x + 8 \<le> a" "a < x + 16" by (auto simp: link_of_def)
      have "distinct (bs @ [b])" "is_block x" using a x(1) by (auto simp: appended_def block_queue_def)
      then show False using blocks_disjoint [of x b] b(1) x h by auto
    qed
    then have "m2 a = m1 a" using own [OF h(1,2)] h(3) by (auto simp: link_of_def)
    then show "m2 a = 0" using a h by (simp add: appended_def fresh_header_def)
  qed
  moreover have "m2 c = m c" if c: "\<not> link_of bs c" "\<forall>x \<in> set (b # new). \<not> (x \<le> c \<and> c < x + 144)" for c
  proof -
    have "\<not> link_of (bs @ [b]) c" using c by (auto simp: link_of_def)
    then have "m2 c = m1 c" using n c(2) by (simp add: appended_def)
    then show ?thesis using a c by (simp add: appended_def)
  qed
  ultimately show ?thesis using n by (auto simp: appended_def)
qed

lemma grow_blocks_spec:
  assumes "block_queue m bl bs" and "is_block cursor" and "cursor + k * BLOCK_SIZE < 2 ^ 64" and "i \<le> k"
    and "\<And>b. b \<in> set bs \<Longrightarrow> b < cursor + i * BLOCK_SIZE"
  shows "\<exists>bl' m'. grow_blocks cursor (int i) (int k) bl m = (bl', m') \<and>
    appended m m' bl' bs (map (\<lambda>j. cursor + j * BLOCK_SIZE) [i..<k])"
  using assms
proof (induction "k - i" arbitrary: i m bl bs)
  case 0
  then show ?case by (subst grow_blocks.simps) (simp add: appended_def)
next
  case (Suc d)
  note p = Suc.prems
  let ?b = "cursor + i * BLOCK_SIZE" and ?new = "map (\<lambda>j. cursor + j * BLOCK_SIZE) [Suc i..<k]"
  have i: "i < k" using Suc.hyps(2) by simp
  have blk: "is_block (cursor + j * BLOCK_SIZE)" if "j < k" for j
  proof -
    have "(j + 1) * BLOCK_SIZE \<le> k * BLOCK_SIZE" using that by (intro mult_le_mono1) simp
    then show ?thesis using p(2,3) by (auto simp: is_block_def intro!: dvd_add)
  qed
  obtain bl1 m1 where s: "BlockList_push bl (Block_init m ?b) ?b = (bl1, m1)" "appended m m1 bl1 bs [?b]"
    using init_push [OF p(1) blk [OF i]] p(5) by blast
  have q1: "block_queue m1 bl1 (bs @ [?b])" using s(2) by (simp add: appended_def)
  have "\<exists>bl' m'. grow_blocks cursor (int (Suc i)) (int k) bl1 m1 = (bl', m') \<and> appended m1 m' bl' (bs @ [?b]) ?new"
  proof (rule Suc.hyps(1) [OF _ q1 p(2,3)])
    fix b assume "b \<in> set (bs @ [?b])"
    then show "b < cursor + Suc i * BLOCK_SIZE" using p(5) [of b] by auto
  qed (use Suc.hyps(2) i in simp_all)
  then obtain bl2 m2 where r: "grow_blocks cursor (int (Suc i)) (int k) bl1 m1 = (bl2, m2)"
    "appended m1 m2 bl2 (bs @ [?b]) ?new" by blast
  have "appended m m2 bl2 bs (?b # ?new)"
    by (rule appended_trans [OF s(2) r(2) blk [OF i]]) (use blk in auto)
  moreover have "?b # ?new = map (\<lambda>j. cursor + j * BLOCK_SIZE) [i..<k]" using i by (simp add: upt_conv_Cons)
  moreover have "grow_blocks cursor (int i) (int k) bl m = (bl2, m2)"
    using r(1) s(1) i by (subst grow_blocks.simps) (simp add: Let_def add.commute)
  ultimately show ?case by metis
qed

text \<open>The loop of \<open>init\<close> is the same loop.\<close>

lemma init_blocks_grow:
  "i \<le> k \<Longrightarrow> init_blocks (cursor + i * BLOCK_SIZE) (cursor + k * BLOCK_SIZE) bl m = grow_blocks cursor (int i) (int k) bl m"
proof (induction "k - i" arbitrary: i bl m)
  case 0
  then show ?case by (subst init_blocks.simps, subst grow_blocks.simps) simp
next
  case (Suc d)
  have i: "i < k" using Suc.hyps(2) by simp
  have "init_blocks (cursor + Suc i * BLOCK_SIZE) (cursor + k * BLOCK_SIZE) bl' m' = grow_blocks cursor (int (Suc i)) (int k) bl' m'" for bl' m'
    by (rule Suc.hyps(1)) (use Suc.hyps(2) i in simp_all)
  then show ?case using i
    by (subst init_blocks.simps, subst grow_blocks.simps) (simp add: Let_def add.commute add.left_commute split: prod.splits)
qed

section \<open>The bounds of the heap\<close>

definition space_ok :: "GlobalAllocator \<Rightarrow> nat \<Rightarrow> bool" where
  "space_ok G n \<longleftrightarrow> 0 < n \<and> small_heap_size G = n * BLOCK_SIZE \<and> small_heap_stop G = small_heap_start G + n * BLOCK_SIZE \<and>
     small_heap_size G + large_heap_size G \<le> memory_limit G \<and> memory_limit G < 2 ^ 46 \<and>
     small_heap_start G + memory_limit G < 2 ^ 64"

text \<open>The number of blocks \<open>growSmall\<close> adds to \<open>n\<close> blocks: 30 percent, and at least one.\<close>

definition growth_blocks :: "nat \<Rightarrow> nat" where
  "growth_blocks n = (n * BLOCK_SIZE * GROWTH_RATE div 100 + BLOCK_SIZE - 1) div BLOCK_SIZE"

lemma growth_blocks_pos: "0 < n \<Longrightarrow> 0 < growth_blocks n"
  by (simp add: growth_blocks_def div_greater_zero_iff)

lemma growth_increment:
  assumes "space_ok G n"
  shows "ROUND_TO_NEXT_MULTIPLE (size_mul (small_heap_size G) GROWTH_RATE div 100) BLOCK_SIZE = growth_blocks n * BLOCK_SIZE"
    and "growth_blocks n * BLOCK_SIZE < 2 ^ 46"
proof -
  have n: "n * 32768 < 2 ^ 46" "small_heap_size G = n * 32768" using assms by (auto simp: space_ok_def)
  let ?x = "n * 32768 * 30 div 100"
  have x: "?x < 2 ^ 45" using n(1) by simp
  have "size_mul (small_heap_size G) GROWTH_RATE div 100 = ?x" using n by simp
  moreover have "ROUND_TO_NEXT_MULTIPLE ?x BLOCK_SIZE = growth_blocks n * BLOCK_SIZE"
    using x by (subst ROUND_small) (simp_all add: growth_blocks_def)
  ultimately show "ROUND_TO_NEXT_MULTIPLE (size_mul (small_heap_size G) GROWTH_RATE div 100) BLOCK_SIZE = growth_blocks n * BLOCK_SIZE"
    by (simp only:)
  have "growth_blocks n * BLOCK_SIZE \<le> ?x + 32767"
    using div_times_less_eq_dividend [of "?x + 32767" 32768] by (simp add: growth_blocks_def)
  with x show "growth_blocks n * BLOCK_SIZE < 2 ^ 46" by simp
qed

definition grown :: "GlobalAllocator \<Rightarrow> nat \<Rightarrow> BlockList \<Rightarrow> GlobalAllocator" where
  "grown G n bl = G\<lparr>small_heap_stop := small_heap_stop G + growth_blocks n * BLOCK_SIZE,
     small_heap_size := small_heap_size G + growth_blocks n * BLOCK_SIZE, free_list := bl\<rparr>"

definition new_blocks :: "GlobalAllocator \<Rightarrow> nat \<Rightarrow> addr list" where
  "new_blocks G n = map (\<lambda>j. small_heap_stop G + j * BLOCK_SIZE) [0..<growth_blocks n]"

lemma growSmall_spec:
  assumes sp: "space_ok (global g) n" and start: "is_block (small_heap_start (global g))"
    and q: "block_queue (heap g) (free_list (global g)) fs" and below: "\<And>b. b \<in> set fs \<Longrightarrow> b < small_heap_stop (global g)"
  shows "if small_heap_size (global g) + large_heap_size (global g) + growth_blocks n * BLOCK_SIZE > memory_limit (global g)
    then GlobalAllocator_growSmall g = abort_with ''GC: out of memory''
    else \<exists>bl m. GlobalAllocator_growSmall g = ret (g\<lparr>global := grown (global g) n bl, heap := m\<rparr>) \<and>
      appended (heap g) m bl fs (new_blocks (global g) n)"
proof -
  let ?G = "global g" and ?k = "growth_blocks n"
  note inc = growth_increment [OF sp]
  have small: "small_heap_size ?G + large_heap_size ?G < 2 ^ 46" using sp by (simp add: space_ok_def)
  have adds: "size_add (size_add (small_heap_size ?G) (large_heap_size ?G)) (?k * BLOCK_SIZE) =
      small_heap_size ?G + large_heap_size ?G + ?k * BLOCK_SIZE"
    "size_add (small_heap_size ?G) (?k * BLOCK_SIZE) = small_heap_size ?G + ?k * BLOCK_SIZE"
    using small inc(2) by simp_all
  have un: "GlobalAllocator_growSmall g =
      (if small_heap_size ?G + large_heap_size ?G + ?k * BLOCK_SIZE > memory_limit ?G then abort_with ''GC: out of memory''
       else case grow_blocks (small_heap_stop ?G) 0 (c_int (int (?k * BLOCK_SIZE div BLOCK_SIZE))) (free_list ?G) (heap g) of
         (bl, m) \<Rightarrow> ret (g\<lparr>global := grown ?G n bl, heap := m\<rparr>))"
    by (simp only: GlobalAllocator_growSmall_def Let_def inc(1) adds) (simp add: grown_def)
  show ?thesis
  proof (cases "small_heap_size ?G + large_heap_size ?G + ?k * BLOCK_SIZE > memory_limit ?G")
    case False
    have "?k < 2 ^ 31" using inc(2) by simp
    then have cnt: "c_int (int (?k * BLOCK_SIZE div BLOCK_SIZE)) = int ?k" by simp
    have top: "small_heap_stop ?G + ?k * BLOCK_SIZE < 2 ^ 64" using sp False by (auto simp: space_ok_def)
    have "is_block (small_heap_stop ?G)"
      using start sp top growth_blocks_pos [of n] by (auto simp: is_block_def space_ok_def intro!: dvd_add)
    from grow_blocks_spec [OF q this top, of 0] below obtain bl m where
      "grow_blocks (small_heap_stop ?G) 0 (int ?k) (free_list ?G) (heap g) = (bl, m)"
      "appended (heap g) m bl fs (new_blocks ?G n)" by (auto simp: new_blocks_def)
    then show ?thesis unfolding un cnt using False by auto
  qed (simp only: un if_True)
qed

end
