(* ===== verification/Small_Alloc.thy ===== *)
theory Small_Alloc
  imports Bump Growth
begin

text \<open>
  The small object space between two collections: which blocks the global allocator still has to hand out, which regions the
  local allocators bump through, and the proof that every allocation keeps this division. No two allocators share
  a block, the objects that matter are never overwritten, and none of the assertions of the allocators can fail.
\<close>

section \<open>The invariant\<close>

text \<open>A local allocator has two regions to bump through: one in its main block, one in its overflow block.\<close>

datatype slot = Main addr | Overflow addr

fun slot_block :: "(addr \<Rightarrow> LocalAllocator) \<Rightarrow> slot \<Rightarrow> addr" where
  "slot_block L (Main a) = la_block (L a)"
| "slot_block L (Overflow a) = overflow_block (L a)"

abbreviation owned :: "(addr \<Rightarrow> LocalAllocator) \<Rightarrow> slot list \<Rightarrow> addr list" where
  "owned L os \<equiv> map (slot_block L) os"

definition free_block :: "mem \<Rightarrow> addr set \<Rightarrow> addr \<Rightarrow> bool" where
  "free_block m S b \<longleftrightarrow> Block_isFree m b \<and> block_objects S b = {}"

definition recyclable_block :: "mem \<Rightarrow> addr set \<Rightarrow> addr set \<Rightarrow> addr \<Rightarrow> bool" where
  "recyclable_block m S K b \<longleftrightarrow> Block_isRecyclable m b \<and>
     (\<exists>i hs. i < 127 \<and> Block_first_free_line_index m b = int i \<and> hs \<noteq> [] \<and>
        holes_ok m b (block_objects S b) K (b + 256) (line_addr b i) hs)"

definition main_ok :: "mem \<Rightarrow> addr set \<Rightarrow> addr set \<Rightarrow> LocalAllocator \<Rightarrow> bool" where
  "main_ok m S K l \<longleftrightarrow>
     (\<exists>h hs. bump_ok m (la_block l) (block_objects S (la_block l)) K h (la_cursor l) (la_limit l) \<and>
        holes_ok m (la_block l) (block_objects S (la_block l)) K (la_limit l) (la_next l) hs)"

definition overflow_ok :: "mem \<Rightarrow> addr set \<Rightarrow> addr set \<Rightarrow> LocalAllocator \<Rightarrow> bool" where
  "overflow_ok m S K l \<longleftrightarrow>
     (\<exists>h. bump_ok m (overflow_block l) (block_objects S (overflow_block l)) K h (overflow_cursor l) (overflow_limit l))"

fun slot_ok :: "mem \<Rightarrow> addr set \<Rightarrow> addr set \<Rightarrow> (addr \<Rightarrow> LocalAllocator) \<Rightarrow> slot \<Rightarrow> bool" where
  "slot_ok m S K L (Main a) = main_ok m S K (L a)"
| "slot_ok m S K L (Overflow a) = overflow_ok m S K (L a)"

text \<open>
  \<open>S\<close> are the objects of the \<open>n\<close> blocks, \<open>K\<close> those that matter; \<open>fs\<close> and \<open>rs\<close> are the free and the recyclable list,
  \<open>os\<close> the slots of the local allocators.
\<close>

definition alloc_inv ::
  "mem \<Rightarrow> GlobalAllocator \<Rightarrow> (addr \<Rightarrow> LocalAllocator) \<Rightarrow> nat \<Rightarrow> addr set \<Rightarrow> addr set \<Rightarrow> slot list \<Rightarrow> addr list \<Rightarrow> addr list
   \<Rightarrow> bool" where
  "alloc_inv m G L n S K os fs rs \<longleftrightarrow>
     small_layout m (small_heap_start G) n S \<and> K \<subseteq> S \<and> space_ok G n \<and>
     block_queue m (free_list G) fs \<and> block_queue m (recyclable_list G) rs \<and>
     distinct (fs @ rs @ owned L os) \<and>
     set (fs @ rs @ owned L os) \<subseteq> set (blocks_from (small_heap_start G) n) \<and>
     (\<forall>b \<in> set fs. free_block m S b) \<and> (\<forall>b \<in> set rs. recyclable_block m S K b) \<and>
     (\<forall>s \<in> set os. slot_ok m S K L s)"

lemma alloc_invD:
  assumes "alloc_inv m G L n S K os fs rs"
  shows "small_layout m (small_heap_start G) n S" "K \<subseteq> S" "space_ok G n" "block_queue m (free_list G) fs"
    "block_queue m (recyclable_list G) rs" "distinct (fs @ rs @ owned L os)"
    "set (fs @ rs @ owned L os) \<subseteq> set (blocks_from (small_heap_start G) n)"
    "b \<in> set fs \<Longrightarrow> free_block m S b" "b \<in> set rs \<Longrightarrow> recyclable_block m S K b"
    "s \<in> set os \<Longrightarrow> slot_ok m S K L s"
  using assms by (auto simp: alloc_inv_def)

text \<open>Two slots never share a block.\<close>

lemma owned_distinct:
  assumes "distinct (owned L os)" and "s \<in> set os" "s' \<in> set os" "s' \<noteq> s"
  shows "slot_block L s' \<noteq> slot_block L s"
  using assms by (auto simp: distinct_map inj_on_def)

section \<open>Other blocks\<close>

text \<open>
  A change inside one block, together with objects that begin there, does not concern the other blocks. The links of the
  block lists may change at any time.
\<close>

definition same_block :: "mem \<Rightarrow> mem \<Rightarrow> addr \<Rightarrow> bool" where
  "same_block m m' b \<longleftrightarrow> (\<forall>a. b \<le> a \<longrightarrow> a < b + 32768 \<longrightarrow> \<not> (b + 8 \<le> a \<and> a < b + 16) \<longrightarrow> m' a = m a)"

lemma block_objects_insert:
  "is_block b \<Longrightarrow> is_block B \<Longrightarrow> b \<noteq> B \<Longrightarrow> B \<le> x \<Longrightarrow> x < B + 32768 \<Longrightarrow> block_objects (insert x S) b = block_objects S b"
  "B \<le> x \<Longrightarrow> x < B + 32768 \<Longrightarrow> block_objects (insert x S) B = insert x (block_objects S B)"
  using blocks_disjoint [of b B] by (auto simp: block_objects_def)

lemma same_block_size:
  assumes "same_block m m' b" and "layout m b S" and "x \<in> S"
  shows "Object_size m' x = Object_size m x"
  unfolding Object_size_def
  by (rule load_cong) (use assms(1) layoutD [OF assms(2,3)] in \<open>auto simp: same_block_def\<close>)

lemma same_block_fields:
  assumes "same_block m m' b"
  shows "Block_isFree m' b = Block_isFree m b" "Block_isRecyclable m' b = Block_isRecyclable m b"
    "Block_first_free_line_index m' b = Block_first_free_line_index m b"
  unfolding Block_isFree_def Block_isRecyclable_def Block_flag_def Block_first_free_line_index_def
  using assms by (auto simp: same_block_def intro!: load_cong arg_cong [where f = int16] arg_cong [where f = "\<lambda>x. x = _"])

text \<open>What holds of an untouched block with the same objects goes on to hold.\<close>

definition untouched :: "mem \<Rightarrow> mem \<Rightarrow> addr set \<Rightarrow> addr set \<Rightarrow> addr set \<Rightarrow> addr set \<Rightarrow> addr \<Rightarrow> bool" where
  "untouched m m' S S' K K' b \<longleftrightarrow> is_block b \<and> layout m b (block_objects S b) \<and> same_block m m' b \<and>
     block_objects S' b = block_objects S b \<and> (\<forall>x \<in> block_objects S b. x \<in> K' \<longleftrightarrow> x \<in> K)"

lemma untouched_keeps:
  assumes u: "untouched m m' S S' K K' b"
  shows "layout m' b (block_objects S' b)"
    and "bump_ok m b (block_objects S b) K h c lim \<Longrightarrow> bump_ok m' b (block_objects S' b) K' h c lim"
    and "holes_ok m b (block_objects S b) K lo nx hs \<Longrightarrow> b + 256 \<le> lo \<Longrightarrow> holes_ok m' b (block_objects S' b) K' lo nx hs"
    and "free_block m S b \<Longrightarrow> free_block m' S' b"
    and "recyclable_block m S K b \<Longrightarrow> recyclable_block m' S' K' b"
proof -
  have g: "is_block b" "layout m b (block_objects S b)" "same_block m m' b" "block_objects S' b = block_objects S b"
    "\<And>x. x \<in> block_objects S b \<Longrightarrow> x \<in> K' \<longleftrightarrow> x \<in> K"
    using u by (auto simp: untouched_def)
  have size: "Object_size m' x = Object_size m x" if "x \<in> block_objects S b" for x
    using same_block_size [OF g(3,2) that] .
  have bytes: "m' a = m a" if "b + 256 \<le> a" "a < b + 32768" for a
    using g(3) that by (simp add: same_block_def)
  show "layout m' b (block_objects S' b)"
    unfolding g(4) by (rule layout_marks [OF g(2) is_block_dvd8 [OF g(1)]]) (use g(3) in \<open>auto simp: same_block_def\<close>)
  show "bump_ok m b (block_objects S b) K h c lim \<Longrightarrow> bump_ok m' b (block_objects S' b) K' h c lim"
    unfolding g(4) by (rule bump_ok_cong [OF _ size g(5)])
  show hole: "holes_ok m b (block_objects S b) K lo nx hs \<Longrightarrow> b + 256 \<le> lo \<Longrightarrow> holes_ok m' b (block_objects S' b) K' lo nx hs"
    for lo nx hs unfolding g(4) by (rule holes_ok_cong [OF _ _ size g(5) bytes])
  show "free_block m S b \<Longrightarrow> free_block m' S' b"
    using g(4) same_block_fields(1) [OF g(3)] by (simp add: free_block_def)
  show "recyclable_block m S K b \<Longrightarrow> recyclable_block m' S' K' b"
    using hole same_block_fields(2,3) [OF g(3)] unfolding recyclable_block_def by fastforce
qed

lemma untouched_slot:
  assumes "untouched m m' S S' K K' (slot_block L s)" and "slot_ok m S K L s"
  shows "slot_ok m' S' K' L s"
proof (cases s)
  case (Main a)
  then show ?thesis
    using assms untouched_keeps(2,3) [of m m' S S' K K' "la_block (L a)"] bump_okD unfolding main_ok_def
    by (simp add: main_ok_def) (meson order_trans)
next
  case (Overflow a)
  then show ?thesis
    using assms untouched_keeps(2) [of m m' S S' K K' "overflow_block (L a)"] by (auto simp: overflow_ok_def)
qed

section \<open>Placing an object keeps the invariant\<close>

lemma new_object_untouched:
  assumes l: "small_layout m start n S" and B: "B \<in> set (blocks_from start n)" and b: "b \<in> set (blocks_from start n)" "b \<noteq> B"
    and f: "fits m B (block_objects S B) K h c lim sz"
  shows "untouched m (new_object m B c sz lim at) S (insert c S) K (insert c K) b"
proof -
  note d = fitsD [OF f] and lb = small_layoutD [OF l b(1)] and lB = small_layoutD [OF l B]
  have dis: "b + 32768 \<le> B \<or> B + 32768 \<le> b" using blocks_disjoint [OF lb(1) lB(1) b(2)] by simp
  have "new_object m B c sz lim at a = m a" if a: "b \<le> a" "a < b + 32768" for a
  proof (rule ccontr)
    assume n: "new_object m B c sz lim at a \<noteq> m a"
    have "lim \<le> B + 32768" using bump_okD(4) [OF d(3)] .
    with new_object_frame [OF n] d(4,7,8,13,14) have "B \<le> a \<and> a < B + 32768" by (elim disjE conjE) auto
    with dis a show False by auto
  qed
  moreover have "block_objects (insert c S) b = block_objects S b"
    by (rule block_objects_insert(1) [OF lb(1) lB(1) b(2)]) (use d(8,9) in auto)
  moreover have "x \<noteq> c" if "x \<in> block_objects S b" for x using that dis d(8,9) by (auto simp: block_objects_def)
  ultimately show ?thesis using lb by (auto simp: untouched_def same_block_def)
qed

lemma new_object_small_layout:
  assumes l: "small_layout m start n S" and B: "B \<in> set (blocks_from start n)"
    and f: "fits m B (block_objects S B) K h c lim sz" and at: "at < 256"
  shows "small_layout (new_object m B c sz lim at) start n (insert c S)"
proof -
  note d = fitsD [OF f] and lB = small_layoutD [OF l B]
  have "layout (new_object m B c sz lim at) b (block_objects (insert c S) b)" if "b \<in> set (blocks_from start n)" for b
  proof (cases "b = B")
    case True
    have "block_objects (insert c S) B = insert c (block_objects S B)" by (rule block_objects_insert(2)) (use d(8,9) in auto)
    then show ?thesis using new_object_layout [OF f at] True by simp
  next
    case False
    then show ?thesis using untouched_keeps(1) [OF new_object_untouched [OF l B that _ f]] by simp
  qed
  then show ?thesis using l lB(4,5) d(8,9) by (auto simp: small_layout_def)
qed

lemma new_object_links:
  assumes f: "fits m B S K h c lim sz" and "is_block b" "is_block B"
  shows "Block_next (new_object m B c sz lim at) b = Block_next m b"
  unfolding Block_next_def
proof (rule load_cong, rule ccontr)
  note d = fitsD [OF f]
  fix a assume a: "b + 8 \<le> a" "a < b + 8 + 8" and n: "new_object m B c sz lim at a \<noteq> m a"
  have "lim \<le> B + 32768" using bump_okD(4) [OF d(3)] .
  with new_object_frame [OF n] d(4,7,8,13,14) have "B + 16 \<le> a \<and> a < B + 32768" by (elim disjE conjE) auto
  with a blocks_disjoint [OF assms(2,3)] show False by (cases "b = B") auto
qed

lemma alloc_inv_blocks:
  assumes "alloc_inv m G L n S K os fs rs" and "b \<in> set fs \<union> set rs \<union> set (owned L os)"
  shows "b \<in> set (blocks_from (small_heap_start G) n)" "is_block b"
proof -
  show "b \<in> set (blocks_from (small_heap_start G) n)" using assms alloc_invD(7) by fastforce
  then show "is_block b" using small_layoutD(1) [OF alloc_invD(1) [OF assms(1)]] by blast
qed

text \<open>An object placed in the block of the slot \<open>s\<close>, whose allocator is updated to \<open>L'\<close>.\<close>

lemma place_keeps:
  assumes inv: "alloc_inv m G L n S K os fs rs" and s: "s \<in> set os"
    and f: "fits m (slot_block L s) (block_objects S (slot_block L s)) K h c lim sz" and at: "at < 256"
    and L': "\<And>s'. s' \<in> set os \<Longrightarrow> slot_block L' s' = slot_block L s'"
      "\<And>s'. s' \<in> set os \<Longrightarrow> s' \<noteq> s \<Longrightarrow> slot_ok m S K L s' \<Longrightarrow> slot_ok m S K L' s'"
    and ok: "slot_ok (new_object m (slot_block L s) c sz lim at) (insert c S) (insert c K) L' s"
  shows "alloc_inv (new_object m (slot_block L s) c sz lim at) G L' n (insert c S) (insert c K) os fs rs"
proof -
  note i = alloc_invD [OF inv] and blk = alloc_inv_blocks [OF inv]
  let ?B = "slot_block L s" and ?m = "new_object m (slot_block L s) c sz lim at"
  have BO: "?B \<in> set (owned L os)" using s by simp
  have own: "owned L' os = owned L os" using L'(1) by simp
  have un: "untouched m ?m S (insert c S) K (insert c K) b" if "b \<in> set fs \<union> set rs \<union> set (owned L os)" "b \<noteq> ?B" for b
    using new_object_untouched [OF i(1) blk(1) blk(1) that(2) f] that(1) BO by blast
  have nB: "?B \<notin> set fs" "?B \<notin> set rs" using BO i(6) by auto
  have "block_queue ?m (free_list G) fs"
    by (rule block_queue_cong [OF i(4)], rule new_object_links [OF f]) (use blk(2) BO in auto)
  moreover have "block_queue ?m (recyclable_list G) rs"
    by (rule block_queue_cong [OF i(5)], rule new_object_links [OF f]) (use blk(2) BO in auto)
  moreover have "\<forall>b \<in> set fs. free_block ?m (insert c S) b"
    using untouched_keeps(4) [OF un i(8)] nB(1) by blast
  moreover have "\<forall>b \<in> set rs. recyclable_block ?m (insert c S) (insert c K) b"
    using untouched_keeps(5) [OF un i(9)] nB(2) by blast
  moreover have "slot_ok ?m (insert c S) (insert c K) L' s'" if s': "s' \<in> set os" for s'
  proof (cases "s' = s")
    case False
    have "slot_block L s' \<noteq> ?B" using owned_distinct [of L os s s'] i(6) s s' False by simp
    then have "untouched m ?m S (insert c S) K (insert c K) (slot_block L' s')"
      using un s' by (simp add: L'(1) [OF s'])
    then show ?thesis by (rule untouched_slot [OF _ L'(2) [OF s' False i(10) [OF s']]])
  qed (use ok in simp)
  moreover have "small_layout ?m (small_heap_start G) n (insert c S)"
    by (rule new_object_small_layout [OF i(1) blk(1) f at]) (use BO in simp)
  ultimately show ?thesis using i(2,3,6,7) by (auto simp: alloc_inv_def own)
qed

lemma objects_insert_in_block: "fits m B T K h c lim sz \<Longrightarrow> block_objects (insert c S) B = insert c (block_objects S B)"
  by (rule block_objects_insert(2)) (use fitsD(8,9) in fastforce)+

text \<open>The region of a slot.\<close>

fun slot_cursor :: "(addr \<Rightarrow> LocalAllocator) \<Rightarrow> slot \<Rightarrow> addr" where
  "slot_cursor L (Main a) = la_cursor (L a)"
| "slot_cursor L (Overflow a) = overflow_cursor (L a)"

fun slot_limit :: "(addr \<Rightarrow> LocalAllocator) \<Rightarrow> slot \<Rightarrow> addr" where
  "slot_limit L (Main a) = la_limit (L a)"
| "slot_limit L (Overflow a) = overflow_limit (L a)"

fun advance :: "(addr \<Rightarrow> LocalAllocator) \<Rightarrow> slot \<Rightarrow> addr \<Rightarrow> addr \<Rightarrow> LocalAllocator" where
  "advance L (Main a) c = L(a := (L a)\<lparr>la_cursor := c\<rparr>)"
| "advance L (Overflow a) c = L(a := (L a)\<lparr>overflow_cursor := c\<rparr>)"

lemma slot_fits:
  assumes inv: "alloc_inv m G L n S K os fs rs" and s: "s \<in> set os"
    and sz: "16 \<le> sz" "sz \<le> 8192" "8 dvd sz" and fit: "slot_cursor L s + sz \<le> slot_limit L s"
  obtains h where "fits m (slot_block L s) (block_objects S (slot_block L s)) K h (slot_cursor L s) (slot_limit L s) sz"
proof -
  note i = alloc_invD [OF inv] and blk = alloc_inv_blocks [OF inv, of "slot_block L s"]
  have "\<exists>h. bump_ok m (slot_block L s) (block_objects S (slot_block L s)) K h (slot_cursor L s) (slot_limit L s)"
    using i(10) [OF s] by (cases s) (auto simp: main_ok_def overflow_ok_def)
  then show thesis
    using that blk s sz fit small_layoutD(3) [OF i(1) blk(1)] by (auto simp: fits_def)
qed

lemma place_slot:
  assumes inv: "alloc_inv m G L n S K os fs rs" and s: "s \<in> set os"
    and sz: "16 \<le> sz" "sz \<le> 8192" "8 dvd sz" and fit: "slot_cursor L s + sz \<le> slot_limit L s" and at: "at < 256"
  defines "c \<equiv> slot_cursor L s"
  shows "alloc_inv (new_object m (slot_block L s) c sz (slot_limit L s) at) G (advance L s (c + sz)) n
    (insert c S) (insert c K) os fs rs"
proof -
  obtain h0 where f0: "fits m (slot_block L s) (block_objects S (slot_block L s)) K h0 (slot_cursor L s) (slot_limit L s) sz"
    by (rule slot_fits [OF inv s sz fit])
  let ?m = "new_object m (slot_block L s) c sz (slot_limit L s) at"
  have "slot_ok ?m (insert c S) (insert c K) (advance L s (c + sz)) s"
  proof (cases s)
    case (Main a)
    obtain h hs where m: "bump_ok m (la_block (L a)) (block_objects S (la_block (L a))) K h (la_cursor (L a)) (la_limit (L a))"
      "holes_ok m (la_block (L a)) (block_objects S (la_block (L a))) K (la_limit (L a)) (la_next (L a)) hs"
      using alloc_invD(10) [OF inv s] Main by (auto simp: main_ok_def)
    have f: "fits m (la_block (L a)) (block_objects S (la_block (L a))) K h (la_cursor (L a)) (la_limit (L a)) sz"
      using f0 m(1) Main by (simp add: fits_def)
    show ?thesis
      using new_object_bump [OF f at] new_object_holes [OF f at m(2)] objects_insert_in_block [OF f, of S] Main
      by (auto simp: main_ok_def c_def)
  next
    case (Overflow a)
    then show ?thesis
      using new_object_bump [OF f0 at] objects_insert_in_block [OF f0, of S] by (auto simp: overflow_ok_def c_def)
  qed
  moreover have "slot_block (advance L s (c + sz)) s' = slot_block L s'" for s'
    by (cases s; cases s') simp_all
  moreover have "slot_ok m S K L s' \<Longrightarrow> slot_ok m S K (advance L s (c + sz)) s'" if "s' \<noteq> s" for s'
    using that by (cases s; cases s') (auto simp: main_ok_def overflow_ok_def)
  ultimately show ?thesis
    by (intro place_keeps [OF inv s f0 [folded c_def] at])
qed

section \<open>Growing keeps the invariant\<close>

lemma blocks_from_append: "blocks_from a (n + k) = blocks_from a n @ map (\<lambda>j. a + n * BLOCK_SIZE + j * BLOCK_SIZE) [0..<k]"
proof (induction k)
  case (Suc k)
  have "blocks_from a (n + Suc k) = blocks_from a (n + k) @ [a + (n + k) * BLOCK_SIZE]" by (simp add: blocks_from_def)
  with Suc show ?case by (simp add: algebra_simps)
qed simp

lemma grown_sel [simp]:
  "small_heap_start (grown G n bl) = small_heap_start G" "large_heap_size (grown G n bl) = large_heap_size G"
  "memory_limit (grown G n bl) = memory_limit G" "free_list (grown G n bl) = bl" "recyclable_list (grown G n bl) = recyclable_list G"
  "small_heap_size (grown G n bl) = small_heap_size G + growth_blocks n * BLOCK_SIZE"
  "small_heap_stop (grown G n bl) = small_heap_stop G + growth_blocks n * BLOCK_SIZE"
  by (simp_all add: grown_def)

lemma fresh_layout: "fresh_header m b \<Longrightarrow> layout m b {}"
  by (simp add: layout_def header_ok_def hdr_object_def Let_def fresh_header_fields(2))

lemma link_outside:
  assumes "is_block b" "b \<le> a" "a < b + 32768" and "\<And>f. f \<in> set fs \<Longrightarrow> is_block f"
    and "\<not> (b + 8 \<le> a \<and> a < b + 16) \<or> b \<notin> set fs"
  shows "\<not> link_of fs a"
proof
  assume "link_of fs a"
  then obtain f where f: "f \<in> set fs" "f + 8 \<le> a" "a < f + 16" by (auto simp: link_of_def)
  then show False using blocks_disjoint [OF assms(4) assms(1), of f] assms(2,3,5) by (cases "f = b") auto
qed

lemma grow_keeps:
  assumes inv: "alloc_inv m G L n S K os fs rs" and ap: "appended m m' bl fs (new_blocks G n)"
    and room: "small_heap_size G + large_heap_size G + growth_blocks n * BLOCK_SIZE \<le> memory_limit G"
  shows "alloc_inv m' (grown G n bl) L (n + growth_blocks n) S K os (fs @ new_blocks G n) rs"
proof -
  note i = alloc_invD [OF inv] and blk = alloc_inv_blocks [OF inv]
  let ?k = "growth_blocks n" and ?s = "small_heap_start G"
  have stop: "small_heap_stop G = ?s + n * BLOCK_SIZE" using i(3) by (simp add: space_ok_def)
  have bs: "blocks_from ?s (n + ?k) = blocks_from ?s n @ new_blocks G n"
    by (simp add: blocks_from_append new_blocks_def stop)
  have top: "?s + (n + ?k) * BLOCK_SIZE < 2 ^ 64"
    using room i(3) by (auto simp: space_ok_def algebra_simps)
  have start: "is_block ?s" using i(1,3) top by (auto simp: small_layout_def space_ok_def is_block_def)
  have new: "?s + n * BLOCK_SIZE \<le> b" "is_block b" if "b \<in> set (new_blocks G n)" for b
    using that blocks_from_blocks [OF start top, of b] by (auto simp: bs) (auto simp: new_blocks_def stop)
  have old: "b + 32768 \<le> ?s + n * BLOCK_SIZE" if "b \<in> set (blocks_from ?s n)" for b
    using blocks_from_bounds [OF that] by simp
  have same: "same_block m m' b" if b: "b \<in> set (blocks_from ?s n)" for b
    unfolding same_block_def
  proof (intro allI impI)
    fix a assume a: "b \<le> a" "a < b + 32768" "\<not> (b + 8 \<le> a \<and> a < b + 16)"
    have "\<not> link_of fs a" by (rule link_outside [OF small_layoutD(1) [OF i(1) b]]) (use a blk(2) in auto)
    moreover have "\<not> (c \<le> a \<and> a < c + 144)" if "c \<in> set (new_blocks G n)" for c
      using new(1) [OF that] old [OF b] a by simp
    ultimately show "m' a = m a" using ap by (simp add: appended_def)
  qed
  have un: "untouched m m' S S K K b" if "b \<in> set (blocks_from ?s n)" for b
    using small_layoutD [OF i(1) that] same [OF that] by (simp add: untouched_def)
  have empty: "block_objects S b = {}" if "b \<in> set (new_blocks G n)" for b
    using new(1) [OF that] i(1) by (fastforce simp: block_objects_def small_layout_def)
  have fresh: "fresh_header m' b" if "b \<in> set (new_blocks G n)" for b using ap that by (simp add: appended_def)
  have "layout m' b (block_objects S b)" if "b \<in> set (blocks_from ?s (n + ?k))" for b
    using that untouched_keeps(1) [OF un, of b] fresh_layout [OF fresh, of b] empty [of b] by (auto simp: bs)
  then have "small_layout m' ?s (n + ?k) S"
    using i(1) top by (fastforce simp: small_layout_def)
  moreover have "block_queue m' (recyclable_list G) rs"
  proof (rule block_queue_cong [OF i(5)], rule Block_next_cong)
    fix b a assume b: "b \<in> set rs" and a: "b + 8 \<le> a" "a < b + 16"
    have "\<not> link_of fs a" by (rule link_outside [of b]) (use a b blk(2) i(6) in auto)
    moreover have "\<not> (c \<le> a \<and> a < c + 144)" if "c \<in> set (new_blocks G n)" for c
      using new(1) [OF that] old [OF blk(1), of b] b a by simp
    ultimately show "m' a = m a" using ap by (simp add: appended_def)
  qed
  moreover have "distinct (fs @ new_blocks G n)" using ap by (simp add: appended_def block_queue_def)
  moreover have "set (new_blocks G n) \<inter> set (blocks_from ?s n) = {}" using new(1) old by fastforce
  moreover have "\<forall>b \<in> set (fs @ new_blocks G n). free_block m' S b"
    using untouched_keeps(4) [OF un i(8)] blk(1) fresh_header_fields(1) [OF fresh] empty by (auto simp: free_block_def)
  moreover have "\<forall>b \<in> set rs. recyclable_block m' S K b" using untouched_keeps(5) [OF un i(9)] blk(1) by blast
  moreover have "slot_ok m' S K L s" if "s \<in> set os" for s
    using untouched_slot [OF un i(10) [OF that]] blk(1) [of "slot_block L s"] that by simp
  moreover have "space_ok (grown G n bl) (n + ?k)" using i(3) room by (auto simp: space_ok_def algebra_simps)
  ultimately show ?thesis
    using i(2,6,7) ap by (auto simp: alloc_inv_def bs appended_def)
qed

section \<open>What is kept\<close>

text \<open>Every byte of the objects that matter.\<close>

definition kept :: "addr set \<Rightarrow> mem \<Rightarrow> mem \<Rightarrow> bool" where
  "kept K m m' \<longleftrightarrow> (\<forall>x \<in> K. same_bytes m m' x (x + Object_size m x))"

lemma kept_refl [simp]: "kept K m m"
  by (simp add: kept_def)

lemma kept_trans:
  assumes "kept K m m1" "kept K m1 m2" and "small_layout m start n S" "K \<subseteq> S"
  shows "kept K m m2"
  unfolding kept_def
proof
  fix x assume x: "x \<in> K"
  have s: "same_bytes m m1 x (x + Object_size m x)" using assms(1) x by (simp add: kept_def)
  have "16 \<le> Object_size m x" using small_layout_object [OF assms(3)] x assms(4) by blast
  then have "Object_size m1 x = Object_size m x"
    using load_same_bytes [OF s, of x 8] by (simp add: Object_size_def)
  with assms(2) x have "same_bytes m1 m2 x (x + Object_size m x)" by (auto simp: kept_def)
  with s show "same_bytes m m2 x (x + Object_size m x)" by (rule same_bytes_trans)
qed

lemma place_kept:
  assumes l: "small_layout m start n S" and K: "K \<subseteq> S" and B: "B \<in> set (blocks_from start n)"
    and f: "fits m B (block_objects S B) K h c lim sz"
  shows "kept K m (new_object m B c sz lim at)" and "c \<notin> S"
    and "x \<in> K \<Longrightarrow> x + Object_size m x \<le> c \<or> c + sz \<le> x"
proof -
  note d = fitsD [OF f] and lB = small_layoutD [OF l B]
  have top: "c + sz \<le> B + 32768" using bump_okD(4) [OF d(3)] d(7) by simp
  have both: "same_bytes m (new_object m B c sz lim at) x (x + Object_size m x) \<and> (x + Object_size m x \<le> c \<or> c + sz \<le> x)"
    if x: "x \<in> K" for x
  proof -
    obtain b where b: "b \<in> set (blocks_from start n)" "x \<in> block_objects S b" "b + 256 \<le> x" "x + Object_size m x \<le> b + 32768"
      using small_layout_object [OF l] x K by blast
    show ?thesis
    proof (cases "b = B")
      case True
      then show ?thesis using new_object_keeps [OF f _ x] b(2) by simp
    next
      case False
      have "same_block m (new_object m B c sz lim at) b"
        using new_object_untouched [OF l B b(1) False f] by (simp add: untouched_def)
      moreover have "b + 32768 \<le> B \<or> B + 32768 \<le> b"
        using blocks_disjoint [OF small_layoutD(1) [OF l b(1)] lB(1) False] by simp
      ultimately show ?thesis using b(3,4) d(8) top by (auto simp: same_block_def same_bytes_def)
    qed
  qed
  show "kept K m (new_object m B c sz lim at)" using both by (simp add: kept_def)
  show "x \<in> K \<Longrightarrow> x + Object_size m x \<le> c \<or> c + sz \<le> x" using both by blast
  show "c \<notin> S"
    using fits_fresh [OF f] d(8,9) by (auto simp: block_objects_def)
qed

lemma grow_kept:
  assumes inv: "alloc_inv m G L n S K os fs rs" and ap: "appended m m' bl fs (new_blocks G n)"
  shows "kept K m m'"
  unfolding kept_def same_bytes_def
proof (intro ballI allI impI)
  note i = alloc_invD [OF inv] and blk = alloc_inv_blocks [OF inv]
  fix x a assume x: "x \<in> K" and a: "x \<le> a" "a < x + Object_size m x"
  obtain b where b: "b \<in> set (blocks_from (small_heap_start G) n)" "b + 256 \<le> x" "x + Object_size m x \<le> b + 32768"
    using small_layout_object [OF i(1)] x i(2) by blast
  have "\<not> link_of fs a" by (rule link_outside [OF small_layoutD(1) [OF i(1) b(1)]]) (use a b blk(2) in auto)
  moreover have "\<not> (c \<le> a \<and> a < c + 144)" if "c \<in> set (new_blocks G n)" for c
  proof -
    have "small_heap_start G + n * BLOCK_SIZE \<le> c" using that i(3) by (auto simp: new_blocks_def space_ok_def)
    then show ?thesis using a b blocks_from_bounds [OF b(1)] by simp
  qed
  ultimately show "m a = m' a" using ap by (simp add: appended_def)
qed

section \<open>Taking blocks from the lists\<close>

definition alloc_state :: "'a lheap_scheme \<Rightarrow> nat \<Rightarrow> addr set \<Rightarrow> addr set \<Rightarrow> slot list \<Rightarrow> addr list \<Rightarrow> addr list \<Rightarrow> bool" where
  "alloc_state g n S K os fs rs \<longleftrightarrow> alloc_inv (heap g) (global g) (locals g) n S K os fs rs"

text \<open>No collection starts: one is running, or too little was allocated since the last one.\<close>

definition quiet :: "'a gheap_scheme \<Rightarrow> bool" where
  "quiet g \<longleftrightarrow> is_collecting g \<or> (free_space_divisor (global g) \<noteq> 0 \<and>
     allocated_bytes_since_collect (global g) < GlobalAllocator_heapSize (global g) div free_space_divisor (global g))"

lemma quiet_tryCollect: "quiet g \<Longrightarrow> GlobalAllocator_tryCollect collect g = ret (g, False)"
  by (auto simp: quiet_def GlobalAllocator_tryCollect_def GC_is_collecting_def GlobalAllocator_allocatedBytesSinceCollect_def)

text \<open>What an allocation leaves alone, beside the heap and its own allocator.\<close>

definition same_large :: "GlobalAllocator \<Rightarrow> GlobalAllocator \<Rightarrow> bool" where
  "same_large G G' \<longleftrightarrow> small_heap_start G' = small_heap_start G \<and> memory_limit G' = memory_limit G \<and>
     large_heap_start G' = large_heap_start G \<and> large_heap_stop G' = large_heap_stop G \<and>
     large_heap_size G' = large_heap_size G \<and> large_chunk_list G' = large_chunk_list G \<and>
     finalizers G' = finalizers G \<and> free_space_divisor G' = free_space_divisor G"

definition outside :: "GlobalAllocator \<Rightarrow> mem \<Rightarrow> mem \<Rightarrow> bool" where
  "outside G m m' \<longleftrightarrow> (\<forall>a. a < small_heap_start G \<or> small_heap_start G + memory_limit G \<le> a \<longrightarrow> m' a = m a)"

definition steady :: "'a lheap_scheme \<Rightarrow> 'a lheap_scheme \<Rightarrow> bool" where
  "steady g g' \<longleftrightarrow> lock_depth g' = lock_depth g \<and> is_collecting g' = is_collecting g \<and>
     same_large (global g) (global g') \<and> outside (global g) (heap g) (heap g') \<and>
     allocated_bytes_since_collect (global g') = allocated_bytes_since_collect (global g) \<and>
     GlobalAllocator_heapSize (global g) \<le> GlobalAllocator_heapSize (global g') \<and> lheap.more g' = lheap.more g"

lemma same_large_trans [trans]: "same_large G G1 \<Longrightarrow> same_large G1 G2 \<Longrightarrow> same_large G G2"
  by (simp add: same_large_def)

lemma outside_trans: "outside G m m1 \<Longrightarrow> same_large G G1 \<Longrightarrow> outside G1 m1 m2 \<Longrightarrow> outside G m m2"
  by (simp add: outside_def same_large_def)

lemma steady_refl [simp]: "steady g g" by (simp add: steady_def same_large_def outside_def)

lemma steady_trans: "steady g g1 \<Longrightarrow> steady g1 g2 \<Longrightarrow> steady g g2"
  using same_large_trans [of "global g" "global g1" "global g2"] outside_trans [of "global g" "heap g" "heap g1" "global g1" "heap g2"]
  unfolding steady_def by (elim conjE) (intro conjI; simp)

lemma steady_quiet:
  assumes "steady g g'" and "quiet g"
  shows "quiet g'"
proof -
  have "GlobalAllocator_heapSize (global g) div free_space_divisor (global g) \<le> GlobalAllocator_heapSize (global g') div free_space_divisor (global g)"
    using assms(1) by (intro div_le_mono) (simp add: steady_def)
  then show ?thesis using assms by (auto simp: steady_def quiet_def same_large_def)
qed

text \<open>A block \<open>b\<close> that was taken from the lists and belongs to no one yet.\<close>

definition taken :: "'a lheap_scheme \<Rightarrow> 'a lheap_scheme \<Rightarrow> addr \<Rightarrow> nat \<Rightarrow> addr set \<Rightarrow> addr set \<Rightarrow> slot list \<Rightarrow> addr list \<Rightarrow> addr list \<Rightarrow> bool" where
  "taken g g' b n S K os fs rs \<longleftrightarrow> alloc_state g' n S K os fs rs \<and> steady g g' \<and> locals g' = locals g \<and>
     kept K (heap g) (heap g') \<and> b \<in> set (blocks_from (small_heap_start (global g')) n) \<and>
     b \<notin> set (fs @ rs @ owned (locals g') os)"

lemma heapSize_grown:
  assumes "space_ok G n" "small_heap_size G + large_heap_size G + growth_blocks n * BLOCK_SIZE \<le> memory_limit G"
  shows "GlobalAllocator_heapSize G \<le> GlobalAllocator_heapSize (grown G n bl)"
proof -
  have "memory_limit G < 2 ^ 46" using assms(1) by (simp add: space_ok_def)
  then show ?thesis using assms(2) by (simp add: GlobalAllocator_heapSize_def)
qed

text \<open>The small object space cannot grow: the memory limit is in the way.\<close>

definition full :: "GlobalAllocator \<Rightarrow> bool" where
  "full G \<longleftrightarrow> memory_limit G <
     small_heap_size G + large_heap_size G + growth_blocks (small_heap_size G div BLOCK_SIZE) * BLOCK_SIZE"

lemma full_iff: "space_ok G n \<Longrightarrow> full G \<longleftrightarrow> memory_limit G < small_heap_size G + large_heap_size G + growth_blocks n * BLOCK_SIZE"
  by (simp add: full_def space_ok_def)

definition same_size :: "'a gheap_scheme \<Rightarrow> 'a gheap_scheme \<Rightarrow> bool" where
  "same_size g g' \<longleftrightarrow> small_heap_size (global g') = small_heap_size (global g)"

lemma full_cong: "same_large (global g) (global g') \<Longrightarrow> same_size g g' \<Longrightarrow> full (global g') = full (global g)"
  by (simp add: full_def same_large_def same_size_def)

text \<open>Growing, when a collection is out of the question: afterwards the free list holds a block.\<close>

lemma appended_outside:
  assumes inv: "alloc_inv m G L n S K os fs rs" and ap: "appended m m' bl fs (new_blocks G n)"
    and room: "small_heap_size G + large_heap_size G + growth_blocks n * BLOCK_SIZE \<le> memory_limit G"
  shows "outside G m m'"
  unfolding outside_def
proof (intro allI impI)
  note i = alloc_invD [OF inv] and blk = alloc_inv_blocks [OF inv]
  fix a assume a: "a < small_heap_start G \<or> small_heap_start G + memory_limit G \<le> a"
  have lim: "small_heap_stop G + growth_blocks n * BLOCK_SIZE \<le> small_heap_start G + memory_limit G"
    using i(3) room by (auto simp: space_ok_def)
  have "\<not> link_of fs a"
  proof
    assume "link_of fs a"
    then obtain b where b: "b \<in> set fs" "b + 8 \<le> a" "a < b + 16" by (auto simp: link_of_def)
    have "small_heap_start G \<le> b" "b + BLOCK_SIZE \<le> small_heap_stop G"
      using blocks_from_bounds [OF blk(1)] b(1) i(3) by (auto simp: space_ok_def)
    then show False using a b lim by auto
  qed
  moreover have "\<not> (b \<le> a \<and> a < b + 144)" if b: "b \<in> set (new_blocks G n)" for b
  proof -
    have "b \<in> set (blocks_from (small_heap_stop G) (growth_blocks n))" using b by (simp add: new_blocks_def blocks_from_def)
    then show ?thesis using blocks_from_bounds [of b] lim a i(3) by (fastforce simp: space_ok_def)
  qed
  ultimately show "m' a = m a" using ap by (simp add: appended_def)
qed

lemma growSmall_state:
  assumes inv: "alloc_state g n S K os fs rs"
  shows "GlobalAllocator_growSmall g = abort_with ''GC: out of memory'' \<and> full (global g) \<or>
    (\<exists>g' n' new. GlobalAllocator_growSmall g = ret g' \<and> alloc_state g' n' S K os (fs @ new) rs \<and> new \<noteq> [] \<and>
       steady g g' \<and> locals g' = locals g \<and> kept K (heap g) (heap g'))"
proof -
  have inv': "alloc_inv (heap g) (global g) (locals g) n S K os fs rs" using inv by (simp add: alloc_state_def)
  note i = alloc_invD [OF inv'] and blk = alloc_inv_blocks [OF inv']
  let ?G = "global g"
  have b0: "is_block (small_heap_start ?G)"
    using i(1,3) by (auto simp: small_layout_def space_ok_def is_block_def)
  have below: "b < small_heap_stop ?G" if "b \<in> set fs" for b
    using blocks_from_bounds [OF blk(1), of b] that i(3) by (auto simp: space_ok_def)
  note gr = growSmall_spec [OF i(3) b0 i(4) below]
  show ?thesis
  proof (cases "small_heap_size ?G + large_heap_size ?G + growth_blocks n * BLOCK_SIZE > memory_limit ?G")
    case True
    then show ?thesis using gr full_iff [OF i(3)] by simp
  next
    case False
    then obtain bl m where r: "GlobalAllocator_growSmall g = ret (g\<lparr>global := grown ?G n bl, heap := m\<rparr>)"
      "appended (heap g) m bl fs (new_blocks ?G n)" using gr by auto
    have room: "small_heap_size ?G + large_heap_size ?G + growth_blocks n * BLOCK_SIZE \<le> memory_limit ?G" using False by simp
    have "new_blocks ?G n \<noteq> []" using growth_blocks_pos [of n] i(3) by (simp add: new_blocks_def space_ok_def)
    moreover have outside: "outside ?G (heap g) m" by (rule appended_outside [OF inv' r(2) room])
    moreover have "steady g (g\<lparr>global := grown ?G n bl, heap := m\<rparr>)"
      using heapSize_grown [OF i(3) room] outside by (simp add: steady_def) (simp add: grown_def same_large_def)
    ultimately show ?thesis
      using r(1) grow_keeps [OF inv' r(2) room] grow_kept [OF inv' r(2)] by (auto simp: alloc_state_def)
  qed
qed

lemma shift_free_state:
  assumes inv: "alloc_state g n S K os (b # fs) rs"
  shows "\<exists>g'. shift_free g = (g', b) \<and> b \<noteq> 0 \<and> taken g g' b n S K os fs rs \<and> free_block (heap g') S b \<and> same_size g g'"
proof -
  have inv': "alloc_inv (heap g) (global g) (locals g) n S K os (b # fs) rs" using inv by (simp add: alloc_state_def)
  note i = alloc_invD [OF inv'] and blk = alloc_inv_blocks [OF inv']
  obtain bl where s: "BlockList_shift (free_list (global g)) (heap g) = (bl, b)" "block_queue (heap g) bl fs"
    using BlockList_shift_queue [OF i(4)] by auto
  let ?g = "upd_global (\<lambda>self. self\<lparr>free_list := bl\<rparr>) g"
  have "alloc_state ?g n S K os fs rs"
    using inv' s(2) by (auto simp: alloc_state_def alloc_inv_def upd_global_def space_ok_def)
  moreover have "steady g ?g" by (simp add: steady_def upd_global_def GlobalAllocator_heapSize_def same_large_def outside_def)
  ultimately have "taken g ?g b n S K os fs rs" using blk(1) [of b] i(6) by (simp add: taken_def upd_global_def)
  moreover have "b \<noteq> 0" using blk(2) [of b] by (simp add: is_block_def)
  ultimately show ?thesis using s(1) i(8) [of b] by (intro exI [of _ ?g]) (simp add: shift_free_def upd_global_def same_size_def)
qed

lemma shift_free_empty: "alloc_state g n S K os [] rs \<Longrightarrow> shift_free g = (g, 0)"
  using BlockList_shift_queue [OF alloc_invD(4)] by (fastforce simp: alloc_state_def shift_free_def upd_global_def)

lemma shift_recyclable_state:
  assumes inv: "alloc_state g n S K os fs (b # rs)"
  shows "\<exists>g'. shift_recyclable g = (g', b) \<and> b \<noteq> 0 \<and> taken g g' b n S K os fs rs \<and> recyclable_block (heap g') S K b \<and> same_size g g'"
proof -
  have inv': "alloc_inv (heap g) (global g) (locals g) n S K os fs (b # rs)" using inv by (simp add: alloc_state_def)
  note i = alloc_invD [OF inv'] and blk = alloc_inv_blocks [OF inv']
  obtain bl where s: "BlockList_shift (recyclable_list (global g)) (heap g) = (bl, b)" "block_queue (heap g) bl rs"
    using BlockList_shift_queue [OF i(5)] by auto
  let ?g = "upd_global (\<lambda>self. self\<lparr>recyclable_list := bl\<rparr>) g"
  have "alloc_state ?g n S K os fs rs"
    using inv' s(2) by (auto simp: alloc_state_def alloc_inv_def upd_global_def space_ok_def)
  moreover have "steady g ?g" by (simp add: steady_def upd_global_def GlobalAllocator_heapSize_def same_large_def outside_def)
  ultimately have "taken g ?g b n S K os fs rs" using blk(1) [of b] i(6) by (simp add: taken_def upd_global_def)
  moreover have "b \<noteq> 0" using blk(2) [of b] by (simp add: is_block_def)
  ultimately show ?thesis using s(1) i(9) [of b] by (intro exI [of _ ?g]) (simp add: shift_recyclable_def upd_global_def same_size_def)
qed

lemma shift_recyclable_empty: "alloc_state g n S K os fs [] \<Longrightarrow> shift_recyclable g = (g, 0)"
  using BlockList_shift_queue [OF alloc_invD(5)] by (fastforce simp: alloc_state_def shift_recyclable_def upd_global_def)

lemma alloc_state_lock [simp]:
  "alloc_state (GC_lock g) n S K os fs rs = alloc_state g n S K os fs rs"
  "alloc_state (GC_unlock g) n S K os fs rs = alloc_state g n S K os fs rs"
  by (simp_all add: alloc_state_def GC_lock_def GC_unlock_def)

lemma quiet_lock: "quiet (GC_lock g) = quiet g"
  by (simp add: quiet_def GC_lock_def)

lemma taken_trans:
  assumes "alloc_state g n0 S K os fs0 rs0" and "steady g g1" "locals g1 = locals g" "kept K (heap g) (heap g1)"
    and "taken g1 g2 b n S K os fs rs"
  shows "taken g g2 b n S K os fs rs"
proof -
  have "small_layout (heap g) (small_heap_start (global g)) n0 S" "K \<subseteq> S"
    using assms(1) alloc_invD(1,2) by (auto simp: alloc_state_def)
  from kept_trans [OF assms(4) _ this] assms show ?thesis by (auto simp: taken_def intro: steady_trans)
qed

lemma taken_unlock: "taken (GC_lock g) g' b n S K os fs rs \<Longrightarrow> taken g (GC_unlock g') b n S K os fs rs"
  by (simp add: taken_def) (auto simp: steady_def GC_lock_def GC_unlock_def)

text \<open>The end of both functions: grow, and take the first block.\<close>

definition grow_and_shift :: "'a gheap_scheme \<Rightarrow> ('a gheap_scheme \<times> addr) prog" where
  "grow_and_shift g = pbind (GlobalAllocator_growSmall g) (\<lambda>g.
     let (g, block) = shift_free g
     in if block \<noteq> 0 then ret (GC_unlock g, block)
        else abort_with ''GC: failed to allocate small object (can't shift block from free list)'')"

lemma grow_and_shift_spec:
  assumes inv: "alloc_state (GC_lock g) n S K os [] rs"
  shows "grow_and_shift (GC_lock g) = abort_with ''GC: out of memory'' \<and> full (global g) \<or>
    (\<exists>g' b n' fs'. grow_and_shift (GC_lock g) = ret (g', b) \<and> taken g g' b n' S K os fs' rs \<and> free_block (heap g') S b)"
  using growSmall_state [OF inv]
proof (elim disjE exE conjE)
  fix g1 n1 new
  assume g1: "GlobalAllocator_growSmall (GC_lock g) = ret g1" "alloc_state g1 n1 S K os ([] @ new) rs" "new \<noteq> []"
    "steady (GC_lock g) g1" "locals g1 = locals (GC_lock g)" "kept K (heap (GC_lock g)) (heap g1)"
  obtain b fs' where new: "[] @ new = b # fs'" using g1(3) by (cases new) auto
  obtain g' where s: "shift_free g1 = (g', b)" "b \<noteq> 0" "taken g1 g' b n1 S K os fs' rs" "free_block (heap g') S b"
    using shift_free_state g1(2) new by metis
  have "grow_and_shift (GC_lock g) = ret (GC_unlock g', b)"
    unfolding grow_and_shift_def using g1(1) s(1,2) by simp
  moreover have "free_block (heap (GC_unlock g')) S b" using s(4) by (simp add: GC_unlock_def)
  ultimately show ?thesis using taken_unlock [OF taken_trans [OF inv g1(4-6) s(3)]] by blast
qed (simp add: grow_and_shift_def GC_lock_def)

lemma shift_then_unlock:
  assumes "alloc_state (GC_lock g) n S K os (b # fs) rs"
  shows "\<exists>g'. shift_free (GC_lock g) = (g', b) \<and> b \<noteq> 0 \<and> taken g (GC_unlock g') b n S K os fs rs \<and>
    free_block (heap (GC_unlock g')) S b \<and> same_size g (GC_unlock g')"
proof -
  obtain g' where "shift_free (GC_lock g) = (g', b)" "b \<noteq> 0" "taken (GC_lock g) g' b n S K os fs rs" "free_block (heap g') S b"
    "same_size (GC_lock g) g'" using shift_free_state [OF assms] by blast
  moreover from this have "free_block (heap (GC_unlock g')) S b" "same_size g (GC_unlock g')"
    by (simp_all add: GC_unlock_def GC_lock_def same_size_def)
  ultimately show ?thesis using taken_unlock by blast
qed

text \<open>
  \<open>nextFreeBlock\<close> without a collection: the first free block, also right after a growth; the last resort is not taken.
\<close>

lemma nextFreeBlock_spec:
  assumes inv: "alloc_state g n S K os fs rs" and quiet: "quiet g"
  shows "GlobalAllocator_nextFreeBlock collect g = abort_with ''GC: out of memory'' \<and> full (global g) \<and> fs = [] \<or>
    (\<exists>g' b n' fs'. GlobalAllocator_nextFreeBlock collect g = ret (g', b) \<and> taken g g' b n' S K os fs' rs \<and>
       free_block (heap g') S b \<and> length fs \<le> Suc (length fs') \<and> (fs \<noteq> [] \<longrightarrow> same_size g g'))"
proof -
  let ?g = "GC_lock g"
  have inv': "alloc_state ?g n S K os fs rs" using inv by simp
  show ?thesis
  proof (cases fs)
    case (Cons b fs')
    then show ?thesis
      using shift_then_unlock inv' by (fastforce simp: GlobalAllocator_nextFreeBlock_def Let_def)
  next
    case Nil
    have e: "shift_free ?g = (?g, 0)" using shift_free_empty inv' Nil by blast
    have q: "GlobalAllocator_tryCollect collect ?g = ret (?g, False)" using quiet quiet_lock quiet_tryCollect by blast
    have un: "GlobalAllocator_nextFreeBlock collect g = grow_and_shift ?g"
      unfolding GlobalAllocator_nextFreeBlock_def Let_def grow_and_shift_def by (simp add: e q)
    show ?thesis unfolding un using grow_and_shift_spec [OF inv' [unfolded Nil]] Nil by auto
  qed
qed

lemma nextBlock_spec:
  assumes inv: "alloc_state g n S K os fs rs" and quiet: "quiet g"
  shows "GlobalAllocator_nextBlock collect g = abort_with ''GC: out of memory'' \<and> full (global g) \<and> fs = [] \<or>
    (\<exists>g' b n' fs' rs'. GlobalAllocator_nextBlock collect g = ret (g', b) \<and> taken g g' b n' S K os fs' rs' \<and>
       length fs \<le> Suc (length fs') \<and> (fs \<noteq> [] \<longrightarrow> same_size g g') \<and> (rs = b # rs' \<and> recyclable_block (heap g') S K b \<and> same_size g g' \<or> rs = [] \<and> rs' = [] \<and> free_block (heap g') S b))"
proof -
  let ?g = "GC_lock g"
  have inv': "alloc_state ?g n S K os fs rs" using inv by simp
  show ?thesis
  proof (cases rs)
    case (Cons b rs')
    obtain g' where s: "shift_recyclable ?g = (g', b)" "b \<noteq> 0" "taken ?g g' b n S K os fs rs'" "recyclable_block (heap g') S K b" "same_size ?g g'"
      using shift_recyclable_state inv' Cons by blast
    then have "GlobalAllocator_nextBlock collect g = ret (GC_unlock g', b)"
      by (simp add: GlobalAllocator_nextBlock_def Let_def)
    moreover have "recyclable_block (heap (GC_unlock g')) S K b" using s(4) by (simp add: GC_unlock_def)
    moreover have "same_size g (GC_unlock g')" using s(5) by (simp add: same_size_def GC_lock_def GC_unlock_def)
    moreover have "length fs \<le> Suc (length fs)" by simp
    ultimately show ?thesis using taken_unlock [OF s(3)] Cons by blast
  next
    case Nil
    have e: "shift_recyclable ?g = (?g, 0)" using shift_recyclable_empty inv' Nil by blast
    have q: "GlobalAllocator_tryCollect collect ?g = ret (?g, False)" using quiet quiet_lock quiet_tryCollect by blast
    show ?thesis
    proof (cases fs)
      case (Cons b fs')
      then show ?thesis
        using shift_then_unlock inv' e Nil by (fastforce simp: GlobalAllocator_nextBlock_def Let_def)
    next
      case fs: Nil
      have ef: "shift_free ?g = (?g, 0)" using shift_free_empty inv' fs by blast
      have "BlockList_isEmpty (free_list (global ?g))"
        using inv' fs BlockList_isEmpty_iff [OF alloc_invD(4)] by (auto simp: alloc_state_def)
      then have un: "GlobalAllocator_nextBlock collect g = grow_and_shift ?g"
        unfolding GlobalAllocator_nextBlock_def Let_def grow_and_shift_def by (simp add: e ef q)
      show ?thesis unfolding un using grow_and_shift_spec [OF inv' [unfolded fs Nil]] fs Nil by auto
    qed
  qed
qed

section \<open>Giving a block to a slot\<close>

lemma assign_slot:
  assumes t: "taken g g' b n S K os fs rs" and os': "distinct os'" "set os' \<subseteq> insert s (set os)"
    and L': "\<And>s'. s' \<in> set os \<Longrightarrow> s' \<noteq> s \<Longrightarrow> slot_block L' s' = slot_block (locals g') s'"
      "\<And>s'. s' \<in> set os \<Longrightarrow> s' \<noteq> s \<Longrightarrow> slot_ok (heap g') S K (locals g') s' \<Longrightarrow> slot_ok (heap g') S K L' s'"
    and ok: "slot_block L' s = b" "slot_ok (heap g') S K L' s"
  shows "alloc_inv (heap g') (global g') L' n S K os' fs rs"
proof -
  have inv: "alloc_inv (heap g') (global g') (locals g') n S K os fs rs"
    and b: "b \<in> set (blocks_from (small_heap_start (global g')) n)" "b \<notin> set (fs @ rs @ owned (locals g') os)"
    using t by (auto simp: taken_def alloc_state_def)
  note i = alloc_invD [OF inv]
  have blk: "slot_block L' s' = (if s' = s then b else slot_block (locals g') s')" if "s' \<in> set os'" for s'
    using that os'(2) L'(1) ok(1) by auto
  have own: "slot_block (locals g') s' \<noteq> b" if "s' \<in> set os" for s' using b(2) that by auto
  have "inj_on (slot_block L') (set os')"
  proof (rule inj_onI)
    fix s1 s2 assume s: "s1 \<in> set os'" "s2 \<in> set os'" "slot_block L' s1 = slot_block L' s2"
    show "s1 = s2"
    proof (rule ccontr)
      assume ne: "s1 \<noteq> s2"
      have "s1 \<noteq> s \<Longrightarrow> s1 \<in> set os" "s2 \<noteq> s \<Longrightarrow> s2 \<in> set os" using s os'(2) by auto
      moreover have "inj_on (slot_block (locals g')) (set os)" using i(6) by (simp add: distinct_map)
      ultimately show False using s(3) ne own [of s1] own [of s2] blk [OF s(1)] blk [OF s(2)]
        by (auto split: if_splits simp: inj_on_def)
    qed
  qed
  then have "distinct (owned L' os')" using os'(1) by (simp add: distinct_map)
  moreover have "set (owned L' os') \<subseteq> insert b (set (owned (locals g') os))" using blk os'(2) by auto
  moreover have "slot_ok (heap g') S K L' s'" if "s' \<in> set os'" for s'
    using that os'(2) ok(2) L'(2) [of s'] i(10) [of s'] by (cases "s' = s") auto
  moreover have "distinct (fs @ rs @ xs) \<and> set (fs @ rs @ xs) \<subseteq> set (blocks_from (small_heap_start (global g')) n)"
    if "distinct xs" "set xs \<subseteq> insert b (set (owned (locals g') os))" for xs
    using i(6,7) b that by (auto simp del: set_map)
  ultimately show ?thesis
    using i(1-5,8,9) unfolding alloc_inv_def by (intro conjI ballI) blast+
qed

text \<open>The main cursor is put on a free block, or on the first hole of a recyclable one.\<close>

definition only_local :: "addr \<Rightarrow> 'a lheap_scheme \<Rightarrow> 'a lheap_scheme \<Rightarrow> bool" where
  "only_local self g g' \<longleftrightarrow> (\<forall>a. a \<noteq> self \<longrightarrow> locals g' a = locals g a)"

lemma free_main_ok:
  assumes "free_block m S (la_block l)" and "is_block (la_block l)"
    and "la_cursor l = la_block l + 256" "la_limit l = la_block l + 32768" "la_next l = 0"
  shows "main_ok m S K l"
  unfolding main_ok_def
  using assms bump_ok_free [OF assms(2), of m K]
  by (intro exI [of _ "la_block l + 256"] exI [of _ "[]"]) (simp add: free_block_def)

lemma recyclable_main_ok:
  assumes "holes_ok m (la_block l) (block_objects S (la_block l)) K lo h hs" and "hs \<noteq> []"
    and "la_cursor l = h" "la_limit l = Hole_limit m h" "la_next l = Hole_next m h"
  shows "main_ok m S K l"
  using assms by (cases hs) (auto simp: main_ok_def)

lemma main_cursor_assign:
  assumes t: "taken g g' b n S K os fs rs" and os': "distinct os'" "set os' \<subseteq> insert (Main self) (set os)"
    and l': "la_block l' = b" "overflow_block l' = overflow_block (locals g' self)"
      "overflow_cursor l' = overflow_cursor (locals g' self)" "overflow_limit l' = overflow_limit (locals g' self)"
    and ok: "main_ok (heap g') S K l'"
  shows "alloc_state (g'\<lparr>locals := (locals g')(self := l')\<rparr>) n S K os' fs rs"
proof -
  have "alloc_inv (heap g') (global g') ((locals g')(self := l')) n S K os' fs rs"
  proof (rule assign_slot [OF t os'])
    show "slot_block ((locals g')(self := l')) s' = slot_block (locals g') s'" if "s' \<noteq> Main self" for s'
      using that l' by (cases s') auto
    show "slot_ok (heap g') S K (locals g') s' \<Longrightarrow> slot_ok (heap g') S K ((locals g')(self := l')) s'" if "s' \<noteq> Main self" for s'
      using that l' by (cases s') (auto simp: overflow_ok_def)
  qed (use l' ok in simp_all)
  then show ?thesis by (simp add: alloc_state_def)
qed

lemma steady_locals [simp]: "steady g (g'\<lparr>locals := L\<rparr>) = steady g g'"
  by (simp add: steady_def)

lemma initCursor_spec:
  assumes inv: "alloc_state g n S K os fs rs" and quiet: "quiet g"
    and os': "distinct os'" "set os' \<subseteq> insert (Main self) (set os)"
    and nx: "rs = [] \<longrightarrow> la_next (locals g self) = 0"
  shows "LocalAllocator_initCursor collect g self = abort_with ''GC: out of memory'' \<and> full (global g) \<and> fs = [] \<or>
    (\<exists>g' n' fs' rs'. LocalAllocator_initCursor collect g self = ret g' \<and> alloc_state g' n' S K os' fs' rs' \<and>
       steady g g' \<and> kept K (heap g) (heap g') \<and> only_local self g g' \<and> length fs \<le> Suc (length fs') \<and>
       (fs \<noteq> [] \<longrightarrow> same_size g g') \<and> (rs = [] \<longrightarrow> la_next (locals g' self) = la_next (locals g self)) \<and>
       (if rs = [] then rs' = [] \<and> la_cursor (locals g' self) + 8192 \<le> la_limit (locals g' self) else rs' = tl rs \<and> same_size g g'))"
  using nextBlock_spec [OF inv quiet, of collect]
proof (elim disjE exE conjE)
  assume "GlobalAllocator_nextBlock collect g = abort_with ''GC: out of memory''" "full (global g)" "fs = []"
  then show ?thesis by (simp add: LocalAllocator_initCursor_def)
next
  fix g1 b n' fs' rs'
  assume r: "GlobalAllocator_nextBlock collect g = ret (g1, b)" and t: "taken g g1 b n' S K os fs' rs'"
    and rs: "rs = b # rs'" and rec: "recyclable_block (heap g1) S K b" and sz: "same_size g g1" "length fs \<le> Suc (length fs')"
  let ?m = "heap g1" and ?l = "locals g1 self"
  obtain i hs where h: "i < 127" "Block_first_free_line_index ?m b = int i" "hs \<noteq> []"
    "holes_ok ?m b (block_objects S b) K (b + 256) (line_addr b i) hs" "Block_isRecyclable ?m b"
    using rec by (auto simp: recyclable_block_def)
  have ff: "Block_firstFreeLine ?m b = ret (line_addr b i)"
    using h(1,2) by (simp add: Block_firstFreeLine_def Block_start_def line_addr_def)
  let ?l' = "?l\<lparr>la_block := b, la_cursor := line_addr b i, la_limit := Hole_limit ?m (line_addr b i), la_next := Hole_next ?m (line_addr b i)\<rparr>"
  have e: "LocalAllocator_initCursor collect g self = ret (g1\<lparr>locals := (locals g1)(self := ?l')\<rparr>)"
    using h(5) by (simp add: LocalAllocator_initCursor_def r upd_local_def Let_def ff Block_isFree_def Block_isRecyclable_def)
  have "main_ok ?m S K ?l'" by (rule recyclable_main_ok [of _ _ _ _ "b + 256" "line_addr b i" hs]) (use h in simp_all)
  then have "alloc_state (g1\<lparr>locals := (locals g1)(self := ?l')\<rparr>) n' S K os' fs' rs'"
    by (intro main_cursor_assign [OF t os']) simp_all
  then show ?thesis
    using e t rs sz by (intro disjI2 exI [of _ "g1\<lparr>locals := (locals g1)(self := ?l')\<rparr>"] exI [of _ n'] exI [of _ fs'] exI [of _ rs'])
      (auto simp: taken_def only_local_def same_size_def)
next
  fix g1 b n' fs' rs'
  assume r: "GlobalAllocator_nextBlock collect g = ret (g1, b)" and t: "taken g g1 b n' S K os fs' rs'"
    and rs: "rs = []" "rs' = []" and free: "free_block (heap g1) S b" and sz: "length fs \<le> Suc (length fs')" "fs \<noteq> [] \<longrightarrow> same_size g g1"
  let ?m = "heap g1" and ?l = "locals g1 self"
  let ?l' = "?l\<lparr>la_block := b, la_cursor := b + 256, la_limit := b + 32768\<rparr>"
  have e: "LocalAllocator_initCursor collect g self = ret (g1\<lparr>locals := (locals g1)(self := ?l')\<rparr>)"
    using free by (simp add: LocalAllocator_initCursor_def r upd_local_def Let_def free_block_def Block_start_def Block_stop_def)
  have "small_layout ?m (small_heap_start (global g1)) n' S" "b \<in> set (blocks_from (small_heap_start (global g1)) n')"
    using t alloc_invD(1) by (auto simp: taken_def alloc_state_def)
  then have "is_block b" by (rule small_layoutD(1))
  moreover have "la_next ?l = 0" using nx rs(1) t by (simp add: taken_def)
  ultimately have "main_ok ?m S K ?l'" using free by (intro free_main_ok) simp_all
  then have "alloc_state (g1\<lparr>locals := (locals g1)(self := ?l')\<rparr>) n' S K os' fs' rs'"
    by (intro main_cursor_assign [OF t os']) simp_all
  then show ?thesis
    using e t rs sz by (intro disjI2 exI [of _ "g1\<lparr>locals := (locals g1)(self := ?l')\<rparr>"] exI [of _ n'] exI [of _ fs'] exI [of _ rs'])
      (auto simp: taken_def only_local_def same_size_def)
qed

lemma overflow_cursor_assign:
  assumes t: "taken g g' b n S K os fs rs" and os': "distinct os'" "set os' \<subseteq> insert (Overflow self) (set os)"
    and free: "free_block (heap g') S b"
  defines "l' \<equiv> (locals g' self)\<lparr>overflow_block := b, overflow_cursor := Block_start b, overflow_limit := Block_stop b\<rparr>"
  shows "alloc_state (g'\<lparr>locals := (locals g')(self := l')\<rparr>) n S K os' fs rs"
proof -
  have "small_layout (heap g') (small_heap_start (global g')) n S" "b \<in> set (blocks_from (small_heap_start (global g')) n)"
    using t alloc_invD(1) by (auto simp: taken_def alloc_state_def)
  then have b: "is_block b" by (rule small_layoutD(1))
  have "alloc_inv (heap g') (global g') ((locals g')(self := l')) n S K os' fs rs"
  proof (rule assign_slot [OF t os'])
    show "slot_block ((locals g')(self := l')) s' = slot_block (locals g') s'" if "s' \<noteq> Overflow self" for s'
      using that by (cases s') (auto simp: l'_def)
    show "slot_ok (heap g') S K (locals g') s' \<Longrightarrow> slot_ok (heap g') S K ((locals g')(self := l')) s'" if "s' \<noteq> Overflow self" for s'
      using that by (cases s') (auto simp: main_ok_def l'_def)
    show "slot_ok (heap g') S K ((locals g')(self := l')) (Overflow self)"
      using free bump_ok_free [OF b, of "heap g'" K]
      by (auto simp: overflow_ok_def free_block_def l'_def Block_start_def Block_stop_def)
  qed (simp add: l'_def)
  then show ?thesis by (simp add: alloc_state_def)
qed

lemma initOverflowCursor_spec:
  assumes inv: "alloc_state g n S K os fs rs" and quiet: "quiet g"
    and os': "distinct os'" "set os' \<subseteq> insert (Overflow self) (set os)"
  shows "LocalAllocator_initOverflowCursor collect g self = abort_with ''GC: out of memory'' \<and> full (global g) \<and> fs = [] \<or>
    (\<exists>g' n' fs'. LocalAllocator_initOverflowCursor collect g self = ret g' \<and> alloc_state g' n' S K os' fs' rs \<and>
       steady g g' \<and> kept K (heap g) (heap g') \<and> only_local self g g' \<and> length fs \<le> Suc (length fs') \<and>
       (fs \<noteq> [] \<longrightarrow> same_size g g') \<and> la_next (locals g' self) = la_next (locals g self) \<and>
       overflow_cursor (locals g' self) + 8192 \<le> overflow_limit (locals g' self))"
  using nextFreeBlock_spec [OF inv quiet, of collect]
proof (elim disjE exE conjE)
  fix g1 b n' fs'
  assume r: "GlobalAllocator_nextFreeBlock collect g = ret (g1, b)" and t: "taken g g1 b n' S K os fs' rs"
    and free: "free_block (heap g1) S b" and sz: "length fs \<le> Suc (length fs')" "fs \<noteq> [] \<longrightarrow> same_size g g1"
  let ?g = "g1\<lparr>locals := (locals g1)(self := (locals g1 self)\<lparr>overflow_block := b, overflow_cursor := Block_start b, overflow_limit := Block_stop b\<rparr>)\<rparr>"
  have "LocalAllocator_initOverflowCursor collect g self = ret ?g"
    by (simp add: LocalAllocator_initOverflowCursor_def r upd_local_def)
  then show ?thesis
    using overflow_cursor_assign [OF t os' free] t sz
    by (intro disjI2 exI [of _ ?g] exI [of _ n'] exI [of _ fs'])
      (auto simp: taken_def only_local_def same_size_def Block_start_def Block_stop_def)
qed (simp add: LocalAllocator_initOverflowCursor_def)

section \<open>Allocation\<close>

text \<open>No object header is in the place of the new object.\<close>

definition clear_of :: "addr set \<Rightarrow> addr \<Rightarrow> nat \<Rightarrow> bool" where
  "clear_of S c sz \<longleftrightarrow> (\<forall>y \<in> S. y + 16 \<le> c \<or> c + sz \<le> y)"

lemma place_clear:
  assumes l: "small_layout m start n S" and B: "B \<in> set (blocks_from start n)"
    and f: "fits m B (block_objects S B) K h c lim sz"
  shows "clear_of S c sz"
  unfolding clear_of_def
proof
  note d = fitsD [OF f] and lB = small_layoutD [OF l B] and bd = bump_okD [OF fitsD(3) [OF f]]
  fix y assume y: "y \<in> S"
  obtain b where b: "b \<in> set (blocks_from start n)" "y \<in> block_objects S b" "b + 256 \<le> y" "y + 16 \<le> b + 32768"
    using small_layout_object [OF l y] by blast
  show "y + 16 \<le> c \<or> c + sz \<le> y"
  proof (cases "b = B")
    case False
    have "b + 32768 \<le> B \<or> B + 32768 \<le> b"
      using blocks_disjoint [OF small_layoutD(1) [OF l b(1)] lB(1) False] by simp
    then show ?thesis using b(3,4) d(7,8) bd(4) by auto
  next
    case True
    have yB: "y \<in> block_objects S B" using b(2) True by simp
    note ly = layoutD [OF d(2) yB]
    consider "y + Object_size m y \<le> c" | "y < h" "line_of B y + 2 \<le> line_of B h" | "lim \<le> y"
      using yB d(3) bd(2) by (fastforce simp: bump_ok_def)
    then show ?thesis
    proof cases
      case 2
      have "line_addr B (line_of B y + 2) \<le> h" using 2(2) bd(1) by (simp add: line_of_ge_iff)
      moreover have "y < line_addr B (line_of B y) + 256" using line_of_bounds [OF ly(1)] by simp
      ultimately show ?thesis using bd(2) by (simp add: line_addr_def)
    qed (use ly(3) d(7) in auto)
  qed
qed

text \<open>
  The object at \<open>c\<close> was placed: it is new, apart from every object that matters, and as soon as its header is written the
  invariant holds with it.
\<close>

definition placed_at :: "'a lheap_scheme \<Rightarrow> 'a lheap_scheme \<Rightarrow> addr \<Rightarrow> nat \<Rightarrow> addr \<Rightarrow> nat \<Rightarrow> addr set \<Rightarrow> addr set
    \<Rightarrow> slot list \<Rightarrow> addr list \<Rightarrow> addr list \<Rightarrow> bool" where
  "placed_at g g' self sz c n S K os fs rs \<longleftrightarrow> c \<noteq> 0 \<and> c \<notin> S \<and> clear_of S c sz \<and>
     (\<forall>x \<in> K. x + Object_size (heap g) x \<le> c \<or> c + sz \<le> x) \<and>
     (\<forall>at < 256. alloc_inv (Object_allocate (heap g') c sz at) (global g') (locals g') n (insert c S) (insert c K) os fs rs \<and>
        kept K (heap g) (Object_allocate (heap g') c sz at) \<and> outside (global g) (heap g) (Object_allocate (heap g') c sz at)) \<and>
     steady g g' \<and> only_local self g g'"

definition slot_of :: "addr \<Rightarrow> slot \<Rightarrow> bool" where
  "slot_of a s \<longleftrightarrow> s = Main a \<or> s = Overflow a"

lemma place_inside:
  assumes inv: "alloc_inv m G L n S K os fs rs" and s: "s \<in> set os"
    and f: "fits m (slot_block L s) (block_objects S (slot_block L s)) K h c lim sz"
  shows "small_heap_start G \<le> slot_block L s" "slot_block L s + 256 \<le> c" "lim \<le> slot_block L s + 32768"
    "slot_block L s + 32768 \<le> small_heap_start G + memory_limit G" "c + sz \<le> small_heap_start G + memory_limit G"
proof -
  note i = alloc_invD [OF inv] and d = fitsD [OF f]
  have "slot_block L s \<in> set (blocks_from (small_heap_start G) n)" using alloc_inv_blocks(1) [OF inv] s by simp
  from blocks_from_bounds [OF this] show g: "small_heap_start G \<le> slot_block L s"
    "slot_block L s + 32768 \<le> small_heap_start G + memory_limit G" using i(3) by (auto simp: space_ok_def)
  show "slot_block L s + 256 \<le> c" "lim \<le> slot_block L s + 32768" using d(8) bump_okD(4) [OF d(3)] by auto
  then show "c + sz \<le> small_heap_start G + memory_limit G" using d(7) g by simp
qed

lemma place_outside:
  assumes inv: "alloc_inv m G L n S K os fs rs" and s: "s \<in> set os"
    and f: "fits m (slot_block L s) (block_objects S (slot_block L s)) K h c lim sz"
  shows "outside G m (new_object m (slot_block L s) c sz lim at)"
  unfolding outside_def
proof (intro allI impI, rule ccontr)
  note d = fitsD [OF f] and p = place_inside [OF inv s f]
  fix a assume a: "a < small_heap_start G \<or> small_heap_start G + memory_limit G \<le> a"
    and n: "new_object m (slot_block L s) c sz lim at a \<noteq> m a"
  from new_object_frame [OF n] d(4,7,13,14) p(2,3) have "slot_block L s \<le> a \<and> a < slot_block L s + 32768"
    by (elim disjE conjE) auto
  then show False using a p(1,4) by auto
qed

lemma place_step:
  assumes inv: "alloc_state g n S K os fs rs" and s: "s \<in> set os" "slot_of self s"
    and sz: "16 \<le> sz" "sz \<le> 8192" "8 dvd sz" and fit: "slot_cursor (locals g) s + sz \<le> slot_limit (locals g) s"
  defines "c \<equiv> slot_cursor (locals g) s"
  shows "\<exists>m. place_object (heap g) (slot_block (locals g) s) c (c + sz) (slot_limit (locals g) s) = ret m \<and>
    placed_at g (g\<lparr>heap := m, locals := advance (locals g) s (c + sz)\<rparr>) self sz c n S K os fs rs"
proof -
  let ?B = "slot_block (locals g) s" and ?lim = "slot_limit (locals g) s"
  have inv': "alloc_inv (heap g) (global g) (locals g) n S K os fs rs" using inv by (simp add: alloc_state_def)
  note i = alloc_invD [OF inv'] and blk = alloc_inv_blocks [OF inv', of ?B]
  obtain h where f: "fits (heap g) ?B (block_objects S ?B) K h c ?lim sz"
    using slot_fits [OF inv' s(1) sz fit] by (auto simp: c_def)
  note d = fitsD [OF f]
  have LU: "Line_update (heap g) ?B c = ret (line_updated (heap g) ?B c)"
    using Line_update_spec(1) [OF d(8,9,10,1)] .
  let ?m = "if c + sz < ?lim then Object_set_size (line_updated (heap g) ?B c) (c + sz) 0 else line_updated (heap g) ?B c"
  have p: "place_object (heap g) ?B c (c + sz) ?lim = ret ?m" by (simp add: place_object_def LU)
  have n: "Object_allocate ?m c sz at = new_object (heap g) ?B c sz ?lim at" for at
    by (simp add: new_object_def)
  have K: "kept K (heap g) (new_object (heap g) ?B c sz ?lim at)" "c \<notin> S"
    "\<forall>x \<in> K. x + Object_size (heap g) x \<le> c \<or> c + sz \<le> x" for at
    using place_kept [OF i(1,2) blk(1) f] s(1) by auto
  have "alloc_inv (new_object (heap g) ?B c sz ?lim at) (global g) (advance (locals g) s (c + sz)) n (insert c S) (insert c K) os fs rs"
    if "at < 256" for at
    using place_slot [OF inv' s(1) sz fit that] by (simp add: c_def)
  moreover have "clear_of S c sz" by (rule place_clear [OF i(1) blk(1) f]) (use s(1) in simp)
  moreover have "only_local self g (g\<lparr>heap := ?m, locals := advance (locals g) s (c + sz)\<rparr>)"
    using s(2) by (auto simp: only_local_def slot_of_def)
  moreover have out: "outside (global g) (heap g) (Object_allocate ?m c sz at)" for at
    using place_outside [OF inv' s(1) f, of at] by (simp only: n)
  moreover have "outside (global g) (heap g) ?m"
    unfolding outside_def
  proof (intro allI impI)
    fix a assume a: "a < small_heap_start (global g) \<or> small_heap_start (global g) + memory_limit (global g) \<le> a"
    have "\<not> (c \<le> a \<and> a < c + 16)"
      using a place_inside [OF inv' s(1) f] sz(1) by auto
    then have "Object_allocate ?m c sz 0 a = ?m a"
      by (auto simp: Object_allocate_def Object_set_size_def store_frame)
    then show "?m a = heap g a" using out [of 0] a unfolding outside_def by metis
  qed
  then have "steady g (g\<lparr>heap := ?m, locals := advance (locals g) s (c + sz)\<rparr>)" by (simp add: steady_def same_large_def)
  ultimately show ?thesis
    using p K d(8) by (intro exI [of _ ?m]) (simp add: placed_at_def n)
qed

lemma kept_size:
  assumes "kept K m m'" and "small_layout m start n S" "K \<subseteq> S" and x: "x \<in> K"
  shows "Object_size m' x = Object_size m x"
proof -
  have "16 \<le> Object_size m x" using small_layout_object [OF assms(2)] x assms(3) by blast
  then show ?thesis
    using assms(1) x load_same_bytes [of m m' x "x + Object_size m x" x 8] by (auto simp: kept_def Object_size_def)
qed

lemma placed_at_trans:
  assumes "alloc_state g n0 S K os0 fs0 rs0" "steady g g1" "kept K (heap g) (heap g1)" "only_local self g g1"
    and p: "placed_at g1 g2 self sz c n S K os fs rs"
  shows "placed_at g g2 self sz c n S K os fs rs"
proof -
  have l: "small_layout (heap g) (small_heap_start (global g)) n0 S" "K \<subseteq> S"
    using assms(1) alloc_invD(1,2) by (auto simp: alloc_state_def)
  show ?thesis
    unfolding placed_at_def
  proof (intro conjI allI impI)
    note P = p [unfolded placed_at_def]
    show "c \<noteq> 0" "c \<notin> S" "clear_of S c sz" using P by blast+
    show "\<forall>x \<in> K. x + Object_size (heap g) x \<le> c \<or> c + sz \<le> x" using P kept_size [OF assms(3) l] by simp
    show "steady g g2" using P steady_trans [OF assms(2)] by blast
    show "only_local self g g2" using P assms(4) by (auto simp: only_local_def)
    fix at :: nat assume "at < 256"
    with P have Q: "alloc_inv (Object_allocate (heap g2) c sz at) (global g2) (locals g2) n (insert c S) (insert c K) os fs rs"
      "kept K (heap g1) (Object_allocate (heap g2) c sz at)"
      "outside (global g1) (heap g1) (Object_allocate (heap g2) c sz at)" by blast+
    show "alloc_inv (Object_allocate (heap g2) c sz at) (global g2) (locals g2) n (insert c S) (insert c K) os fs rs" by (fact Q(1))
    show "kept K (heap g) (Object_allocate (heap g2) c sz at)" by (rule kept_trans [OF assms(3) Q(2) l])
    show "outside (global g) (heap g) (Object_allocate (heap g2) c sz at)"
      using assms(2) outside_trans [OF _ _ Q(3)] by (simp add: steady_def)
  qed
qed

lemma alloc_state_distinct: "alloc_state g n S K os fs rs \<Longrightarrow> distinct os"
  using alloc_invD(6) by (fastforce simp: alloc_state_def distinct_map)

definition placement :: "('a lheap_scheme \<times> addr) prog \<Rightarrow> 'a lheap_scheme \<Rightarrow> addr \<Rightarrow> nat \<Rightarrow> addr set \<Rightarrow> addr set
    \<Rightarrow> slot list \<Rightarrow> addr list \<Rightarrow> bool" where
  "placement r g self sz S K os rs \<longleftrightarrow> (\<exists>g' c n fs. r = ret (g', c) \<and> placed_at g g' self sz c n S K os fs rs)"

definition placed_outcome :: "('a lheap_scheme \<times> addr) prog \<Rightarrow> 'a lheap_scheme \<Rightarrow> addr \<Rightarrow> nat \<Rightarrow> addr set \<Rightarrow> addr set
    \<Rightarrow> slot list \<Rightarrow> addr list \<Rightarrow> bool" where
  "placed_outcome r g self sz S K os rs \<longleftrightarrow> r = abort_with ''GC: out of memory'' \<and> full (global g) \<or> placement r g self sz S K os rs"

lemma placed_trans:
  assumes "alloc_state g n0 S K os0 fs0 rs0" "steady g g1" "kept K (heap g) (heap g1)" "only_local self g g1"
    and "placement r g1 self sz S K os rs"
  shows "placement r g self sz S K os rs"
  using assms(5) placed_at_trans [OF assms(1-4)] unfolding placement_def by blast

lemma placed_outcome_trans:
  assumes "alloc_state g n0 S K os0 fs0 rs0" "steady g g1" "kept K (heap g) (heap g1)" "only_local self g g1" "same_size g g1"
    and "placed_outcome r g1 self sz S K os rs"
  shows "placed_outcome r g self sz S K os rs"
  using assms(2,5,6) placed_trans [OF assms(1-4)] full_cong [of g g1] unfolding placed_outcome_def steady_def by blast

text \<open>The overflow cursor: at most one new block is taken, and then the object fits.\<close>

lemma overflowAllocateSmall_fits:
  assumes inv: "alloc_state g n S K os fs rs" and s: "Overflow self \<in> set os"
    and sz: "16 \<le> sz" "sz \<le> 8192" "8 dvd sz" and fit: "overflow_cursor (locals g self) + sz \<le> overflow_limit (locals g self)"
  shows "placement (LocalAllocator_overflowAllocateSmall collect g self sz) g self sz S K os rs"
  using place_step [OF inv s _ sz, of self] fit
  by (auto simp: LocalAllocator_overflowAllocateSmall.simps [of collect g] Let_def slot_of_def upd_local_def placement_def) blast

lemma overflowAllocateSmall_spec:
  assumes inv: "alloc_state g n S K os fs rs" and quiet: "quiet g" and s: "Overflow self \<in> set os"
    and sz: "16 \<le> sz" "sz \<le> 8192" "8 dvd sz"
  shows "placed_outcome (LocalAllocator_overflowAllocateSmall collect g self sz) g self sz S K os rs"
proof (cases "overflow_cursor (locals g self) + sz \<le> overflow_limit (locals g self)")
  case True
  then show ?thesis using overflowAllocateSmall_fits [OF inv s sz] by (simp add: placed_outcome_def)
next
  case False
  then have un: "LocalAllocator_overflowAllocateSmall collect g self sz = pbind (LocalAllocator_initOverflowCursor collect g self)
      (\<lambda>g. LocalAllocator_overflowAllocateSmall collect g self sz)"
    by (simp add: LocalAllocator_overflowAllocateSmall.simps [of collect g] Let_def)
  have os: "distinct os" "set os \<subseteq> insert (Overflow self) (set os)" using alloc_state_distinct [OF inv] by auto
  from initOverflowCursor_spec [OF inv quiet os, of collect] show ?thesis
  proof (elim disjE exE conjE)
    fix g1 n1 fs1
    assume g1: "LocalAllocator_initOverflowCursor collect g self = ret g1" "alloc_state g1 n1 S K os fs1 rs"
      "steady g g1" "kept K (heap g) (heap g1)" "only_local self g g1"
      "overflow_cursor (locals g1 self) + 8192 \<le> overflow_limit (locals g1 self)"
    have "overflow_cursor (locals g1 self) + sz \<le> overflow_limit (locals g1 self)" using g1(6) sz(2) by simp
    from placed_trans [OF inv g1(3-5) overflowAllocateSmall_fits [OF g1(2) s sz this]]
    show ?thesis unfolding un by (simp add: g1(1) placed_outcome_def)
  qed (simp add: un placed_outcome_def)
qed

text \<open>The main cursor: the holes of the block are tried in order.\<close>

definition main_chain :: "mem \<Rightarrow> addr set \<Rightarrow> addr set \<Rightarrow> LocalAllocator \<Rightarrow> (addr \<times> addr) list \<Rightarrow> bool" where
  "main_chain m S K l hs \<longleftrightarrow>
     (\<exists>h. bump_ok m (la_block l) (block_objects S (la_block l)) K h (la_cursor l) (la_limit l)) \<and>
     holes_ok m (la_block l) (block_objects S (la_block l)) K (la_limit l) (la_next l) hs"

lemma main_ok_chain: "main_ok m S K l \<longleftrightarrow> (\<exists>hs. main_chain m S K l hs)"
  by (auto simp: main_ok_def main_chain_def)

lemma alloc_inv_local:
  assumes inv: "alloc_inv m G L n S K os fs rs" and "\<And>s. s \<in> set os \<Longrightarrow> slot_block L' s = slot_block L s"
    and "\<And>s. s \<in> set os \<Longrightarrow> slot_ok m S K L s \<Longrightarrow> slot_ok m S K L' s"
  shows "alloc_inv m G L' n S K os fs rs"
proof -
  have "owned L' os = owned L os" using assms(2) by simp
  then show ?thesis using inv assms(3) unfolding alloc_inv_def by metis
qed

lemma next_hole:
  assumes inv: "alloc_state g n S K os fs rs" and chain: "main_chain (heap g) S K (locals g self) (hl # hs)"
  defines "g' \<equiv> fst (LocalAllocator_findNextHole g self)"
  shows "LocalAllocator_findNextHole g self = (g', True)" "alloc_state g' n S K os fs rs" "heap g' = heap g"
    "main_chain (heap g') S K (locals g' self) hs" "steady g g'" "only_local self g g'" "same_size g g'"
proof -
  let ?l = "locals g self" and ?m = "heap g"
  have h: "la_next ?l = fst hl" "Hole_limit ?m (fst hl) = snd hl" "la_limit ?l \<le> fst hl"
    "bump_ok ?m (la_block ?l) (block_objects S (la_block ?l)) K (fst hl) (fst hl) (snd hl)"
    "holes_ok ?m (la_block ?l) (block_objects S (la_block ?l)) K (snd hl) (Hole_next ?m (fst hl)) hs"
    using chain by (auto simp: main_chain_def)
  have "fst hl \<noteq> 0" using bump_okD(1) [OF h(4)] by simp
  let ?l' = "?l\<lparr>la_cursor := fst hl, la_limit := Hole_limit ?m (fst hl), la_next := Hole_next ?m (fst hl)\<rparr>"
  have g': "LocalAllocator_findNextHole g self = (g\<lparr>locals := (locals g)(self := ?l')\<rparr>, True)"
    using h(1) \<open>fst hl \<noteq> 0\<close> by (simp add: LocalAllocator_findNextHole_def upd_local_def Let_def)
  then have e: "g' = g\<lparr>locals := (locals g)(self := ?l')\<rparr>" by (simp add: g'_def)
  show "LocalAllocator_findNextHole g self = (g', True)" using g' e by simp
  have c: "main_chain ?m S K ?l' hs" using h by (auto simp: main_chain_def)
  then show "main_chain (heap g') S K (locals g' self) hs" by (simp add: e)
  have "alloc_inv ?m (global g) ((locals g)(self := ?l')) n S K os fs rs"
  proof (rule alloc_inv_local)
    show "alloc_inv ?m (global g) (locals g) n S K os fs rs" using inv by (simp add: alloc_state_def)
    show "slot_block ((locals g)(self := ?l')) s = slot_block (locals g) s" for s by (cases s) auto
    show "slot_ok ?m S K (locals g) s \<Longrightarrow> slot_ok ?m S K ((locals g)(self := ?l')) s" for s
      using c by (cases s) (auto simp: main_ok_chain overflow_ok_def)
  qed
  then show "alloc_state g' n S K os fs rs" by (simp add: e alloc_state_def)
  show "heap g' = heap g" "steady g g'" "only_local self g g'" "same_size g g'" by (simp_all add: e only_local_def same_size_def)
qed

text \<open>
  \<open>tryAllocateSmall\<close> ends in one of three ways: no memory is left for an overflow block, the object is placed, or the
  holes of the block are used up (and \<open>next\<close> is \<open>NULL\<close>).
\<close>

definition used_up :: "('a lheap_scheme \<times> addr) prog \<Rightarrow> 'a lheap_scheme \<Rightarrow> addr \<Rightarrow> nat \<Rightarrow> addr set \<Rightarrow> addr set
    \<Rightarrow> slot list \<Rightarrow> addr list \<Rightarrow> addr list \<Rightarrow> bool" where
  "used_up r g self n S K os fs rs \<longleftrightarrow> (\<exists>g'. r = ret (g', 0) \<and> alloc_state g' n S K os fs rs \<and> steady g g' \<and> heap g' = heap g \<and>
     only_local self g g' \<and> same_size g g' \<and> la_next (locals g' self) = 0)"

lemma used_up_trans:
  assumes "steady g g1" "heap g1 = heap g" "only_local self g g1" "same_size g g1" and "used_up r g1 self n S K os fs rs"
  shows "used_up r g self n S K os fs rs"
  using assms steady_trans unfolding used_up_def only_local_def same_size_def by fastforce

lemma tryAllocateSmall_fits:
  assumes inv: "alloc_state g n S K os fs rs" and s: "Main self \<in> set os"
    and sz: "16 \<le> sz" "sz \<le> 8192" "8 dvd sz" and fit: "la_cursor (locals g self) + sz \<le> la_limit (locals g self)"
  shows "placement (LocalAllocator_tryAllocateSmall collect g self sz) g self sz S K os rs"
  using place_step [OF inv s _ sz, of self] fit
  by (auto simp: LocalAllocator_tryAllocateSmall.simps [of collect g] Let_def slot_of_def upd_local_def placement_def) blast

text \<open>What happens when the object does not fit the region: it overflows, or the next hole is tried.\<close>

lemma tryAllocateSmall_cases:
  assumes "alloc_state g n S K os fs rs" and "quiet g" and s: "Main self \<in> set os" "Overflow self \<in> set os"
    and sz: "16 \<le> sz" "sz \<le> 8192" "8 dvd sz"
  shows "placed_outcome (LocalAllocator_tryAllocateSmall collect g self sz) g self sz S K os rs \<or>
    LocalAllocator_tryAllocateSmall collect g self sz =
      (case LocalAllocator_findNextHole g self of
         (g, found) \<Rightarrow> if found then LocalAllocator_tryAllocateSmall collect g self sz else ret (g, 0))"
proof (cases "la_cursor (locals g self) + sz \<le> la_limit (locals g self)")
  case True
  then show ?thesis using tryAllocateSmall_fits [OF assms(1) s(1) sz] by (simp add: placed_outcome_def)
next
  case False
  then show ?thesis
    using overflowAllocateSmall_spec [OF assms(1,2) s(2) sz, of collect]
    by (subst (1 2) LocalAllocator_tryAllocateSmall.simps) (simp add: Let_def)
qed

lemma tryAllocateSmall_spec:
  assumes "alloc_state g n S K os fs rs" and "quiet g" and s: "Main self \<in> set os" "Overflow self \<in> set os"
    and sz: "16 \<le> sz" "sz \<le> 8192" "8 dvd sz" and "main_chain (heap g) S K (locals g self) hs"
  shows "placed_outcome (LocalAllocator_tryAllocateSmall collect g self sz) g self sz S K os rs \<or>
    used_up (LocalAllocator_tryAllocateSmall collect g self sz) g self n S K os fs rs"
  using assms(1,2,8)
proof (induction hs arbitrary: g)
  case Nil
  have nx: "la_next (locals g self) = 0" using Nil.prems(3) by (simp add: main_chain_def)
  then have "LocalAllocator_findNextHole g self = (g, False)" by (simp add: LocalAllocator_findNextHole_def)
  moreover have "used_up (ret (g, 0)) g self n S K os fs rs" using Nil.prems(1) nx by (simp add: used_up_def only_local_def same_size_def)
  ultimately show ?case using tryAllocateSmall_cases [OF Nil.prems(1,2) s sz, of collect] by auto
next
  case (Cons hl hs)
  note inv = Cons.prems(1)
  define g1 where "g1 = fst (LocalAllocator_findNextHole g self)"
  note N = next_hole [OF inv Cons.prems(3), folded g1_def]
  have kept: "kept K (heap g) (heap g1)" by (simp add: N(3))
  from Cons.IH [OF N(2) steady_quiet [OF N(5) Cons.prems(2)] N(4)]
  have "placed_outcome (LocalAllocator_tryAllocateSmall collect g1 self sz) g self sz S K os rs \<or>
    used_up (LocalAllocator_tryAllocateSmall collect g1 self sz) g self n S K os fs rs"
    using placed_outcome_trans [OF inv N(5) kept N(6,7)] used_up_trans [OF N(5,3,6,7)] by blast
  then show ?case using tryAllocateSmall_cases [OF inv Cons.prems(2) s sz, of collect] N(1) by auto
qed

section \<open>\<open>allocateSmall\<close>\<close>

text \<open>What is the same after an allocation, whatever it has counted.\<close>

definition stable :: "'a lheap_scheme \<Rightarrow> 'a lheap_scheme \<Rightarrow> bool" where
  "stable g g' \<longleftrightarrow> lock_depth g' = lock_depth g \<and> is_collecting g' = is_collecting g \<and> lheap.more g' = lheap.more g \<and>
     same_large (global g) (global g') \<and> outside (global g) (heap g) (heap g')"

lemma steady_stable: "steady g g' \<Longrightarrow> stable g g'"
  by (simp add: steady_def stable_def)

lemma stable_trans: "stable g g1 \<Longrightarrow> stable g1 g2 \<Longrightarrow> stable g g2"
  using same_large_trans outside_trans unfolding stable_def by metis

text \<open>What a caller observes: the header of the object is at \<open>p - 16\<close>.\<close>

definition small_object :: "('a lheap_scheme \<times> addr) prog \<Rightarrow> 'a lheap_scheme \<Rightarrow> addr \<Rightarrow> nat \<Rightarrow> nat \<Rightarrow> addr set \<Rightarrow> addr set
    \<Rightarrow> slot list \<Rightarrow> bool" where
  "small_object r g self sz at S K os \<longleftrightarrow>
     (\<exists>g' c n fs rs. r = ret (g', c + 16) \<and> alloc_state g' n (insert c S) (insert c K) os fs rs \<and> c \<notin> S \<and> clear_of S c sz \<and>
        (\<forall>x \<in> K. x + Object_size (heap g) x \<le> c \<or> c + sz \<le> x) \<and> kept K (heap g) (heap g') \<and>
        Object_size (heap g') c = sz \<and> Object_atomic (heap g') c = at \<and> only_local self g g' \<and> stable g g')"

definition small_outcome :: "('a lheap_scheme \<times> addr) prog \<Rightarrow> 'a lheap_scheme \<Rightarrow> addr \<Rightarrow> nat \<Rightarrow> nat \<Rightarrow> addr set \<Rightarrow> addr set
    \<Rightarrow> slot list \<Rightarrow> bool" where
  "small_outcome r g self sz at S K os \<longleftrightarrow> r = abort_with ''GC: out of memory'' \<and> full (global g) \<or> small_object r g self sz at S K os"

lemma allocated_fields:
  assumes "16 \<le> sz" "sz \<le> 8192" "at < 256"
  shows "Object_size (Object_allocate m c sz at) c = sz" "Object_atomic (Object_allocate m c sz at) c = at"
  using assms by (simp_all add: Object_allocate_def Object_set_size_def Object_size_def Object_atomic_def load_store_other load_store_same)

lemma loop_placed:
  assumes p: "placement (LocalAllocator_tryAllocateSmall collect g self rsize) g self rsize S K os rs"
    and sz: "16 \<le> rsize" "rsize \<le> 8192" "at < 256"
  shows "small_object (allocateSmall_loop collect g self sz rsize at) g self rsize at S K os"
  using p unfolding placement_def
proof (elim exE conjE)
  fix g1 c n fs
  assume r: "LocalAllocator_tryAllocateSmall collect g self rsize = ret (g1, c)" and pl: "placed_at g g1 self rsize c n S K os fs rs"
  let ?g = "upd_global (\<lambda>a. GlobalAllocator_incrementCounters a sz) (g1\<lparr>heap := Object_allocate (heap g1) c rsize at\<rparr>)"
  have P: "c \<noteq> 0" "c \<notin> S" "\<forall>x \<in> K. x + Object_size (heap g) x \<le> c \<or> c + rsize \<le> x"
    "alloc_inv (Object_allocate (heap g1) c rsize at) (global g1) (locals g1) n (insert c S) (insert c K) os fs rs"
    "kept K (heap g) (Object_allocate (heap g1) c rsize at)" "steady g g1" "only_local self g g1" "clear_of S c rsize"
    "outside (global g) (heap g) (Object_allocate (heap g1) c rsize at)"
    using pl sz(3) by (auto simp: placed_at_def)
  have "allocateSmall_loop collect g self sz rsize at = ret (?g, c + 16)"
    using P(1) by (subst allocateSmall_loop.simps) (simp add: r Object_mutatorAddress_def)
  moreover have "alloc_state ?g n (insert c S) (insert c K) os fs rs"
    using P(4) by (simp add: alloc_state_def alloc_inv_def upd_global_def GlobalAllocator_incrementCounters_def space_ok_def)
  ultimately show ?thesis
    using P allocated_fields [OF sz, of "heap g1" c] unfolding small_object_def
    by (intro exI [of _ ?g] exI [of _ c] exI [of _ n] exI [of _ fs] exI [of _ rs] conjI)
      (simp_all add: upd_global_def stable_def steady_def only_local_def same_large_def GlobalAllocator_incrementCounters_def)
qed

lemma small_object_trans:
  assumes inv: "alloc_state g n0 S K os0 fs0 rs0" and s: "steady g g1" "kept K (heap g) (heap g1)" "only_local self g g1"
    and "small_object r g1 self sz at S K os"
  shows "small_object r g self sz at S K os"
proof -
  have l: "small_layout (heap g) (small_heap_start (global g)) n0 S" "K \<subseteq> S"
    using inv alloc_invD(1,2) by (auto simp: alloc_state_def)
  from assms(5) show ?thesis
    unfolding small_object_def
  proof (elim exE conjE)
    fix g' c n fs rs
    assume r: "r = ret (g', c + 16)" "alloc_state g' n (insert c S) (insert c K) os fs rs" "c \<notin> S"
      "\<forall>x \<in> K. x + Object_size (heap g1) x \<le> c \<or> c + sz \<le> x" "kept K (heap g1) (heap g')"
      "Object_size (heap g') c = sz" "Object_atomic (heap g') c = at" "only_local self g1 g'" "stable g1 g'" "clear_of S c sz"
    have "\<forall>x \<in> K. x + Object_size (heap g) x \<le> c \<or> c + sz \<le> x" using r(4) kept_size [OF s(2) l] by simp
    moreover have "stable g g'" by (rule stable_trans [OF steady_stable [OF s(1)] r(9)])
    moreover have "only_local self g g'" using r(8) s(3) by (auto simp: only_local_def)
    ultimately show "\<exists>g' c n fs rs. r = ret (g', c + 16) \<and> alloc_state g' n (insert c S) (insert c K) os fs rs \<and> c \<notin> S \<and> clear_of S c sz \<and>
        (\<forall>x \<in> K. x + Object_size (heap g) x \<le> c \<or> c + sz \<le> x) \<and> kept K (heap g) (heap g') \<and>
        Object_size (heap g') c = sz \<and> Object_atomic (heap g') c = at \<and> only_local self g g' \<and> stable g g'"
      using r(1-3,6,7,10) kept_trans [OF s(2) r(5) l] by blast
  qed
qed

lemma small_outcome_trans:
  assumes "alloc_state g n0 S K os0 fs0 rs0" "steady g g1" "kept K (heap g) (heap g1)" "only_local self g g1" "same_size g g1"
    and "small_outcome r g1 self sz at S K os"
  shows "small_outcome r g self sz at S K os"
  using assms(2,5,6) small_object_trans [OF assms(1-4)] full_cong [of g g1] unfolding small_outcome_def steady_def by blast

text \<open>One round: the object is placed, or another block is taken.\<close>

lemma loop_step:
  assumes inv: "alloc_state g n S K os fs rs" and quiet: "quiet g" and s: "Main self \<in> set os" "Overflow self \<in> set os"
    and sz: "16 \<le> rsize" "rsize \<le> 8192" "8 dvd rsize" "at < 256"
  shows "small_outcome (allocateSmall_loop collect g self sz rsize at) g self rsize at S K os \<or>
    (\<exists>g1 n1 fs1 rs1. allocateSmall_loop collect g self sz rsize at = allocateSmall_loop collect g1 self sz rsize at \<and>
       alloc_state g1 n1 S K os fs1 rs1 \<and> steady g g1 \<and> kept K (heap g) (heap g1) \<and> only_local self g g1 \<and>
       (if rs = [] then rs1 = [] \<and> la_cursor (locals g1 self) + 8192 \<le> la_limit (locals g1 self) else rs1 = tl rs \<and> same_size g g1))"
proof -
  have "slot_ok (heap g) S K (locals g) (Main self)" by (rule alloc_invD(10) [OF inv [unfolded alloc_state_def] s(1)])
  then obtain hs where "main_chain (heap g) S K (locals g self) hs" by (auto simp: main_ok_chain)
  from tryAllocateSmall_spec [OF inv quiet s sz(1-3) this, of collect] show ?thesis
  proof
    assume "placed_outcome (LocalAllocator_tryAllocateSmall collect g self rsize) g self rsize S K os rs"
    then show ?thesis
      using loop_placed [OF _ sz(1,2,4), of collect g self S K os rs]
      by (auto simp: placed_outcome_def small_outcome_def allocateSmall_loop.simps [of collect g])
  next
    assume "used_up (LocalAllocator_tryAllocateSmall collect g self rsize) g self n S K os fs rs"
    then obtain g0 where g0: "LocalAllocator_tryAllocateSmall collect g self rsize = ret (g0, 0)" "alloc_state g0 n S K os fs rs"
      "steady g g0" "heap g0 = heap g" "only_local self g g0" "la_next (locals g0 self) = 0" "same_size g g0"
      by (auto simp: used_up_def)
    have fl: "full (global g0) = full (global g)" using g0(3,7) full_cong by (auto simp: steady_def)
    have un: "allocateSmall_loop collect g self sz rsize at =
        pbind (LocalAllocator_initCursor collect g0 self) (\<lambda>g. allocateSmall_loop collect g self sz rsize at)"
      by (subst allocateSmall_loop.simps) (simp add: g0(1))
    have os: "distinct os" "set os \<subseteq> insert (Main self) (set os)" using alloc_state_distinct [OF inv] by auto
    from initCursor_spec [OF g0(2) steady_quiet [OF g0(3) quiet] os impI [OF g0(6)], of collect] show ?thesis
    proof (elim disjE exE conjE)
      assume "LocalAllocator_initCursor collect g0 self = abort_with ''GC: out of memory''" "full (global g0)" "fs = []"
      then show ?thesis using un fl by (simp add: small_outcome_def)
    next
      fix g1 n1 fs1 rs1
      assume g1: "LocalAllocator_initCursor collect g0 self = ret g1" "alloc_state g1 n1 S K os fs1 rs1" "steady g0 g1"
        "kept K (heap g0) (heap g1)" "only_local self g0 g1"
        "if rs = [] then rs1 = [] \<and> la_cursor (locals g1 self) + 8192 \<le> la_limit (locals g1 self) else rs1 = tl rs \<and> same_size g0 g1"
      have "steady g g1" "kept K (heap g) (heap g1)" "only_local self g g1"
        using g0(3-5) g1(3-5) steady_trans by (auto simp: only_local_def)
      moreover have "allocateSmall_loop collect g self sz rsize at = allocateSmall_loop collect g1 self sz rsize at"
        unfolding un by (simp add: g1(1))
      moreover have "if rs = [] then rs1 = [] \<and> la_cursor (locals g1 self) + 8192 \<le> la_limit (locals g1 self)
          else rs1 = tl rs \<and> same_size g g1" using g1(6) g0(7) by (auto simp: same_size_def)
      ultimately show ?thesis using g1(2) by blast
    qed
  qed
qed

lemma allocateSmall_loop_spec:
  assumes "alloc_state g n S K os fs rs" and "quiet g" and s: "Main self \<in> set os" "Overflow self \<in> set os"
    and sz: "16 \<le> rsize" "rsize \<le> 8192" "8 dvd rsize" "at < 256"
  shows "small_outcome (allocateSmall_loop collect g self sz rsize at) g self rsize at S K os"
  using assms(1,2)
proof (induction rs arbitrary: g n fs)
  case Nil
  from loop_step [OF Nil.prems s sz, where collect = collect and sz = sz] show ?case
  proof (elim disjE exE conjE)
    fix g1 n1 fs1 rs1
    assume g1: "allocateSmall_loop collect g self sz rsize at = allocateSmall_loop collect g1 self sz rsize at"
      "alloc_state g1 n1 S K os fs1 rs1" "steady g g1" "kept K (heap g) (heap g1)" "only_local self g g1"
      "if [] = [] then rs1 = [] \<and> la_cursor (locals g1 self) + 8192 \<le> la_limit (locals g1 self) else rs1 = tl [] \<and> same_size g g1"
    have "la_cursor (locals g1 self) + rsize \<le> la_limit (locals g1 self)" using g1(6) sz(2) by simp
    from loop_placed [OF tryAllocateSmall_fits [OF g1(2) s(1) sz(1-3) this] sz(1,2,4)]
    show ?thesis unfolding g1(1) small_outcome_def by (intro disjI2 small_object_trans [OF Nil.prems(1) g1(3-5)])
  qed
next
  case (Cons b rs)
  from loop_step [OF Cons.prems s sz, where collect = collect and sz = sz] show ?case
  proof (elim disjE exE conjE)
    fix g1 n1 fs1 rs1
    assume g1: "allocateSmall_loop collect g self sz rsize at = allocateSmall_loop collect g1 self sz rsize at"
      "alloc_state g1 n1 S K os fs1 rs1" "steady g g1" "kept K (heap g) (heap g1)" "only_local self g g1"
      "if b # rs = [] then rs1 = [] \<and> la_cursor (locals g1 self) + 8192 \<le> la_limit (locals g1 self) else rs1 = tl (b # rs) \<and> same_size g g1"
    have g: "alloc_state g1 n1 S K os fs1 rs" "same_size g g1" using g1(2,6) by simp_all
    from Cons.IH [OF g(1) steady_quiet [OF g1(3) Cons.prems(2)]]
    show ?thesis unfolding g1(1) by (rule small_outcome_trans [OF Cons.prems(1) g1(3-5) g(2)])
  qed
qed

end
