(* ===== verification/Cycle.thy ===== *)
theory Cycle
  imports Collection Small_Alloc
begin

text \<open>
  From one collection to the next: what the sweep leaves is what the allocators need, so that collections and allocations
  can alternate for ever.
\<close>

section \<open>The holes of a swept block\<close>

definition hole_addrs :: "addr \<Rightarrow> (nat \<times> nat) list \<Rightarrow> (addr \<times> addr) list" where
  "hole_addrs b hs = map (\<lambda>(s, e). (line_addr b s, line_addr b e)) hs"

lemma hole_chain_ok:
  assumes "hole_chain m b hs" and "sorted_wrt (\<lambda>g h. snd g < fst h) hs" and "\<And>h. h \<in> set hs \<Longrightarrow> fst h < snd h"
    and "\<And>s e. (s, e) \<in> set hs \<Longrightarrow> bump_ok m b T K (line_addr b s) (line_addr b s) (line_addr b e)"
    and "\<And>s e. (s, e) \<in> set hs \<Longrightarrow> lo \<le> line_addr b s"
    and "nx = (if hs = [] then 0 else line_addr b (fst (hd hs)))"
  shows "holes_ok m b T K lo nx (hole_addrs b hs)"
  using assms
proof (induction hs arbitrary: lo nx)
  case (Cons h hs)
  obtain s e where h: "h = (s, e)" by (cases h)
  have later: "line_addr b e \<le> line_addr b s'" if "(s', e') \<in> set hs" for s' e'
    using Cons.prems(2) that h by (auto simp: line_addr_def)
  have "holes_ok m b T K (line_addr b e) (Hole_next m (line_addr b s)) (hole_addrs b hs)"
    using Cons.prems(1-4) h later by (intro Cons.IH) (auto simp: Cons.prems(1))
  moreover have "line_addr b s < line_addr b e" using Cons.prems(3) [of h] h by (simp add: line_addr_def)
  moreover have "lo \<le> line_addr b s" "bump_ok m b T K (line_addr b s) (line_addr b s) (line_addr b e)"
    using Cons.prems(4,5) [of s e] h by simp_all
  ultimately show ?case using Cons.prems(1,6) h by (simp add: hole_addrs_def)
qed (simp add: hole_addrs_def)

text \<open>In a swept block no kept object begins in a hole, and no marked object reaches into one.\<close>

lemma swept_hole_bump:
  assumes r: "recycled m m' b" and bm: "Block_isMarked m b" and b: "is_block b" and lay: "layout m' b (kept_objects m b S)"
    and h: "(s, e) \<in> set (block_holes m b)"
    and K: "\<And>x. x \<in> kept_objects m b S \<Longrightarrow> x \<in> K \<Longrightarrow> lines_marked_for m b x (Object_size m' x)"
  shows "bump_ok m' b (kept_objects m b S) K (line_addr b s) (line_addr b s) (line_addr b e)"
proof -
  have se: "0 < s" "s < e" "e \<le> 127" using block_holes_bound [OF h] by auto
  have un: "\<not> line_marked m b k" if "s - 1 \<le> k" "k < e" for k
    using hole_spec_props [of s e 0 "line_marks m b 0"] h that se by (auto simp: block_holes_def line_marks_def)
  have mk: "line_marked m b (line_of b x)" if "x \<in> kept_objects m b S" for x
    using that bm by (simp add: kept_objects_def)
  have ls: "line_of b (line_addr b s) = s" by (subst line_of_iff) auto
  show ?thesis
    unfolding bump_ok_def
  proof (intro conjI ballI impI)
    show "\<exists>i < 127. line_addr b s = line_addr b i" using se by auto
    show "\<exists>j \<le> 127. line_addr b e = line_addr b j" using se by auto
    show "line_addr b s \<le> line_addr b s" "line_addr b s \<le> line_addr b e" using se by (simp_all add: line_addr_def)
    show "8 dvd line_addr b s" using is_block_dvd8 [OF b] by (rule line_addr_dvd)
    fix x assume x: "x \<in> kept_objects m b S"
    note d = layoutD [OF lay x]
    show "x + Object_size m' x \<le> line_addr b s \<or> (x \<notin> K \<and> line_of b x + 2 \<le> line_of b (line_addr b s))" if lt: "x < line_addr b s"
    proof (cases "x \<in> K")
      case True
      have "x + Object_size m' x \<le> line_addr b s \<or> line_addr b e \<le> x"
        using recycled_keeps_object [OF r bm K [OF x True] d(1,2)] d(3) h by fastforce
      then show ?thesis using lt se by (auto simp: line_addr_def)
    next
      case False
      have "line_of b x < s" using lt d(1) by (simp add: line_of_less_iff)
      then have "line_of b x + 2 \<le> s" using mk [OF x] un [of "line_of b x"] se by (cases "line_of b x + 2 \<le> s") auto
      then show ?thesis using False ls by simp
    qed
    assume "line_addr b s \<le> x" "x < line_addr b e"
    then have "s \<le> line_of b x" "line_of b x < e" using d(1) by (simp_all add: line_of_ge_iff line_of_less_iff)
    with un mk [OF x] have False by simp
    then show "x + Object_size m' x \<le> line_addr b s" "x + Object_size m' x \<in> kept_objects m b S \<or> x + Object_size m' x = line_addr b s"
      by simp_all
  qed
qed

lemma swept_recyclable:
  assumes r: "recycled m m' b" and bm: "Block_isMarked m b" and ne: "block_holes m b \<noteq> []" and b: "is_block b"
    and S: "block_objects S' b = kept_objects m b S" and lay: "layout m' b (kept_objects m b S)"
    and K: "\<And>x. x \<in> kept_objects m b S \<Longrightarrow> x \<in> K \<Longrightarrow> lines_marked_for m b x (Object_size m' x)"
  shows "recyclable_block m' S' K b"
proof -
  let ?hs = "block_holes m b"
  have R: "Block_isRecyclable m' b" "hole_chain m' b ?hs" "Block_first_free_line_index m' b = int (fst (hd ?hs))"
    using r bm ne by (auto simp: recycled_def)
  have bd: "0 < fst h" "fst h < snd h" "snd h \<le> 127" if "h \<in> set ?hs" for h
    using block_holes_bound [OF that] by auto
  have "holes_ok m' b (kept_objects m b S) K (b + 256) (line_addr b (fst (hd ?hs))) (hole_addrs b ?hs)"
    using swept_hole_bump [OF r bm b lay _ K] bd ne hole_spec_sorted
    by (intro hole_chain_ok [OF R(2)]) (auto simp: block_holes_def)
  moreover have "fst (hd ?hs) < 127" using bd [of "hd ?hs"] ne by simp
  ultimately show ?thesis
    using R(1,3) ne S by (auto simp: recyclable_block_def hole_addrs_def)
qed

section \<open>The allocators after a sweep\<close>

lemma blocks_from_distinct: "distinct (blocks_from a n)"
  by (auto simp: blocks_from_def distinct_map inj_on_def)

text \<open>The state the sweep leaves: no allocator owns a block, and the marked objects are those that matter.\<close>

lemma swept_alloc:
  assumes wf: "shape_wf h" and m: "marked_as h (heap g) M" and gs: "same_space (sh_global h) (global g)"
    and small: "cell_total (last (sh_cells h)) < 2 ^ 31" and sp: "space_ok (global g) (sh_blocks h)"
  shows "\<exists>fl rl cl m' rs. Collector_sweep g = ret (after_sweep g fl rl cl m') \<and>
    alloc_inv m' (global (after_sweep g fl rl cl m')) L (sh_blocks h) (swept_objects h (heap g)) (M \<inter> sh_objects h) []
      (filter (\<lambda>b. block_objects M b = {}) (shape_blocks h)) rs"
proof -
  let ?G = "sh_global h" and ?m = "heap g" and ?bs = "shape_blocks h" and ?S = "swept_objects h (heap g)"
  let ?K = "M \<inter> sh_objects h"
  from sweep_phase [OF wf m gs small] obtain fl rl cl m' where w: "Collector_sweep g = ret (after_sweep g fl rl cl m')"
    "shape_wf (shape_of (after_sweep g fl rl cl m') (sh_blocks h) ?S
      (sweep_cells (mark_cells M (large_heap_start ?G) (sh_cells h))))"
    "block_queue m' fl (free_part ?m ?bs)" "block_queue m' rl (recyclable_part ?m ?bs)"
    "\<forall>b \<in> set ?bs. recycled ?m m' b" "\<forall>x \<in> M. same_bytes ?m m' x (x + Object_size (sh_heap h) x)" by blast
  have start: "small_heap_start (global g) = small_heap_start ?G" using gs by (simp add: same_space_def)
  have bs: "?bs = blocks_from (small_heap_start (global g)) (sh_blocks h)" by (simp add: shape_blocks_def start)
  have lay: "small_layout m' (small_heap_start (global g)) (sh_blocks h) ?S"
    using shape_wfD(1) [OF w(2)] by (simp add: after_sweep_def)
  have free: "free_part ?m ?bs = filter (\<lambda>b. block_objects M b = {}) ?bs"
    unfolding free_part_def by (rule filter_cong [OF refl]) (use marked_asD(5,6) [OF m] in auto)
  have "free_block m' ?S b" if "b \<in> set (free_part ?m ?bs)" for b
    using that w(5) swept_in_block [OF wf, of b ?m] by (auto simp: free_part_def free_block_def recycled_def kept_objects_def)
  moreover have "recyclable_block m' ?S ?K b" if "b \<in> set (recyclable_part ?m ?bs)" for b
  proof -
    have b: "b \<in> set ?bs" "Block_isMarked ?m b" "block_holes ?m b \<noteq> []" using that by (auto simp: recyclable_part_def)
    note S = swept_in_block [OF wf b(1), of ?m]
    have l: "layout m' b (kept_objects ?m b (block_objects (sh_objects h) b))"
      using small_layoutD(3) [OF lay b(1) [unfolded bs]] unfolding S .
    have lines: "lines_marked_for ?m b x (Object_size m' x)"
      if x: "x \<in> kept_objects ?m b (block_objects (sh_objects h) b)" "x \<in> ?K" for x
    proof -
      have xb: "x \<in> block_objects M b" using x by (auto simp: kept_objects_def block_objects_def split: if_splits)
      have big: "16 \<le> Object_size (sh_heap h) x" by (rule marked_small_block(4) [OF wf marked_asD(1) [OF m] b(1) xb])
      have "Object_size m' x = Object_size ?m x"
        using w(6) x(2) big load_same_bytes [of ?m m' x "x + Object_size (sh_heap h) x" x 8] by (simp add: Object_size_def)
      also have "\<dots> = Object_size (sh_heap h) x"
        by (rule node_header_same(1) [OF wf m]) (use marked_asD(1) [OF m] x(2) in blast)
      finally show ?thesis using marked_asD(5) [OF m b(1) xb] by simp
    qed
    show ?thesis
      using w(5) b(1) by (intro swept_recyclable [OF _ b(2,3) block_facts(1) [OF wf b(1)] S l lines]) auto
  qed
  moreover have "?K \<subseteq> ?S" by (rule swept_small_nodes [OF wf m])
  moreover have "distinct (free_part ?m ?bs @ recyclable_part ?m ?bs)"
    using blocks_from_distinct [of "small_heap_start (global g)" "sh_blocks h"]
    by (auto simp: bs free_part_def recyclable_part_def)
  moreover have "set (free_part ?m ?bs @ recyclable_part ?m ?bs) \<subseteq> set ?bs"
    by (auto simp: free_part_def recyclable_part_def)
  moreover have "space_ok (global (after_sweep g fl rl cl m')) (sh_blocks h)" using sp by (simp add: after_sweep_def space_ok_def)
  ultimately have "alloc_inv m' (global (after_sweep g fl rl cl m')) L (sh_blocks h) ?S ?K [] (free_part ?m ?bs) (recyclable_part ?m ?bs)"
    using lay w(3,4) by (simp add: alloc_inv_def after_sweep_def bs)
  then show ?thesis using w(1) free by metis
qed

end
