(* ===== verification/Heap_State.thy ===== *)
theory Heap_State
  imports Immix Large_Space Cycle
begin

text \<open>
  The whole heap between two operations of the library: the small object space with the allocators that share it, and
  the large object space, each inside the address range its memory limit allows. Every operation of the interface takes
  such a heap to such a heap.
\<close>

section \<open>The invariant\<close>

definition slots :: "addr list \<Rightarrow> slot list" where
  "slots as = map Main as @ map Overflow as"

lemma set_slots [simp]: "s \<in> set (slots as) \<longleftrightarrow> (\<exists>a \<in> set as. s = Main a \<or> s = Overflow a)"
  by (auto simp: slots_def)

lemma distinct_slots [simp]: "distinct (slots as) \<longleftrightarrow> distinct as"
  by (auto simp: slots_def distinct_map inj_on_def)

text \<open>The two spaces are mapped apart, as far as the memory limit lets them grow.\<close>

definition spaces_apart :: "GlobalAllocator \<Rightarrow> bool" where
  "spaces_apart G \<longleftrightarrow> small_heap_start G + memory_limit G \<le> large_heap_start G \<or>
     large_heap_start G + memory_limit G \<le> small_heap_start G"

text \<open>
  \<open>S\<close> are the objects of the \<open>n\<close> blocks, \<open>K\<close> those of them that no one may overwrite, \<open>cs\<close> the chunks, and \<open>as\<close> the
  addresses of the local allocators.
\<close>

definition heap_ok :: "'a lheap_scheme \<Rightarrow> addr list \<Rightarrow> nat \<Rightarrow> addr set \<Rightarrow> addr set \<Rightarrow> cell list \<Rightarrow> bool" where
  "heap_ok g as n S K cs \<longleftrightarrow> (\<exists>fs rs. alloc_state g n S K (slots as) fs rs) \<and> large_wf g cs \<and> spaces_apart (global g) \<and>
     8 dvd large_heap_start (global g) \<and> (\<forall>c \<in> set cs. 8 dvd cell_size c)"

lemma heap_okD:
  assumes "heap_ok g as n S K cs"
  shows "large_wf g cs" "spaces_apart (global g)" "8 dvd large_heap_start (global g)" "c \<in> set cs \<Longrightarrow> 8 dvd cell_size c"
    "small_layout (heap g) (small_heap_start (global g)) n S" "K \<subseteq> S" "space_ok (global g) n"
proof -
  obtain fs rs where "alloc_inv (heap g) (global g) (locals g) n S K (slots as) fs rs"
    using assms by (auto simp: heap_ok_def alloc_state_def)
  from alloc_invD(1-3) [OF this] show "small_layout (heap g) (small_heap_start (global g)) n S" "K \<subseteq> S" "space_ok (global g) n"
    by blast+
qed (use assms in \<open>auto simp: heap_ok_def\<close>)

lemma heap_ok_shape:
  assumes "heap_ok g as n S K cs"
  shows "shape_wf (shape_of g n S cs)"
proof -
  note h = heap_okD [OF assms]
  have "small_heap_stop (global g) \<le> large_heap_start (global g) \<or> large_heap_stop (global g) \<le> small_heap_start (global g)"
    using h(1,2,7) by (auto simp: spaces_apart_def large_wf_def space_ok_def)
  then show ?thesis
    using h(1,3-5,7) by (simp add: shape_wf_def large_wf_def space_ok_def)
qed

text \<open>An allocation in the small object space leaves the large one alone.\<close>

lemma outside_large:
  assumes l: "large_wf g cs" and ap: "spaces_apart (global g)" and sl: "same_large (global g) (global g')"
    and out: "outside (global g) (heap g) (heap g')" and sp: "space_ok (global g) n" "space_ok (global g') n'"
  shows "large_wf g' cs" "spaces_apart (global g')" "same_bytes (heap g) (heap g') (large_heap_start (global g)) (large_heap_stop (global g))"
proof -
  let ?G = "global g" and ?G' = "global g'"
  have eq: "small_heap_start ?G' = small_heap_start ?G" "memory_limit ?G' = memory_limit ?G" "large_heap_start ?G' = large_heap_start ?G"
    "large_heap_stop ?G' = large_heap_stop ?G" "large_heap_size ?G' = large_heap_size ?G" "large_chunk_list ?G' = large_chunk_list ?G"
    using sl by (auto simp: same_large_def)
  have top: "large_heap_stop ?G \<le> large_heap_start ?G + memory_limit ?G"
    using l sp(1) by (auto simp: large_wf_def space_ok_def)
  show same: "same_bytes (heap g) (heap g') (large_heap_start ?G) (large_heap_stop ?G)"
    unfolding same_bytes_def
  proof (intro allI impI)
    fix a assume "large_heap_start ?G \<le> a" "a < large_heap_stop ?G"
    then have "a < small_heap_start ?G \<or> small_heap_start ?G + memory_limit ?G \<le> a"
      using ap top by (auto simp: spaces_apart_def)
    then show "heap g a = heap g' a" using out unfolding outside_def by metis
  qed
  have "chunk_seg (heap g') (large_heap_start ?G) cs 0"
    by (rule chunk_seg_cong) (use same l in \<open>auto simp: large_wf_def chunk_list_def\<close>)
  moreover have "small_heap_size ?G' + large_heap_size ?G < 2 ^ 63" using sp(2) eq(5) by (simp add: space_ok_def)
  ultimately show "large_wf g' cs" using l by (simp add: large_wf_def eq chunk_list_def)
  show "spaces_apart ?G'" using ap by (simp add: spaces_apart_def eq)
qed

lemma heap_ok_steady:
  assumes ok: "heap_ok g as n S K cs" and st: "steady g g'" and inv: "alloc_state g' n' S' K' (slots as') fs rs"
  shows "heap_ok g' as' n' S' K' cs"
proof -
  note h = heap_okD [OF ok]
  have sl: "same_large (global g) (global g')" and out: "outside (global g) (heap g) (heap g')"
    using st by (simp_all add: steady_def)
  have "space_ok (global g') n'" using inv alloc_invD(3) by (auto simp: alloc_state_def)
  note L = outside_large [OF h(1,2) sl out h(7) this]
  have "large_heap_start (global g') = large_heap_start (global g)" using sl by (simp add: same_large_def)
  then show ?thesis using inv L(1,2) h(3,4) unfolding heap_ok_def by auto
qed

section \<open>Small objects\<close>

text \<open>The size of the block that \<open>GC_malloc\<close> carves out for \<open>sz\<close> bytes: with the header, rounded to words.\<close>

definition rounded :: "nat \<Rightarrow> nat" where
  "rounded sz = ROUND_TO_NEXT_MULTIPLE (size_add sz sizeof_Object) WORD_SIZE"

lemma rounded_bounds:
  assumes "sz \<le> 8176"
  shows "sz + 16 \<le> rounded sz" "rounded sz \<le> 8192" "8 dvd rounded sz"
proof -
  have r: "rounded sz = ROUND_TO_NEXT_MULTIPLE (sz + 16) 8" using assms by (simp add: rounded_def)
  note R = ROUND_props [of 8 "sz + 16"]
  show "sz + 16 \<le> rounded sz" "8 dvd rounded sz" using R assms by (simp_all add: r)
  have "rounded sz < 8200" using R(3) assms by (simp add: r)
  moreover have "rounded sz mod 8 = 0" using \<open>8 dvd rounded sz\<close> by (simp add: dvd_eq_mod_eq_0)
  ultimately show "rounded sz \<le> 8192" by presburger
qed

text \<open>
  What the caller of an allocation in the small object space gets: the object's header is at \<open>c\<close>, its payload right
  behind; no byte of an object that matters is lost, and none is part of the new object.
\<close>

definition fresh_object :: "'a lheap_scheme \<Rightarrow> 'a lheap_scheme \<Rightarrow> addr \<Rightarrow> nat \<Rightarrow> nat \<Rightarrow> addr set \<Rightarrow> bool" where
  "fresh_object g g' c sz at K \<longleftrightarrow> Object_size (heap g') c = sz \<and> Object_atomic (heap g') c = at \<and>
     (\<forall>x \<in> K. \<forall>a. x \<le> a \<longrightarrow> a < x + Object_size (heap g) x \<longrightarrow> heap g' a = heap g a \<and> \<not> (c \<le> a \<and> a < c + sz)) \<and>
     same_bytes (heap g) (heap g') (large_heap_start (global g)) (large_heap_stop (global g)) \<and>
     stable g g'"

lemma allocateSmall_spec:
  assumes ok: "heap_ok g as n S K cs" and quiet: "quiet g" and self: "self \<in> set as"
    and sz: "sz \<le> 8176" and at: "at < 256"
  shows "LocalAllocator_allocateSmall collect g self sz at = abort_with ''GC: out of memory'' \<and> full (global g) \<or>
    (\<exists>g' c n'. LocalAllocator_allocateSmall collect g self sz at = ret (g', c + 16) \<and>
       heap_ok g' as n' (insert c S) (insert c K) cs \<and> c \<notin> S \<and> clear_of S c (rounded sz) \<and> fresh_object g g' c (rounded sz) at K)"
proof -
  note h = heap_okD [OF ok] and r = rounded_bounds [OF sz]
  obtain fs rs where inv: "alloc_state g n S K (slots as) fs rs" using ok by (auto simp: heap_ok_def)
  have eq: "LocalAllocator_allocateSmall collect g self sz at = allocateSmall_loop collect g self sz (rounded sz) at"
    using r(2) by (simp add: LocalAllocator_allocateSmall_def rounded_def Let_def)
  have slots: "Main self \<in> set (slots as)" "Overflow self \<in> set (slots as)" and r16: "16 \<le> rounded sz"
    using self r(1) by simp_all
  from allocateSmall_loop_spec [OF inv quiet slots r16 r(2,3) at, of collect sz]
  have "small_outcome (LocalAllocator_allocateSmall collect g self sz at) g self (rounded sz) at S K (slots as)"
    unfolding eq .
  then show ?thesis
    unfolding small_outcome_def
  proof (elim disjE)
    assume "small_object (LocalAllocator_allocateSmall collect g self sz at) g self (rounded sz) at S K (slots as)"
    then obtain g' c n' fs' rs' where o: "LocalAllocator_allocateSmall collect g self sz at = ret (g', c + 16)"
      "alloc_state g' n' (insert c S) (insert c K) (slots as) fs' rs'" "c \<notin> S"
      "\<forall>x \<in> K. x + Object_size (heap g) x \<le> c \<or> c + rounded sz \<le> x" "kept K (heap g) (heap g')"
      "Object_size (heap g') c = rounded sz" "Object_atomic (heap g') c = at" "stable g g'" "clear_of S c (rounded sz)"
      by (auto simp: small_object_def)
    have sl: "same_large (global g) (global g')" "outside (global g) (heap g) (heap g')" using o(8) by (simp_all add: stable_def)
    have "space_ok (global g') n'" using o(2) alloc_invD(3) by (auto simp: alloc_state_def)
    note out = outside_large [OF h(1,2) sl h(7) this]
    have "large_heap_start (global g') = large_heap_start (global g)" using sl(1) by (simp add: same_large_def)
    then have "heap_ok g' as n' (insert c S) (insert c K) cs"
      using o(2) out(1,2) h(3,4) by (auto simp: heap_ok_def)
    moreover have "fresh_object g g' c (rounded sz) at K"
      using o(4-8) out(3) by (fastforce simp: fresh_object_def kept_def same_bytes_def)
    ultimately show ?thesis using o(1,3,9) by blast
  qed blast
qed

section \<open>A collection and the allocators\<close>

text \<open>What a collection assumes of the program: its data sections, its collect callback and its finalizers.\<close>

definition client_ok :: "'a cheap_scheme client \<Rightarrow> 'a cheap_scheme \<Rightarrow> range list \<Rightarrow> bool" where
  "client_ok env g rs \<longleftrightarrow> DATA_START env \<le> DATA_END env \<and> BSS_START env \<le> BSS_END env \<and>
     callback_adds env (collect_callback g) rs \<and> harmless (call_finalizer env) \<and> hash_wf (finalizers (global g)) \<and> stack_wf (roots g)"

text \<open>The objects that matter after a collection are those it marked.\<close>

definition collected :: "'a cheap_scheme \<Rightarrow> 'a cheap_scheme \<Rightarrow> shape \<Rightarrow> range set \<Rightarrow> addr set \<Rightarrow> addr set \<Rightarrow> nat \<Rightarrow> cell list \<Rightarrow> bool" where
  "collected g g' h R M S' n cs' \<longleftrightarrow> shape_wf (shape_of g' n S' cs') \<and> large_wf g' cs' \<and>
     reachable h R \<subseteq> M \<and> M \<subseteq> possibly_reachable h R \<and> M \<inter> sh_objects h \<subseteq> S' \<and> S' \<subseteq> sh_objects h \<and>
     large_nodes (shape_of g' n S' cs') = M \<inter> large_nodes h \<and>
     (\<forall>x \<in> M. \<forall>a. x \<le> a \<longrightarrow> a < x + Object_size (heap g) x \<longrightarrow> \<not> mark_byte h a \<longrightarrow> heap g' a = heap g a) \<and>
     same_large (global g) ((global g')\<lparr>large_chunk_list := large_chunk_list (global g), finalizers := finalizers (global g)\<rparr>) \<and>
     space_ok (global g') n"

lemma swept_large:
  assumes l: "large_wf g cs" and wf: "shape_wf (shape_of g' n S' cs')"
    and eq: "large_heap_start (global g') = large_heap_start (global g)" "large_heap_stop (global g') = large_heap_stop (global g)"
      "large_heap_size (global g') = large_heap_size (global g)" "small_heap_size (global g') = small_heap_size (global g)"
      "memory_limit (global g') = memory_limit (global g)"
  shows "large_wf g' cs'"
  using l shape_wfD(3,4) [OF wf] by (simp add: large_wf_def eq)

text \<open>
  The finalizers ran in a state \<open>g5\<close> in which exactly the objects \<open>M\<close> were marked; behind them only the heap and the lists of the
  global allocator have changed.
\<close>

definition finalized :: "'a cheap_scheme client \<Rightarrow> 'a cheap_scheme \<Rightarrow> 'a cheap_scheme \<Rightarrow> shape \<Rightarrow> addr set \<Rightarrow> bool" where
  "finalized env g g' h M \<longleftrightarrow> (\<exists>g5 g6 G m. before_finalizers g g5 \<and>
     GlobalAllocator_finalizeObjects (call_finalizer env) g5 = ret g6 \<and>
     (\<forall>x \<in> nodes h. Object_isMarked (heap g5) x \<longleftrightarrow> x \<in> M) \<and> g' = g6\<lparr>global := G, heap := m\<rparr> \<and>
     finalizers G = finalizers (global g6))"

lemma finalized_keeps:
  assumes f: "finalized env g g' h M" and P: "not_collected env P" "P g" and hash: "hash_wf (finalizers (global g))"
  shows "P g'"
proof -
  obtain g5 g6 G m where r: "before_finalizers g g5" "GlobalAllocator_finalizeObjects (call_finalizer env) g5 = ret g6"
    "g' = g6\<lparr>global := G, heap := m\<rparr>" using f by (auto simp: finalized_def)
  have "hash_wf (finalizers (global g5))"
    using hash before_finalizers_global [OF r(1)] by (simp add: GlobalAllocator_resetCounters_def)
  from finalize_frame [OF P(1) this before_finalizers_keeps [OF r(1) P] r(2)] show ?thesis
    using P(1) by (simp add: r(3) not_collected_def)
qed

lemma collect_alloc:
  assumes ok: "heap_ok g as n S K cs" and cl: "client_ok env g rs" and small: "cell_total (last cs) < 2 ^ 31"
  defines "h \<equiv> shape_of g n S cs"
  shows "\<exists>g' M S' cs' bs. Collector_collect env g = ret g' \<and> collected g g' h (root_ranges env rs g) M S' n cs' \<and>
    (\<forall>L. alloc_inv (heap g') (global g') L n S' (M \<inter> S) [] (filter (\<lambda>b. block_objects M b = {}) (shape_blocks h)) bs) \<and>
    hash_wf (finalizers (global g')) \<and> finalized env g g' h M"
proof -
  note wf = heap_ok_shape [OF ok] and k = heap_okD [OF ok]
  have c: "DATA_START env \<le> DATA_END env" "BSS_START env \<le> BSS_END env" "callback_adds env (collect_callback g) rs"
    "harmless (call_finalizer env)" "hash_wf (finalizers (global g))" "stack_wf (roots g)"
    using cl by (simp_all add: client_ok_def)
  from collect_run [OF wf c(6,1-5), folded h_def] obtain g5 g6 M m2 table where r: "Collector_collect env g = Collector_sweep g6"
    "shape_wf (shape_of (g\<lparr>heap := m2\<rparr>) n S (clear_cells cs))" "same_shape h (shape_of (g\<lparr>heap := m2\<rparr>) n S (clear_cells cs))"
    "marked_as (shape_of (g\<lparr>heap := m2\<rparr>) n S (clear_cells cs)) (heap g6) M"
    "reachable h (root_ranges env rs g) \<subseteq> M" "M \<subseteq> possibly_reachable h (root_ranges env rs g)" "hash_wf table"
    and gl: "global g6 = (global g)\<lparr>allocated_bytes_since_collect := 0, finalizers := table\<rparr>"
    and f: "before_finalizers g g5" "heap g5 = heap g6" "GlobalAllocator_finalizeObjects (call_finalizer env) g5 = ret g6"
    by (elim exE conjE) (rule that, assumption+)
  let ?h = "shape_of (g\<lparr>heap := m2\<rparr>) n S (clear_cells cs)"
  let ?S = "swept_objects ?h (heap g6)"
  from swept_spec [OF wf r(2) r(3) [unfolded h_def] r(4) gl small, folded h_def] obtain fl rl cl m' cs' where
    w: "Collector_sweep g6 = ret (after_sweep g6 fl rl cl m')" "shape_wf (shape_of (after_sweep g6 fl rl cl m') n ?S cs')"
    "M \<inter> S \<subseteq> ?S" "?S \<subseteq> S" "large_nodes (shape_of (after_sweep g6 fl rl cl m') n ?S cs') = M \<inter> large_nodes h"
    "\<forall>x \<in> M. \<forall>a. x \<le> a \<longrightarrow> a < x + Object_size (heap g) x \<longrightarrow> \<not> mark_byte h a \<longrightarrow> m' a = heap g a"
    by (elim exE conjE) (rule that, assumption+)
  let ?g = "after_sweep g6 fl rl cl m'"
  have sp: "same_space (sh_global ?h) (global g6)" using gl by (simp add: same_space_def)
  have "cs \<noteq> []" using shape_wfD(3) [OF wf] by (simp add: chunk_list_def)
  then have last: "cell_total (last (sh_cells ?h)) < 2 ^ 31" using small last_clear_cells by simp
  have sp6: "space_ok (global g6) (sh_blocks ?h)" using k(7) gl by (simp add: space_ok_def)
  have bs: "shape_blocks ?h = shape_blocks h" by (simp add: shape_blocks_def h_def)
  obtain fl2 rl2 cl2 m2' bs where a: "Collector_sweep g6 = ret (after_sweep g6 fl2 rl2 cl2 m2')"
    "alloc_inv m2' (global (after_sweep g6 fl2 rl2 cl2 m2')) (locals g) n ?S (M \<inter> S) []
      (filter (\<lambda>b. block_objects M b = {}) (shape_blocks h)) bs"
    using swept_alloc [OF r(2) r(4) sp last sp6, of "locals g"] unfolding bs shape_of_sel by blast
  have "after_sweep g6 fl2 rl2 cl2 m2' = ?g" using a(1) w(1) by simp
  moreover have "heap (after_sweep g6 fl2 rl2 cl2 m2') = m2'" by (simp add: after_sweep_def)
  ultimately have "alloc_inv (heap ?g) (global ?g) (locals g) n ?S (M \<inter> S) []
      (filter (\<lambda>b. block_objects M b = {}) (shape_blocks h)) bs" using a(2) by metis
  then have "alloc_inv (heap ?g) (global ?g) L n ?S (M \<inter> S) [] (filter (\<lambda>b. block_objects M b = {}) (shape_blocks h)) bs" for L
    by (simp add: alloc_inv_def)
  moreover have "collected g ?g h (root_ranges env rs g) M ?S n cs'"
  proof -
    have "large_wf ?g cs'" by (rule swept_large [OF k(1) w(2)]) (simp_all add: after_sweep_def gl)
    then show ?thesis
      unfolding collected_def using w(2-6) r(5,6) k(7) gl
      by (simp add: after_sweep_def same_large_def space_ok_def h_def)
  qed
  moreover have "\<forall>x \<in> nodes h. Object_isMarked (heap g5) x \<longleftrightarrow> x \<in> M"
    using marked_asD(4) [OF r(4)] same_shape_nodes(1) [OF r(3)] f(2) by simp
  then have "finalized env g ?g h M"
    using f(1,3) unfolding finalized_def after_sweep_def by (intro exI [of _ g5] exI [of _ g6]) auto
  moreover have "Collector_collect env g = ret ?g" using r(1) w(1) by simp
  moreover have "hash_wf (finalizers (global ?g))" using r(7) gl by (simp add: after_sweep_def)
  ultimately show ?thesis by blast
qed

section \<open>Resetting the allocators\<close>

text \<open>
  One allocator gets a block for its cursor and one for its overflow cursor. \<open>next\<close> is only written when the block is
  recyclable: with a free block, the value it had before must be \<open>NULL\<close>.
\<close>

lemma reset_spec:
  assumes inv: "alloc_state g n S K os fs rs" and quiet: "quiet g" and new: "distinct (Main a # Overflow a # os)"
    and nx: "rs = [] \<longrightarrow> la_next (locals g a) = 0"
  shows "LocalAllocator_reset collect g a = abort_with ''GC: out of memory'' \<and> length fs < 2 \<or>
    (\<exists>g' n' fs'. LocalAllocator_reset collect g a = ret g' \<and>
       alloc_state g' n' S K (Main a # Overflow a # os) fs' (tl rs) \<and> length fs \<le> length fs' + 2 \<and> (2 \<le> length fs \<longrightarrow> same_size g g') \<and>
       (rs = [] \<longrightarrow> la_next (locals g' a) = la_next (locals g a)) \<and> steady g g' \<and> kept K (heap g) (heap g') \<and> only_local a g g')"
proof -
  have os1: "distinct (Main a # os)" "set (Main a # os) \<subseteq> insert (Main a) (set os)" using new by auto
  from initCursor_spec [OF inv quiet os1 nx, of collect] show ?thesis
  proof (elim disjE exE conjE)
    assume "LocalAllocator_initCursor collect g a = abort_with ''GC: out of memory''" "fs = []"
    then show ?thesis by (simp add: LocalAllocator_reset_def)
  next
    fix g1 n1 fs1 rs1
    assume g1: "LocalAllocator_initCursor collect g a = ret g1" "alloc_state g1 n1 S K (Main a # os) fs1 rs1" "steady g g1"
      "kept K (heap g) (heap g1)" "only_local a g g1" "length fs \<le> Suc (length fs1)" "fs \<noteq> [] \<longrightarrow> same_size g g1"
      "rs = [] \<longrightarrow> la_next (locals g1 a) = la_next (locals g a)" "if rs = [] then rs1 = [] \<and> la_cursor (locals g1 a) + 8192 \<le> la_limit (locals g1 a) else rs1 = tl rs \<and> same_size g g1"
    have rs1: "rs1 = tl rs" using g1(9) by (cases "rs = []") auto
    let ?os = "Main a # Overflow a # os"
    have os2: "distinct ?os" "set ?os \<subseteq> insert (Overflow a) (set (Main a # os))" using new by auto
    from initOverflowCursor_spec [OF g1(2) steady_quiet [OF g1(3) quiet] os2, of collect] show ?thesis
    proof (elim disjE exE conjE)
      assume "LocalAllocator_initOverflowCursor collect g1 a = abort_with ''GC: out of memory''" "fs1 = []"
      then show ?thesis using g1(1,6) by (simp add: LocalAllocator_reset_def)
    next
      fix g2 n2 fs2
      assume g2: "LocalAllocator_initOverflowCursor collect g1 a = ret g2" "alloc_state g2 n2 S K ?os fs2 rs1"
        "steady g1 g2" "kept K (heap g1) (heap g2)" "only_local a g1 g2" "length fs1 \<le> Suc (length fs2)"
        "fs1 \<noteq> [] \<longrightarrow> same_size g1 g2" "la_next (locals g2 a) = la_next (locals g1 a)"
      have "small_layout (heap g) (small_heap_start (global g)) n S" "K \<subseteq> S"
        using inv alloc_invD(1,2) by (auto simp: alloc_state_def)
      then have "kept K (heap g) (heap g2)" by (rule kept_trans [OF g1(4) g2(4)])
      moreover have "steady g g2" by (rule steady_trans [OF g1(3) g2(3)])
      moreover have "only_local a g g2" using g1(5) g2(5) by (simp add: only_local_def)
      moreover have "LocalAllocator_reset collect g a = ret g2" using g1(1) g2(1) by (simp add: LocalAllocator_reset_def)
      moreover have "length fs \<le> length fs2 + 2" using g2(6) g1(6) by simp
      moreover have "same_size g g2" if "2 \<le> length fs"
      proof -
        have "fs \<noteq> []" "fs1 \<noteq> []" using that g1(6) by auto
        then show ?thesis using g1(7) g2(7) by (simp add: same_size_def)
      qed
      moreover have "rs = [] \<longrightarrow> la_next (locals g2 a) = la_next (locals g a)" using g1(8) g2(8) by simp
      ultimately show ?thesis using g2(2) rs1 by blast
    qed
  qed
qed

text \<open>The order of the slots does not matter.\<close>

lemma alloc_state_perm:
  assumes "alloc_state g n S K os fs rs" and "set os' = set os" and "distinct os'"
  shows "alloc_state g n S K os' fs rs"
proof -
  note i = alloc_invD [OF assms(1) [unfolded alloc_state_def]]
  have "inj_on (slot_block (locals g)) (set os')" using i(6) assms(2) by (simp add: distinct_map)
  then have "distinct (owned (locals g) os')" using assms(3) by (simp add: distinct_map)
  moreover have "set (owned (locals g) os') = set (owned (locals g) os)" using assms(2) by simp
  ultimately show ?thesis
    using i assms(2) unfolding alloc_state_def alloc_inv_def distinct_append set_append by simp
qed

text \<open>
  All allocators, one after the other. None of them may have a \<open>next\<close> hole left, unless there is a recyclable block
  for every one of them.
\<close>

lemma resets_spec:
  assumes "alloc_state g n S K (slots bs) fs rs" and "quiet g" and "distinct (bs @ as)"
    and "length as \<le> length rs \<or> (\<forall>a \<in> set as. la_next (locals g a) = 0)"
  shows "each_list (\<lambda>self g. LocalAllocator_reset collect g self) as g = abort_with ''GC: out of memory'' \<and> length fs < 2 * length as \<or>
    (\<exists>g' n' fs' rs'. each_list (\<lambda>self g. LocalAllocator_reset collect g self) as g = ret g' \<and>
       alloc_state g' n' S K (slots (bs @ as)) fs' rs' \<and> steady g g' \<and> kept K (heap g) (heap g') \<and>
       (\<forall>a. a \<notin> set as \<longrightarrow> locals g' a = locals g a))"
  using assms
proof (induction as arbitrary: g n bs fs rs)
  case Nil
  then show ?case by auto
next
  case (Cons a as)
  let ?each = "each_list (\<lambda>self g. LocalAllocator_reset collect g self)"
  have new: "distinct (Main a # Overflow a # slots bs)" using Cons.prems(3) by auto
  have nx: "rs = [] \<longrightarrow> la_next (locals g a) = 0" using Cons.prems(4) by auto
  from reset_spec [OF Cons.prems(1,2) new nx, of collect] show ?case
  proof (elim disjE exE conjE)
    fix g1 n1 fs1
    assume g1: "LocalAllocator_reset collect g a = ret g1" "alloc_state g1 n1 S K (Main a # Overflow a # slots bs) fs1 (tl rs)"
      "length fs \<le> length fs1 + 2" "steady g g1" "kept K (heap g) (heap g1)" "only_local a g g1"
    have inv: "alloc_state g1 n1 S K (slots (bs @ [a])) fs1 (tl rs)"
      by (rule alloc_state_perm [OF g1(2)]) (use Cons.prems(3) in \<open>auto simp: slots_def distinct_map inj_on_def\<close>)
    have "length as \<le> length (tl rs) \<or> (\<forall>a \<in> set as. la_next (locals g1 a) = 0)"
      using Cons.prems(3,4) g1(6) by (auto simp: only_local_def)
    from Cons.IH [OF inv steady_quiet [OF g1(4) Cons.prems(2)] _ this] Cons.prems(3)
    have "?each as g1 = abort_with ''GC: out of memory'' \<and> length fs1 < 2 * length as \<or>
      (\<exists>g' n' fs' rs'. ?each as g1 = ret g' \<and> alloc_state g' n' S K (slots ((bs @ [a]) @ as)) fs' rs' \<and>
         steady g1 g' \<and> kept K (heap g1) (heap g') \<and> (\<forall>b. b \<notin> set as \<longrightarrow> locals g' b = locals g1 b))"
      by simp
    then show ?case
    proof (elim disjE exE conjE)
      fix g2 n2 fs2 rs2
      assume g2: "?each as g1 = ret g2" "alloc_state g2 n2 S K (slots ((bs @ [a]) @ as)) fs2 rs2"
        "steady g1 g2" "kept K (heap g1) (heap g2)" "\<forall>b. b \<notin> set as \<longrightarrow> locals g2 b = locals g1 b"
      have "small_layout (heap g) (small_heap_start (global g)) n S" "K \<subseteq> S"
        using Cons.prems(1) alloc_invD(1,2) by (auto simp: alloc_state_def)
      then have "kept K (heap g) (heap g2)" by (rule kept_trans [OF g1(5) g2(4)])
      moreover have "\<forall>b. b \<notin> set (a # as) \<longrightarrow> locals g2 b = locals g b" using g1(6) g2(5) by (auto simp: only_local_def)
      ultimately show ?thesis
        using g1(1) g2(1,2) steady_trans [OF g1(4) g2(3)] by auto
    qed (use g1(1,3) in auto)
  qed auto
qed

section \<open>The state of the library\<close>

definition gc_ok :: "'a gc_scheme \<Rightarrow> nat \<Rightarrow> addr set \<Rightarrow> addr set \<Rightarrow> cell list \<Rightarrow> bool" where
  "gc_ok g n S K cs \<longleftrightarrow> array_wf (local_allocators g) \<and> distinct (items (local_allocators g)) \<and>
     heap_ok g (items (local_allocators g)) n S K cs"

lemma heap_ok_collecting [simp]: "heap_ok (g\<lparr>is_collecting := b\<rparr>) as n S K cs = heap_ok g as n S K cs"
  by (simp add: heap_ok_def alloc_state_def large_wf_def)

lemma more_cheap: "lheap.more g' = lheap.more g \<Longrightarrow> roots g' = roots g \<and> collect_callback g' = collect_callback g \<and> cheap.more g' = cheap.more g"
  by (cases g; cases g') simp

lemma more_gc: "lheap.more g' = lheap.more g \<Longrightarrow> local_allocators g' = local_allocators g \<and> current g' = current g \<and> gc.more g' = gc.more g"
  by (cases g; cases g') simp

text \<open>The finalizers of the program do not touch the state of the collector.\<close>

definition polite :: "'a program \<Rightarrow> bool" where
  "polite env \<longleftrightarrow> (\<forall>f p s. gc.truncate (call_finalizer env f p s) = gc.truncate s)"

lemma truncate_fields:
  assumes "gc.truncate s = gc.truncate t"
  shows "heap s = heap t" "global s = global t" "locals s = locals t" "lock_depth s = lock_depth t" "is_collecting s = is_collecting t"
    "local_allocators s = local_allocators t" "current s = current t" "roots s = roots t" "collect_callback s = collect_callback t"
  using assms by (simp_all add: gc.defs)

lemma polite_harmless: "polite env \<Longrightarrow> harmless (call_finalizer env)"
  using truncate_fields unfolding polite_def harmless_def by blast

definition control_as :: "'a gc_scheme \<Rightarrow> 'a gc_scheme \<Rightarrow> bool" where
  "control_as g s \<longleftrightarrow> locals s = locals g \<and> lock_depth s = lock_depth g \<and> is_collecting s = is_collecting g \<and>
     local_allocators s = local_allocators g \<and> current s = current g \<and> collect_callback s = collect_callback g"

lemma polite_control:
  assumes "polite env"
  shows "not_collected env (control_as g)"
proof -
  have "gc.truncate (call_finalizer env f p s) = gc.truncate s" for f p s using assms by (simp add: polite_def)
  note T = truncate_fields(3-7,9) [OF this]
  show ?thesis unfolding not_collected_def by (simp add: control_as_def T)
qed

text \<open>Behind the finalizers the mark stack is empty.\<close>

lemma finalized_drained:
  assumes f: "finalized env g g' h M" and pol: "polite env" and hash: "hash_wf (finalizers (global g))"
  shows "stack_wf (roots g') \<and> stack_pairs (roots g') = []"
proof -
  obtain g5 g6 G m where r: "before_finalizers g g5" "GlobalAllocator_finalizeObjects (call_finalizer env) g5 = ret g6"
    "g' = g6\<lparr>global := G, heap := m\<rparr>" using f by (auto simp: finalized_def)
  let ?cb = "GlobalAllocator_finalizeObjectCallback (call_finalizer env)"
  have "hash_wf (finalizers (global g5))"
    using hash before_finalizers_global [OF r(1)] by (simp add: GlobalAllocator_resetCounters_def)
  then obtain table where t: "Hash_deleteIf ?cb (finalizers (global g5)) g5 =
      ret (table, snd (run_callbacks ?cb (live_pairs (finalizers (global g5))) g5))"
    using hash_deleteIf_spec [of "finalizers (global g5)" ?cb g5] by blast
  have T: "roots (call_finalizer env f p s) = roots s" for f p s
    using pol truncate_fields(8) unfolding polite_def by blast
  have "roots (snd (run_callbacks ?cb (live_pairs (finalizers (global g5))) g5)) = roots g5"
    by (rule run_callbacks_invariant) (simp_all add: GlobalAllocator_finalizeObjectCallback_def T)
  then have "roots g' = roots g5" using r(2,3) t by (auto simp: GlobalAllocator_finalizeObjects_def upd_global_def)
  then show ?thesis using r(1) by (simp add: before_finalizers_def)
qed

section \<open>A whole collection\<close>

text \<open>The allocators take their blocks from what the collection left; every byte of a marked object is still the same.\<close>

definition bytes_kept :: "shape \<Rightarrow> addr set \<Rightarrow> mem \<Rightarrow> bool" where
  "bytes_kept h M m \<longleftrightarrow> (\<forall>x \<in> M. \<forall>a. x \<le> a \<longrightarrow> a < x + Object_size (sh_heap h) x \<longrightarrow> \<not> mark_byte h a \<longrightarrow> m a = sh_heap h a)"

lemma large_node_range:
  assumes "shape_wf (shape_of g n S cs)" and "x \<in> large_nodes (shape_of g n S cs)"
  shows "large_heap_start (global g) \<le> x \<and> x + Object_size (heap g) x \<le> large_heap_stop (global g)"
  by (rule large_node [OF assms]) simp

lemma collected_size:
  assumes wf: "shape_wf (shape_of g n S cs)" and c: "collected g g1 (shape_of g n S cs) R M S' n cs'" and x: "x \<in> M"
  shows "Object_size (heap g1) x = Object_size (heap g) x" "16 \<le> Object_size (heap g) x" "x \<in> nodes (shape_of g n S cs)"
proof -
  let ?h = "shape_of g n S cs"
  show n: "x \<in> nodes ?h" using c x reached_nodes by (auto simp: collected_def)
  show big: "16 \<le> Object_size (heap g) x" using extent_dvd_nodes [OF wf n] by simp
  have kept: "heap g1 a = heap g a" if "x \<le> a" "a < x + Object_size (heap g) x" "\<not> mark_byte ?h a" for a
    using c x that unfolding collected_def by blast
  show "Object_size (heap g1) x = Object_size (heap g) x"
    unfolding Object_size_def
  proof (rule load_cong, rule kept)
    fix a assume a: "x \<le> a" "a < x + 8"
    then show "\<not> mark_byte ?h a" using node_header [OF wf n, of a] by auto
  qed (use big in auto)
qed

lemma resets_after_collection:
  assumes ok: "heap_ok g as n S K cs" and c: "collected g g1 (shape_of g n S cs) R M S' n cs'"
    and inv: "alloc_state g1 n S' (M \<inter> S) [] fs rs" and coll: "is_collecting g1" and as: "distinct as"
    and nx: "length as \<le> length rs \<or> (\<forall>a \<in> set as. la_next (locals g1 a) = 0)"
    and r: "r = each_list (\<lambda>self g. LocalAllocator_reset collect g self) as g1"
  shows "r = abort_with ''GC: out of memory'' \<and> length fs < 2 * length as \<or>
    (\<exists>g2 n2. r = ret g2 \<and> heap_ok g2 as n2 S' (M \<inter> S) cs' \<and> bytes_kept (shape_of g n S cs) M (heap g2) \<and>
       lock_depth g2 = lock_depth g1 \<and> is_collecting g2 \<and> lheap.more g2 = lheap.more g1 \<and> same_large (global g1) (global g2))"
proof -
  let ?h = "shape_of g n S cs"
  note wf = heap_ok_shape [OF ok] and C = c [unfolded collected_def]
  have "quiet g1" using coll by (simp add: quiet_def)
  moreover have "alloc_state g1 n S' (M \<inter> S) (slots []) fs rs" using inv by (simp add: slots_def)
  moreover have "distinct ([] @ as)" using as by simp
  ultimately have "r = abort_with ''GC: out of memory'' \<and> length fs < 2 * length as \<or>
    (\<exists>g' n' fs' rs'. r = ret g' \<and> alloc_state g' n' S' (M \<inter> S) (slots ([] @ as)) fs' rs' \<and> steady g1 g' \<and>
       kept (M \<inter> S) (heap g1) (heap g') \<and> (\<forall>a. a \<notin> set as \<longrightarrow> locals g' a = locals g1 a))"
    using nx unfolding r by (intro resets_spec)
  then show ?thesis
  proof (elim disjE exE conjE)
    fix g2 n2 fs2 rs2
    assume g2: "r = ret g2" "alloc_state g2 n2 S' (M \<inter> S) (slots ([] @ as)) fs2 rs2" "steady g1 g2"
      "kept (M \<inter> S) (heap g1) (heap g2)"
    have l1: "large_wf g1 cs'" and wf1: "shape_wf (shape_of g1 n S' cs')" using C by blast+
    have eq: "small_heap_start (global g1) = small_heap_start (global g)" "memory_limit (global g1) = memory_limit (global g)"
      "large_heap_start (global g1) = large_heap_start (global g)" "large_heap_stop (global g1) = large_heap_stop (global g)"
      using C by (auto simp: same_large_def)
    have "spaces_apart (global g1)" using heap_okD(2) [OF ok] by (simp add: spaces_apart_def eq)
    moreover have "alloc_state g1 n S' (M \<inter> S) (slots []) fs rs" using inv by (simp add: slots_def)
    ultimately have ok1: "heap_ok g1 [] n S' (M \<inter> S) cs'" using l1 wf1 by (auto simp: heap_ok_def shape_wf_def)
    have ok2: "heap_ok g2 as n2 S' (M \<inter> S) cs'" by (rule heap_ok_steady [OF ok1 g2(3)]) (use g2(2) in simp)
    have sl: "same_large (global g1) (global g2)" and out: "outside (global g1) (heap g1) (heap g2)"
      using g2(3) by (auto simp: steady_def)
    note L = outside_large [OF heap_okD(1,2) [OF ok1] sl out heap_okD(7) [OF ok1] heap_okD(7) [OF ok2]]
    have "heap g2 a = heap g a" if x: "x \<in> M" and a: "x \<le> a" "a < x + Object_size (heap g) x" "\<not> mark_byte ?h a" for x a
    proof -
      note X = collected_size [OF wf c x]
      have "heap g1 a = heap g a" using C x a by blast
      moreover have "heap g2 a = heap g1 a"
      proof (cases "x \<in> S")
        case True
        then show ?thesis using g2(4) x a X(1) by (simp add: kept_def same_bytes_def)
      next
        case False
        then have "x \<in> large_nodes ?h" using X(3) nodes_eq [OF wf] by simp
        then have "large_heap_start (global g) \<le> x \<and> x + Object_size (heap g) x \<le> large_heap_stop (global g)"
          by (rule large_node_range [OF wf])
        then show ?thesis using L(3) a by (simp add: same_bytes_def eq)
      qed
      ultimately show ?thesis by simp
    qed
    then have "bytes_kept ?h M (heap g2)" by (simp add: bytes_kept_def)
    moreover have "lock_depth g2 = lock_depth g1" "is_collecting g2" "lheap.more g2 = lheap.more g1"
      using g2(3) coll by (simp_all add: steady_def)
    ultimately show ?thesis using g2(1) ok2 sl by blast
  qed blast
qed

text \<open>No allocator has a hole left, or the collection leaves a recyclable block for each of them.\<close>

definition next_ok :: "'a program \<Rightarrow> 'a gc_scheme \<Rightarrow> bool" where
  "next_ok env g \<longleftrightarrow> (\<forall>a \<in> set (items (local_allocators g)). la_next (locals g a) = 0) \<or>
     (\<forall>g1. Collector_collect env (g\<lparr>is_collecting := True\<rparr>) = ret g1 \<longrightarrow>
        length (items (local_allocators g)) \<le> bl_size (recyclable_list (global g1)))"

definition blocks_without :: "shape \<Rightarrow> addr set \<Rightarrow> nat" where
  "blocks_without h M = length (filter (\<lambda>b. block_objects M b = {}) (shape_blocks h))"

lemma blocks_without_mono:
  assumes "M \<subseteq> N"
  shows "blocks_without h N \<le> blocks_without h M"
proof -
  have "filter (\<lambda>b. block_objects N b = {}) (shape_blocks h) =
      filter (\<lambda>b. block_objects N b = {}) (filter (\<lambda>b. block_objects M b = {}) (shape_blocks h))"
    using assms by (auto simp: block_objects_def intro!: filter_cong)
  then show ?thesis unfolding blocks_without_def by (metis length_filter_le)
qed

text \<open>The two spaces are where they were, and so is the limit.\<close>

definition same_regions :: "GlobalAllocator \<Rightarrow> GlobalAllocator \<Rightarrow> bool" where
  "same_regions G G' \<longleftrightarrow> small_heap_start G' = small_heap_start G \<and> large_heap_start G' = large_heap_start G \<and>
     memory_limit G' = memory_limit G"

definition collect_result :: "'a gc_scheme \<Rightarrow> 'a gc_scheme \<Rightarrow> shape \<Rightarrow> range set \<Rightarrow> addr set \<Rightarrow> nat \<Rightarrow> addr set \<Rightarrow> cell list \<Rightarrow> bool" where
  "collect_result g g' h R M n' S' cs' \<longleftrightarrow> gc_ok g' n' S' (M \<inter> sh_objects h) cs' \<and>
     reachable h R \<subseteq> M \<and> M \<subseteq> possibly_reachable h R \<and> M \<inter> sh_objects h \<subseteq> S' \<and> S' \<subseteq> sh_objects h \<and>
     large_nodes (shape_of g' n' S' cs') = M \<inter> large_nodes h \<and> bytes_kept h M (heap g') \<and> lock_depth g' = lock_depth g \<and>
     \<not> is_collecting g' \<and> local_allocators g' = local_allocators g \<and> current g' = current g \<and>
     collect_callback g' = collect_callback g \<and> hash_wf (finalizers (global g')) \<and>
     stack_wf (roots g') \<and> stack_pairs (roots g') = [] \<and> same_regions (global g) (global g')"

text \<open>The finalizers were called, and nothing has changed the client's own state or the table of finalizers since.\<close>

definition finalized_once :: "'a program \<Rightarrow> 'a gc_scheme \<Rightarrow> 'a gc_scheme \<Rightarrow> shape \<Rightarrow> addr set \<Rightarrow> bool" where
  "finalized_once env g g' h M \<longleftrightarrow> (\<exists>g1. finalized env (g\<lparr>is_collecting := True\<rparr>) g1 h M \<and> gc.more g' = gc.more g1 \<and>
     finalizers (global g') = finalizers (global g1))"

lemma collect_once_spec:
  assumes ok: "gc_ok g n S K cs" and cl: "client_ok env g rs" and pol: "polite env" and small: "cell_total (last cs) < 2 ^ 31"
    and nx: "next_ok env g"
  defines "h \<equiv> shape_of g n S cs"
  shows "GC_collect_once env g = abort_with ''GC: out of memory'' \<and>
      blocks_without h (possibly_reachable h (root_ranges env rs g)) < 2 * length (items (local_allocators g)) \<or>
    (\<exists>g' M n' S' cs'. GC_collect_once env g = ret g' \<and> collect_result g g' h (root_ranges env rs g) M n' S' cs' \<and>
       finalized_once env g g' h M)"
proof -
  let ?g = "g\<lparr>is_collecting := True\<rparr>" and ?as = "items (local_allocators g)" and ?R = "root_ranges env rs g"
  have as: "array_wf (local_allocators g)" "distinct ?as" and hok: "heap_ok ?g ?as n S K cs"
    using ok by (simp_all add: gc_ok_def)
  have h: "shape_of ?g n S cs = h" by (simp add: h_def shape_of_def)
  have R: "root_ranges env rs ?g = ?R" by (simp add: root_ranges_def)
  have "client_ok env ?g rs" using cl by (simp add: client_ok_def)
  from collect_alloc [OF hok this small, unfolded h R] obtain g1 M S' cs' bs where
    c: "Collector_collect env ?g = ret g1" "collected ?g g1 h ?R M S' n cs'"
    "\<forall>L. alloc_inv (heap g1) (global g1) L n S' (M \<inter> S) [] (filter (\<lambda>b. block_objects M b = {}) (shape_blocks h)) bs"
    "finalized env ?g g1 h M" "hash_wf (finalizers (global g1))"
    by (elim exE conjE) (rule that, assumption+)
  have "control_as ?g ?g" by (simp add: control_as_def)
  have hash: "hash_wf (finalizers (global ?g))" using cl by (simp add: client_ok_def)
  have "control_as ?g g1" by (rule finalized_keeps [OF c(4) polite_control [OF pol] \<open>control_as ?g ?g\<close> hash])
  then have ctl: "locals g1 = locals g" "lock_depth g1 = lock_depth g" "is_collecting g1" "local_allocators g1 = local_allocators g"
    "current g1 = current g" "collect_callback g1 = collect_callback g" by (auto simp: control_as_def)
  let ?fs = "filter (\<lambda>b. block_objects M b = {}) (shape_blocks h)"
  have inv: "alloc_state g1 n S' (M \<inter> S) [] ?fs bs" using c(3) by (simp add: alloc_state_def)
  have "bl_size (recyclable_list (global g1)) = length bs"
    using c(3) alloc_invD(5) by (fastforce simp: block_queue_def)
  then have nx1: "length ?as \<le> length bs \<or> (\<forall>a \<in> set ?as. la_next (locals g1 a) = 0)"
    using nx c(1) by (auto simp: next_ok_def ctl(1))
  let ?r = "each_list (\<lambda>self g. LocalAllocator_reset (program_collect env) g self) ?as g1"
  have eq: "GC_collect_once env g = pbind ?r (\<lambda>g. Collector_setCollecting g 0)"
    using c(1) by (simp add: GC_collect_once_def Collector_setCollecting_def ctl(4) Array_each_ok [OF as(1)])
  from resets_after_collection [OF hok c(2) [folded h] inv ctl(3) as(2) nx1 refl, of "program_collect env", unfolded h] show ?thesis
  proof (elim disjE exE conjE)
    assume "?r = abort_with ''GC: out of memory''" "length ?fs < 2 * length ?as"
    moreover have "blocks_without h (possibly_reachable h ?R) \<le> length ?fs"
      using blocks_without_mono [of M "possibly_reachable h ?R" h] c(2) by (simp add: collected_def blocks_without_def)
    ultimately show ?thesis by (simp add: eq)
  next
    fix g2 n2
    assume g2: "?r = ret g2" "heap_ok g2 ?as n2 S' (M \<inter> S) cs'" "bytes_kept h M (heap g2)" "lock_depth g2 = lock_depth g1"
      "lheap.more g2 = lheap.more g1" "same_large (global g1) (global g2)"
    let ?g' = "g2\<lparr>is_collecting := False\<rparr>"
    have more: "local_allocators g2 = local_allocators g" "current g2 = current g" "gc.more g2 = gc.more g1"
      "collect_callback g2 = collect_callback g" "roots g2 = roots g1"
      using more_gc [OF g2(5)] more_cheap [OF g2(5)] ctl(4-6) by simp_all
    note dr = finalized_drained [OF c(4) pol hash]
    have fin: "finalizers (global g2) = finalizers (global g1)" using g2(6) by (simp add: same_large_def)
    have "large_nodes (shape_of ?g' n2 S' cs') = large_nodes (shape_of g1 n S' cs')"
      using g2(6) by (simp add: large_nodes_def same_large_def)
    moreover have "same_regions (global g) (global g2)"
      using c(2) g2(6) by (auto simp: collected_def same_regions_def same_large_def)
    ultimately have "collect_result g ?g' h ?R M n2 S' cs'"
      using c(2,5) g2(2-4) as more ctl(2) dr fin by (simp add: collect_result_def collected_def gc_ok_def h_def)
    moreover have "finalized_once env g ?g' h M" using c(4) more(3) fin unfolding finalized_once_def by auto
    moreover have "GC_collect_once env g = ret ?g'" using g2(1) by (simp add: eq Collector_setCollecting_def)
    ultimately show ?thesis by blast
  qed
qed

end
