(* ===== verification/Payload.thy ===== *)
theory Payload
  imports Heap_State
begin

text \<open>
  What the program itself does to the memory: it writes the payloads of its objects, and memory outside the two spaces.
  Such a write changes nothing the library relies on, as long as no other object has its header in the payload.
\<close>

section \<open>Writes to payloads\<close>

definition in_payload :: "mem \<Rightarrow> addr \<Rightarrow> addr \<Rightarrow> bool" where
  "in_payload m x a \<longleftrightarrow> x + 16 \<le> a \<and> a < x + Object_size m x"

text \<open>An object no other object of \<open>S\<close> has its header in.\<close>

definition solid :: "mem \<Rightarrow> addr set \<Rightarrow> addr \<Rightarrow> bool" where
  "solid m S x \<longleftrightarrow> clear_of (S - {x}) x (Object_size m x)"

text \<open>All bytes of the range that differ belong to payloads of solid objects of \<open>K\<close>.\<close>

definition payload_writes :: "mem \<Rightarrow> mem \<Rightarrow> addr set \<Rightarrow> addr set \<Rightarrow> addr \<Rightarrow> addr \<Rightarrow> bool" where
  "payload_writes m m' S K lo hi \<longleftrightarrow>
     (\<forall>a. lo \<le> a \<longrightarrow> a < hi \<longrightarrow> m' a \<noteq> m a \<longrightarrow> (\<exists>x \<in> K. solid m S x \<and> in_payload m x a))"

lemma payload_writesE:
  assumes "payload_writes m m' S K lo hi" and "lo \<le> a" "a < hi" "m' a \<noteq> m a"
  obtains x where "x \<in> K" "solid m S x" "in_payload m x a"
  using assms unfolding payload_writes_def by blast

lemma same_bytes_payload_writes: "same_bytes m m' lo hi \<Longrightarrow> payload_writes m m' S K lo hi"
  by (simp add: payload_writes_def same_bytes_def)

lemma header_kept:
  assumes w: "payload_writes m m' S K lo hi" and y: "y \<in> S" "lo \<le> y" "y + 16 \<le> hi" and K: "K \<subseteq> S" and a: "y \<le> a" "a < y + 16"
  shows "m' a = m a"
proof (rule ccontr)
  assume "m' a \<noteq> m a"
  with a y obtain x where x: "x \<in> K" "solid m S x" "in_payload m x a" using payload_writesE [OF w, of a] by auto
  show False
  proof (cases "x = y")
    case False
    then have "y + 16 \<le> x \<or> x + Object_size m x \<le> y" using x(2) y(1) by (auto simp: solid_def clear_of_def)
    then show False using x(3) a by (auto simp: in_payload_def)
  qed (use x(3) a in \<open>auto simp: in_payload_def\<close>)
qed

lemma size_kept:
  assumes "payload_writes m m' S K lo hi" and "y \<in> S" "lo \<le> y" "y + 16 \<le> hi" and "K \<subseteq> S"
  shows "Object_size m' y = Object_size m y"
  unfolding Object_size_def by (rule load_cong) (use header_kept [OF assms] in simp)

text \<open>The size of zero behind the last object of a line is not in a payload.\<close>

lemma zero_kept:
  assumes l: "layout m b S" and b: "8 dvd b" and w: "payload_writes m m' S K b (b + 32768)" and K: "K \<subseteq> S" and x: "x \<in> S"
    and e: "x + Object_size m x < line_addr b (line_of b x) + 256" "x + Object_size m x \<notin> S"
  shows "Object_size m' (x + Object_size m x) = Object_size m (x + Object_size m x)"
  unfolding Object_size_def
proof (rule load_cong, rule ccontr)
  note d = layoutD [OF l x]
  let ?e = "x + load 8 m x"
  fix a assume a: "?e \<le> a" "a < ?e + 8" "m' a \<noteq> m a"
  have end_: "?e + 8 \<le> line_addr b (line_of b x) + 256"
    by (intro dvd_step dvd_add line_addr_dvd b) (use e(1) d(5,6) in \<open>simp_all add: Object_size_def\<close>)
  have "line_addr b (line_of b x) + 256 \<le> b + 32768" using d(8) by (simp add: line_addr_def)
  then have "b \<le> a" "a < b + 32768" using a end_ d(1) by simp_all
  with a(3) obtain y where y: "y \<in> K" "solid m S y" "in_payload m y a" using payload_writesE [OF w, of a] by auto
  have last: "\<forall>y \<in> S. line_of b y = line_of b x \<longrightarrow> y \<le> x" using layout_next(1) [OF l x e(1)] e(2) by simp
  have "y + 16 \<le> a" "a < y + Object_size m y" using y(3) by (simp_all add: in_payload_def)
  consider "y = x" | "x + 16 \<le> y" | "y + Object_size m y \<le> x"
    using y(2) x by (auto simp: solid_def clear_of_def)
  then show False
  proof cases
    case 2
    have "y < line_addr b (line_of b x) + 256" using \<open>y + 16 \<le> a\<close> a(2) end_ by simp
    then have "line_of b y \<le> line_of b x"
      using line_of_less_iff [of b y "Suc (line_of b x)"] 2 d(1) by (simp add: line_addr_Suc)
    moreover have "line_of b x \<le> line_of b y" using 2 by (intro line_of_mono) simp
    ultimately have "y \<le> x" using last y(1) K by auto
    then show False using 2 by simp
  qed (use a(1) d(3) \<open>a < y + Object_size m y\<close> in \<open>auto simp: Object_size_def\<close>)
qed

lemma payload_not_meta:
  assumes "\<And>x. x \<in> K \<Longrightarrow> b + 256 \<le> x" and "payload_writes m m' S K b (b + 32768)" and "b \<le> a" "a < b + 256"
  shows "m' a = m a"
  using assms by (fastforce simp: payload_writes_def in_payload_def)

lemma layout_payload_writes:
  assumes l: "layout m b S" and b: "8 dvd b" and w: "payload_writes m m' S K b (b + 32768)" and K: "K \<subseteq> S"
  shows "layout m' b S"
proof (rule layout_cong [OF l])
  show "Object_size m' x = Object_size m x" if "x \<in> S" for x
    by (rule size_kept [OF w that _ _ K]) (use layoutD [OF l that] in auto)
next
  fix x assume "x \<in> S" "x + Object_size m x < line_addr b (line_of b x) + 256" "x + Object_size m x \<notin> S"
    "Object_size m (x + Object_size m x) = 0"
  then show "Object_size m' (x + Object_size m x) = 0" using zero_kept [OF l b w K] by simp
next
  fix i :: nat assume "i < 127"
  then have "m' (b + 16 + i) = m (b + 16 + i)"
    using K layoutD(1) [OF l] by (intro payload_not_meta [OF _ w]) auto
  then show "hdr_object (m' (b + 16 + i)) = hdr_object (m (b + 16 + i)) \<and>
      hdr_offset (m' (b + 16 + i)) = hdr_offset (m (b + 16 + i))" by simp
qed

text \<open>No payload of an object that matters is in a hole.\<close>

lemma region_kept:
  assumes "bump_ok m b S K h h lim" and "payload_writes m m' S (K \<inter> S) b (b + 32768)" and "h \<le> a" "a < lim"
  shows "m' a = m a"
proof (rule ccontr)
  note d = bump_okD [OF assms(1)]
  assume "m' a \<noteq> m a"
  with d assms(3,4) obtain x where x: "x \<in> K" "x \<in> S" "in_payload m x a" using payload_writesE [OF assms(2), of a] by auto
  consider "x < h" | "h \<le> x" "x < lim" | "lim \<le> x" by linarith
  then show False
    using assms(1,3,4) x by cases (fastforce simp: bump_ok_def in_payload_def)+
qed

lemma holes_payload_writes:
  assumes "holes_ok m b S K lo nx hs" and "b + 256 \<le> lo" and w: "payload_writes m m' S (K \<inter> S) b (b + 32768)"
    and size: "\<And>x. x \<in> S \<Longrightarrow> Object_size m' x = Object_size m x"
  shows "holes_ok m' b S K lo nx hs"
  using assms(1,2)
proof (induction hs arbitrary: lo nx)
  case (Cons hl hs)
  have r: "nx = fst hl" "lo \<le> fst hl" "fst hl < snd hl" "bump_ok m b S K (fst hl) (fst hl) (snd hl)"
    "holes_ok m b S K (snd hl) (Hole_next m nx) hs" "Hole_limit m nx = snd hl" using Cons.prems(1) by auto
  have "fst hl + 256 \<le> snd hl" using r(3,4) line_addr_mono by (auto simp: bump_ok_def line_addr_def)
  then have "Hole_limit m' nx = Hole_limit m nx" "Hole_next m' nx = Hole_next m nx"
    unfolding Hole_limit_def Hole_next_def using r(1) by (auto intro!: load_cong region_kept [OF r(4) w])
  then show ?case using r bump_ok_cong [OF r(4) size] Cons.IH [OF r(5)] Cons.prems(2) by simp
qed simp

section \<open>The allocators' invariant\<close>

lemma block_payload_writes:
  assumes l: "small_layout m start n S" and b: "b \<in> set (blocks_from start n)" and K: "K \<subseteq> S"
    and w: "payload_writes m m' S K start (start + n * BLOCK_SIZE)"
  shows "payload_writes m m' (block_objects S b) (block_objects K b) b (b + 32768)"
  unfolding payload_writes_def
proof (intro allI impI)
  note lb = small_layoutD [OF l b]
  fix a assume a: "b \<le> a" "a < b + 32768" "m' a \<noteq> m a"
  with lb(4,5) obtain x where x: "x \<in> K" "solid m S x" "in_payload m x a" using payload_writesE [OF w, of a] by auto
  obtain b' where b': "b' \<in> set (blocks_from start n)" "x \<in> block_objects S b'" "b' + 256 \<le> x" "x + Object_size m x \<le> b' + 32768"
    using small_layout_object [OF l, of x] x(1) K by blast
  have "b' = b"
    using blocks_disjoint [OF small_layoutD(1) [OF l b'(1)] lb(1)] a x(3) b'(3,4) by (fastforce simp: in_payload_def)
  then have "x \<in> block_objects K b" using x(1) b'(2) by (simp add: block_objects_def)
  moreover have "solid m (block_objects S b) x" using x(2) by (auto simp: solid_def clear_of_def block_objects_def)
  ultimately show "\<exists>x \<in> block_objects K b. solid m (block_objects S b) x \<and> in_payload m x a" using x(3) by blast
qed

lemma block_objects_Int: "K \<subseteq> S \<Longrightarrow> K \<inter> block_objects S b = block_objects K b" "K \<subseteq> S \<Longrightarrow> block_objects K b \<subseteq> block_objects S b"
  by (auto simp: block_objects_def)

lemma alloc_inv_payload_writes:
  assumes inv: "alloc_inv m G L n S K os fs rs"
    and w: "payload_writes m m' S K (small_heap_start G) (small_heap_start G + n * BLOCK_SIZE)"
    and G': "small_heap_start G' = small_heap_start G" "free_list G' = free_list G" "recyclable_list G' = recyclable_list G"
      "space_ok G' n"
  shows "alloc_inv m' G' L n S K os fs rs"
proof -
  note i = alloc_invD [OF inv] and blk = alloc_inv_blocks [OF inv]
  let ?O = "block_objects S"
  note lb = small_layoutD [OF i(1)]
  have W: "payload_writes m m' (?O b) (block_objects K b) b (b + 32768)" if "b \<in> set (blocks_from (small_heap_start G) n)" for b
    by (rule block_payload_writes [OF i(1) that i(2) w])
  have lay: "layout m' b (?O b)" if "b \<in> set (blocks_from (small_heap_start G) n)" for b
    by (rule layout_payload_writes [OF lb(3) [OF that] lb(2) [OF that] W [OF that] block_objects_Int(2) [OF i(2)]])
  have size: "Object_size m' x = Object_size m x" if "b \<in> set (blocks_from (small_heap_start G) n)" "x \<in> ?O b" for b x
    by (rule size_kept [OF W [OF that(1)] that(2) _ _ block_objects_Int(2) [OF i(2)]])
      (use layoutD [OF lb(3) [OF that(1)] that(2)] in auto)
  have meta: "m' a = m a" if b: "b \<in> set (blocks_from (small_heap_start G) n)" and a: "b \<le> a" "a < b + 256" for a b
    by (rule payload_not_meta [OF _ W [OF b] a]) (use layoutD(1) [OF lb(3) [OF b]] i(2) in \<open>auto simp: block_objects_def\<close>)
  have fields: "Block_next m' b = Block_next m b" "Block_isFree m' b = Block_isFree m b" "Block_isRecyclable m' b = Block_isRecyclable m b"
    "Block_first_free_line_index m' b = Block_first_free_line_index m b" if b: "b \<in> set (blocks_from (small_heap_start G) n)" for b
    unfolding Block_next_def Block_isFree_def Block_isRecyclable_def Block_flag_def Block_first_free_line_index_def
    using meta [OF b] by (auto intro!: load_cong arg_cong [where f = int16] arg_cong [where f = "\<lambda>x. x = _"])
  have holes: "holes_ok m' b (?O b) K lo nx hs" if b: "b \<in> set (blocks_from (small_heap_start G) n)"
      and h: "holes_ok m b (?O b) K lo nx hs" "b + 256 \<le> lo" for b lo nx hs
    using holes_payload_writes [OF h, of m'] W [OF b] size [OF b] by (simp add: block_objects_Int(1) [OF i(2)])
  have bump: "bump_ok m' b (?O b) K h c lim" if b: "b \<in> set (blocks_from (small_heap_start G) n)"
      and h: "bump_ok m b (?O b) K h c lim" for b h c lim
    by (rule bump_ok_cong [OF h size [OF b]]) simp_all
  have "slot_ok m' S K L s" if s: "s \<in> set os" for s
  proof -
    have b: "slot_block L s \<in> set (blocks_from (small_heap_start G) n)" using blk(1) s by auto
    show ?thesis
    proof (cases s)
      case (Main a)
      obtain h hs where "bump_ok m (la_block (L a)) (?O (la_block (L a))) K h (la_cursor (L a)) (la_limit (L a))"
        "holes_ok m (la_block (L a)) (?O (la_block (L a))) K (la_limit (L a)) (la_next (L a)) hs"
        using i(10) [OF s] Main by (auto simp: main_ok_def)
      with bump [of "la_block (L a)"] holes [of "la_block (L a)"] b Main bump_okD(1-3) show ?thesis
        by (fastforce simp: main_ok_def)
    next
      case (Overflow a)
      with i(10) [OF s] bump [of "overflow_block (L a)"] b show ?thesis by (fastforce simp: overflow_ok_def)
    qed
  qed
  moreover have "recyclable_block m' S K b" if "b \<in> set rs" for b
    using i(9) [OF that] holes [of b] fields(3,4) [of b] blk(1) [of b] that by (fastforce simp: recyclable_block_def)
  moreover have "free_block m' S b" if "b \<in> set fs" for b
    using i(8) [OF that] fields(2) [of b] blk(1) [of b] that by (simp add: free_block_def)
  moreover have "small_layout m' (small_heap_start G) n S" using i(1) lay by (simp add: small_layout_def)
  moreover have "block_queue m' (free_list G) fs" "block_queue m' (recyclable_list G) rs"
    using block_queue_cong [OF i(4)] block_queue_cong [OF i(5)] fields(1) blk(1) by blast+
  ultimately show ?thesis using inv G' by (simp add: alloc_inv_def)
qed

section \<open>The whole heap\<close>

text \<open>The cells depend on the headers of the chunks only.\<close>

lemma chunk_seg_headers:
  "(\<And>b c. (b, c) \<in> set (placed a cs) \<Longrightarrow> same_bytes m m' b (b + 32)) \<Longrightarrow> chunk_seg m a cs nx \<Longrightarrow> chunk_seg m' a cs nx"
proof (induction cs arbitrary: a)
  case (Cons c cs)
  have h: "same_bytes m m' a (a + 32)" by (rule Cons.prems(1) [of a c]) simp
  moreover have "chunk_seg m' (a + cell_total c) cs nx" by (rule Cons.IH) (use Cons.prems in auto)
  ultimately show ?case using Cons.prems(2) cell_at_cong [OF h] Chunk_next_cong [OF h] by simp
qed simp

definition large_writes :: "mem \<Rightarrow> mem \<Rightarrow> shape \<Rightarrow> bool" where
  "large_writes m m' h \<longleftrightarrow> (\<forall>a. large_heap_start (sh_global h) \<le> a \<longrightarrow> a < large_heap_stop (sh_global h) \<longrightarrow> m' a \<noteq> m a \<longrightarrow>
     (\<exists>x \<in> large_nodes h. in_payload m x a))"

lemma chunk_header_kept:
  assumes wf: "shape_wf h" and w: "large_writes (sh_heap h) m' h"
    and c: "(b, c) \<in> set (placed (large_heap_start (sh_global h)) (sh_cells h))"
  shows "same_bytes (sh_heap h) m' b (b + 32)"
  unfolding same_bytes_def
proof (intro allI impI, rule ccontr)
  fix a assume a: "b \<le> a" "a < b + 32" "sh_heap h a \<noteq> m' a"
  let ?P = "placed (large_heap_start (sh_global h)) (sh_cells h)"
  have inside: "large_heap_start (sh_global h) \<le> b'" "32 \<le> cell_total c'" "b' + cell_total c' \<le> large_heap_stop (sh_global h)"
    "Object_size (sh_heap h) (b' + 16) = cell_size c'" if P: "(b', c') \<in> set ?P" for b' c'
  proof -
    obtain xs ys where s: "sh_cells h = xs @ c' # ys" "b' = large_heap_start (sh_global h) + extent xs"
      using P unfolding placed_in_split by blast
    note at = chunk_list_split(1) [OF shape_wfD(3) [OF wf, unfolded s(1)]]
    show "large_heap_start (sh_global h) \<le> b'" "32 \<le> cell_total c'" "b' + cell_total c' \<le> large_heap_stop (sh_global h)"
      using s cell_at_size [OF at] shape_wfD(4) [OF wf] by (simp_all add: cell_total_def)
    show "Object_size (sh_heap h) (b' + 16) = cell_size c'" using at s(2) by (simp add: cell_at_def Chunk_osize_def)
  qed
  have "large_heap_start (sh_global h) \<le> a" "a < large_heap_stop (sh_global h)" using a inside(1-3) [OF c] by simp_all
  with w a(3) obtain x where x: "x \<in> large_nodes h" "in_payload (sh_heap h) x a" unfolding large_writes_def by metis
  then obtain b' c' where b': "(b', c') \<in> set ?P" "x = b' + 16" by (auto simp: large_nodes_def)
  have "b' + 32 \<le> a" "a < b' + cell_total c'"
    using x(2) b' inside(4) [OF b'(1)] by (simp_all add: in_payload_def cell_total_def)
  with placed_disjoint [OF c b'(1)] a inside(2) [OF c] show False by auto
qed

lemma heap_ok_payload_writes:
  assumes ok: "heap_ok g as n S K cs"
    and small: "payload_writes (heap g) m' S K (small_heap_start (global g)) (small_heap_start (global g) + n * BLOCK_SIZE)"
    and large: "large_writes (heap g) m' (shape_of g n S cs)"
  shows "heap_ok (g\<lparr>heap := m'\<rparr>) as n S K cs"
proof -
  note h = heap_okD [OF ok] and wf = heap_ok_shape [OF ok]
  obtain fs rs where "alloc_inv (heap g) (global g) (locals g) n S K (slots as) fs rs"
    using ok by (auto simp: heap_ok_def alloc_state_def)
  from alloc_inv_payload_writes [OF this small refl refl refl h(7)] have "alloc_state (g\<lparr>heap := m'\<rparr>) n S K (slots as) fs rs"
    by (simp add: alloc_state_def)
  moreover have "chunk_seg m' (large_heap_start (global g)) cs 0"
  proof (rule chunk_seg_headers)
    show "chunk_seg (heap g) (large_heap_start (global g)) cs 0" using h(1) by (simp add: large_wf_def chunk_list_def)
    show "same_bytes (heap g) m' b (b + 32)" if "(b, c) \<in> set (placed (large_heap_start (global g)) cs)" for b c
      using chunk_header_kept [OF wf, of m' b c] large that by simp
  qed
  then have "large_wf (g\<lparr>heap := m'\<rparr>) cs" using h(1) by (simp add: large_wf_def chunk_list_def)
  ultimately show ?thesis using h(2-4) by (auto simp: heap_ok_def)
qed

section \<open>The heap determines its objects\<close>

lemma layout_subset:
  assumes l: "layout m b S" and l': "layout m b S'"
  shows "S \<subseteq> S'"
proof
  fix x assume x: "x \<in> S"
  let ?i = "line_of b x" and ?f = "line_addr b (line_of b x) + hdr_offset (m (b + 16 + line_of b x))"
  have i: "?i < 127" by (rule layoutD(8) [OF l x])
  have o: "hdr_object (m (b + 16 + ?i))" using layout_header(1) [OF l i] x by blast
  note f = layout_header(2) [OF l i o] layout_header(2) [OF l' i o]
  let ?Y = "{y \<in> S \<inter> S'. line_of b y = ?i \<and> y \<le> x}"
  have "?f \<in> ?Y" using f x by auto
  moreover have "finite ?Y" by (rule finite_subset [of _ "{..x}"]) auto
  moreover have "\<exists>y. y \<in> Y \<and> (\<forall>z \<in> Y. z \<le> y)" if "finite Y" "f \<in> Y" for Y :: "nat set" and f
    using Max_in [of Y] Max_ge [of Y] that by blast
  ultimately obtain y where Y: "y \<in> ?Y" "\<forall>z \<in> ?Y. z \<le> y" by blast
  have y: "y \<in> S" "y \<in> S'" "line_of b y = ?i" "y \<le> x" "\<And>z. z \<in> S \<Longrightarrow> z \<in> S' \<Longrightarrow> line_of b z = ?i \<Longrightarrow> z \<le> x \<Longrightarrow> z \<le> y"
    using Y by auto
  show "x \<in> S'"
  proof (cases "y = x")
    case False
    then have "y < x" using y(4) by simp
    then have e: "y + Object_size m y \<le> x" using layout_same_line [OF l y(1) x _ y(3)] by simp
    then have line: "y + Object_size m y < line_addr b (line_of b y) + 256"
      using line_of_bounds [OF layoutD(1) [OF l x]] y(3) by simp
    have "\<not> (\<forall>z \<in> S. line_of b z = line_of b y \<longrightarrow> z \<le> y)" using x y(3) \<open>y < x\<close> by (auto intro!: bexI [of _ x])
    then have n: "y + Object_size m y \<in> S" "line_of b (y + Object_size m y) = ?i" using layout_next(1) [OF l y(1) line] y(3) by auto
    then have "Object_size m (y + Object_size m y) \<noteq> 0" using layoutD(3) [OF l n(1)] by simp
    then have "y + Object_size m y \<in> S'" using layout_next(1) [OF l' y(2) line] by auto
    then have "y + Object_size m y \<le> y" using y(5) n e by blast
    then show ?thesis using layoutD(3) [OF l y(1)] by simp
  qed (use y(2) in simp)
qed

lemma small_layout_unique:
  assumes "small_layout m start n S" and "small_layout m start n S'"
  shows "S = S'"
proof -
  have "T \<subseteq> T'" if l: "small_layout m start n T" "small_layout m start n T'" for T T'
  proof
    fix x assume "x \<in> T"
    then obtain b where b: "b \<in> set (blocks_from start n)" "x \<in> block_objects T b"
      using small_layout_object [OF l(1)] by metis
    with layout_subset [OF small_layoutD(3) [OF l(1) b(1)] small_layoutD(3) [OF l(2) b(1)]] show "x \<in> T'"
      by (auto simp: block_objects_def)
  qed
  then show ?thesis using assms by blast
qed

lemma cell_at_unique: "cell_at m a c \<Longrightarrow> cell_at m a d \<Longrightarrow> c = d"
  by (auto simp: cell_at_def intro!: cell.equality)

lemma chunk_seg_unique: "chunk_seg m a cs nx \<Longrightarrow> chunk_seg m a ds nx \<Longrightarrow> length cs = length ds \<Longrightarrow> cs = ds"
proof (induction cs arbitrary: a ds)
  case (Cons c cs)
  then obtain d ds' where ds: "ds = d # ds'" by (cases ds) auto
  have "c = d" using Cons.prems ds cell_at_unique by auto
  moreover have "cs = ds'" using Cons.IH [of "a + cell_total c" ds'] Cons.prems ds \<open>c = d\<close> by simp
  ultimately show ?case using ds by simp
qed simp

lemma shape_unique:
  assumes "shape_wf (shape_of g n S cs)" and "shape_wf (shape_of g n' S' cs')"
  shows "n' = n \<and> S' = S \<and> cs' = cs"
proof -
  note a = shape_wfD [OF assms(1)] and b = shape_wfD [OF assms(2)]
  have n: "n' = n" using a(2) b(2) by simp
  have "S = S'" using a(1) b(1) n small_layout_unique by auto
  moreover have "cs = cs'" using a(3) b(3) chunk_seg_unique unfolding chunk_list_def shape_of_sel by metis
  ultimately show ?thesis using n by simp
qed

section \<open>Properties\<close>



end
