(* ===== verification/Large_Objects.thy ===== *)
theory Large_Objects
  imports Payload
begin

text \<open>
  Large objects in the heap as a whole: an allocation or a deallocation in the large object space keeps every other large object,
  byte for byte, and leaves the small object space alone.
\<close>

section \<open>Changes of the large object space\<close>

definition live_chunks :: "addr \<Rightarrow> cell list \<Rightarrow> (addr \<times> cell) set" where
  "live_chunks start cs = {(a, c) \<in> set (placed start cs). cell_allocated c}"

lemma live_chunks_append: "live_chunks s (xs @ ys) = live_chunks s xs \<union> live_chunks (s + extent xs) ys"
  by (auto simp: live_chunks_def placed_append)

lemma live_chunks_Cons:
  "live_chunks s (c # cs) = (if cell_allocated c then insert (s, c) else id) (live_chunks (s + cell_total c) cs)"
  by (auto simp: live_chunks_def)

lemma live_chunks_none: "\<forall>c \<in> set cs. \<not> cell_allocated c \<Longrightarrow> live_chunks s cs = {}"
  by (induction cs arbitrary: s) (auto simp: live_chunks_def)

lemma large_nodes_live: "large_nodes (shape_of g n S cs) = (\<lambda>(a, c). a + 16) ` live_chunks (large_heap_start (global g)) cs"
  by (simp add: large_nodes_def live_chunks_def)

definition same_small :: "GlobalAllocator \<Rightarrow> GlobalAllocator \<Rightarrow> bool" where
  "same_small G G' \<longleftrightarrow> small_heap_size G' = small_heap_size G \<and> small_heap_start G' = small_heap_start G \<and>
     small_heap_stop G' = small_heap_stop G \<and> free_list G' = free_list G \<and> recyclable_list G' = recyclable_list G \<and>
     memory_limit G' = memory_limit G \<and> large_heap_start G' = large_heap_start G \<and> free_space_divisor G' = free_space_divisor G"

definition in_limit :: "GlobalAllocator \<Rightarrow> bool" where
  "in_limit G \<longleftrightarrow> small_heap_size G + large_heap_size G \<le> memory_limit G"

text \<open>The chunks but those at \<open>D\<close> are still there, and nothing outside the large object space has changed.\<close>

definition large_change :: "addr set \<Rightarrow> 'a gheap_scheme \<Rightarrow> cell list \<Rightarrow> 'a gheap_scheme \<Rightarrow> cell list \<Rightarrow> bool" where
  "large_change D g cs g' cs' \<longleftrightarrow> large_wf g' cs' \<and> same_small (global g) (global g') \<and> (in_limit (global g) \<longrightarrow> in_limit (global g')) \<and>
     (\<forall>a < 2 ^ 64. a < large_heap_start (global g) \<or> large_heap_start (global g) + memory_limit (global g) \<le> a \<longrightarrow> heap g' a = heap g a) \<and>
     (\<forall>(a, c) \<in> live_chunks (large_heap_start (global g)) cs. a \<notin> D \<longrightarrow>
        (a, c) \<in> live_chunks (large_heap_start (global g)) cs' \<and> same_bytes (heap g) (heap g') (a + 16) (a + cell_total c)) \<and>
     ((\<forall>c \<in> set cs. 8 dvd cell_size c) \<longrightarrow> (\<forall>c \<in> set cs'. 8 dvd cell_size c))"

lemma large_changeD:
  assumes "large_change D g cs g' cs'"
  shows "large_wf g' cs'" "same_small (global g) (global g')" "in_limit (global g) \<Longrightarrow> in_limit (global g')"
    "a < 2 ^ 64 \<Longrightarrow> a < large_heap_start (global g) \<or> large_heap_start (global g) + memory_limit (global g) \<le> a \<Longrightarrow> heap g' a = heap g a"
    "(b, c) \<in> live_chunks (large_heap_start (global g)) cs \<Longrightarrow> b \<notin> D \<Longrightarrow>
      (b, c) \<in> live_chunks (large_heap_start (global g)) cs' \<and> same_bytes (heap g) (heap g') (b + 16) (b + cell_total c)"
    "\<forall>c \<in> set cs. 8 dvd cell_size c \<Longrightarrow> \<forall>c \<in> set cs'. 8 dvd cell_size c"
  using assms unfolding large_change_def by blast+

lemma large_change_trans:
  assumes x: "large_change {} g cs g1 cs1" and y: "large_change {} g1 cs1 g2 cs2"
  shows "large_change {} g cs g2 cs2"
proof -
  note X = large_changeD [OF x] and Y = large_changeD [OF y]
  have eq: "large_heap_start (global g1) = large_heap_start (global g)" "memory_limit (global g1) = memory_limit (global g)"
    using X(2) by (simp_all add: same_small_def)
  have "(a, c) \<in> live_chunks (large_heap_start (global g)) cs2 \<and> same_bytes (heap g) (heap g2) (a + 16) (a + cell_total c)"
    if "(a, c) \<in> live_chunks (large_heap_start (global g)) cs" for a c
    using X(5) [OF that] Y(5) [unfolded eq, of a c] same_bytes_trans by blast
  moreover have "same_small (global g) (global g2)" using X(2) Y(2) by (simp add: same_small_def)
  moreover have "heap g2 a = heap g a"
    if "a < 2 ^ 64" "a < large_heap_start (global g) \<or> large_heap_start (global g) + memory_limit (global g) \<le> a" for a
    using X(4) Y(4) [unfolded eq] that by simp
  ultimately show ?thesis using X(3,6) Y(1,3,6) unfolding large_change_def by auto
qed

lemma large_change_lock:
  "large_change D g cs (GC_lock g') cs' = large_change D g cs g' cs'" "large_change D g cs (GC_unlock g') cs' = large_change D g cs g' cs'"
  "large_change D (GC_lock g) cs g' cs' = large_change D g cs g' cs'"
  unfolding large_change_def large_wf_lock by (simp_all add: GC_lock_def GC_unlock_def)

text \<open>Such a change keeps the invariant of the whole heap.\<close>

lemma heap_ok_large_change:
  fixes g g' :: "'a lheap_scheme"
  assumes ok: "heap_ok g as n S K cs" and ch: "large_change D g cs g' cs'" and loc: "locals g' = locals g"
  shows "heap_ok g' as n S K cs'"
proof -
  note h = heap_okD [OF ok] and C = large_changeD [OF ch]
  let ?G = "global g" and ?G' = "global g'"
  have eq: "small_heap_size ?G' = small_heap_size ?G" "small_heap_start ?G' = small_heap_start ?G"
    "small_heap_stop ?G' = small_heap_stop ?G" "free_list ?G' = free_list ?G" "recyclable_list ?G' = recyclable_list ?G"
    "memory_limit ?G' = memory_limit ?G" "large_heap_start ?G' = large_heap_start ?G"
    using C(2) by (simp_all add: same_small_def)
  obtain fs rs where inv: "alloc_inv (heap g) ?G (locals g) n S K (slots as) fs rs"
    using ok by (auto simp: heap_ok_def alloc_state_def)
  have "in_limit ?G'" using C(3) h(7) by (simp add: in_limit_def space_ok_def)
  then have sp: "space_ok ?G' n" using h(7) by (simp add: space_ok_def in_limit_def eq)
  have "same_bytes (heap g) (heap g') (small_heap_start ?G) (small_heap_start ?G + n * BLOCK_SIZE)"
    unfolding same_bytes_def
  proof (intro allI impI)
    fix a assume a: "small_heap_start ?G \<le> a" "a < small_heap_start ?G + n * BLOCK_SIZE"
    have "n * BLOCK_SIZE \<le> memory_limit ?G" "small_heap_start ?G + memory_limit ?G < 2 ^ 64" using h(7) by (simp_all add: space_ok_def)
    then have "a < large_heap_start ?G \<or> large_heap_start ?G + memory_limit ?G \<le> a"
      using h(2) a unfolding spaces_apart_def by linarith
    moreover have "a < 2 ^ 64" using a \<open>n * BLOCK_SIZE \<le> memory_limit ?G\<close> \<open>small_heap_start ?G + memory_limit ?G < 2 ^ 64\<close> by linarith
    ultimately show "heap g a = heap g' a" using C(4) by simp
  qed
  from alloc_inv_payload_writes [OF inv same_bytes_payload_writes [OF this] eq(2,4,5) sp]
  have "alloc_state g' n S K (slots as) fs rs" by (simp add: alloc_state_def loc)
  then show ?thesis using C(1,6) h(2,3,4) unfolding heap_ok_def spaces_apart_def eq by auto
qed

section \<open>Filling a free cell\<close>

lemma live_chunks_fill:
  assumes i: "i < length cs" "\<not> cell_allocated (cs ! i)" "n \<le> cell_size (cs ! i)"
  shows "live_chunks start (fill n at i cs) = insert (start + extent (take i cs), hd (take_cell n at (cs ! i))) (live_chunks start cs)"
proof -
  have cs: "cs = take i cs @ [cs ! i] @ drop (Suc i) cs" using id_take_nth_drop [OF i(1)] by simp
  have tc: "take_cell n at (cs ! i) = hd (take_cell n at (cs ! i)) # tl (take_cell n at (cs ! i))" "cell_allocated (hd (take_cell n at (cs ! i)))"
    "\<forall>c \<in> set (tl (take_cell n at (cs ! i))). \<not> cell_allocated c"
    by (auto simp: take_cell_def split_cell_def free_cell_def split: if_splits)
  have "live_chunks s (take_cell n at (cs ! i)) = {(s, hd (take_cell n at (cs ! i)))}" for s
    by (subst tc(1)) (simp add: live_chunks_Cons tc(2) live_chunks_none [OF tc(3)])
  moreover have "live_chunks s [cs ! i] = {}" for s using i(2) by (simp add: live_chunks_none)
  moreover have "extent (take_cell n at (cs ! i)) = extent [cs ! i]" using extent_take_cell [OF i(3)] by simp
  moreover have "live_chunks start cs = live_chunks start (take i cs @ [cs ! i] @ drop (Suc i) cs)" by (rule arg_cong [OF cs])
  ultimately show ?thesis by (simp add: fill_def live_chunks_append del: append_Cons append_Nil)
qed

lemma placed_nth: "i < length cs \<Longrightarrow> (start + extent (take i cs), cs ! i) \<in> set (placed start cs)"
  unfolding placed_in_split by (intro exI conjI) (rule id_take_nth_drop, simp_all)

text \<open>The chunk at \<open>a\<close> is new, was free before, and has room for \<open>n\<close> bytes.\<close>

definition new_chunk :: "addr \<Rightarrow> cell list \<Rightarrow> cell list \<Rightarrow> addr \<Rightarrow> nat \<Rightarrow> nat \<Rightarrow> bool" where
  "new_chunk start cs cs' a n at \<longleftrightarrow> (\<exists>c. (a, c) \<in> live_chunks start cs' \<and> a \<notin> fst ` live_chunks start cs \<and> n + 16 \<le> cell_size c \<and>
     cell_atomic c = at)"

lemma try_large_change:
  assumes wf: "large_wf g cs" and n: "n + 16 < 2 ^ 64" "8 dvd n" and at: "at < 256" and i: "first_fit (n + 16) cs = Some i"
    and lim: "in_limit (global g)"
  defines "start \<equiv> large_heap_start (global g)"
  shows "\<exists>g'. GlobalAllocator_tryAllocateLarge g n at = ret (g', start + extent (take i cs) + 32) \<and>
    large_change {} g cs g' (fill (n + 16) at i cs) \<and> lock_depth g' = lock_depth g \<and>
    new_chunk start cs (fill (n + 16) at i cs) (start + extent (take i cs)) n at \<and> finalizers (global g') = finalizers (global g) \<and>
    gheap.more g' = gheap.more g \<and> is_collecting g' = is_collecting g"
proof -
  note f = first_fit_fill [OF i]
  let ?a = "start + extent (take i cs)"
  let ?cs = "fill (n + 16) at i cs"
  obtain cl m where r: "GlobalAllocator_tryAllocateLarge g n at = ret (with_large g cl n m, ?a + 32)"
    "large_wf (with_large g cl n m) ?cs" "same_bytes (heap g) m 0 ?a"
    "same_bytes (heap g) m (start + extent (take (Suc i) cs)) (2 ^ 64)"
    using tryAllocateLarge_spec(2) [OF wf n(1) at i] unfolding start_def by blast
  have ext: "start + extent (take (Suc i) cs) = ?a + cell_total (cs ! i)" using f by (simp add: take_Suc_conv_app_nth)
  have i': "i < length cs" "\<not> cell_allocated (cs ! i)" "n + 16 \<le> cell_size (cs ! i)" using f by simp_all
  note L = live_chunks_fill [OF i', of start at]
  note pi = placed_nth [OF i'(1), of start]
  have stop: "start + extent cs < 2 ^ 64" using wf by (simp add: large_wf_def chunk_list_def start_def)
  have apart: "a + cell_total c \<le> ?a \<or> ?a + cell_total (cs ! i) \<le> a" if "(a, c) \<in> live_chunks start cs" for a c
  proof -
    have ac: "(a, c) \<in> set (placed start cs)" "cell_allocated c" using that by (auto simp: live_chunks_def)
    then have "\<not> (a = ?a \<and> c = cs ! i)" using i'(2) by auto
    with placed_disjoint [OF ac(1) pi] show ?thesis by auto
  qed
  have "same_bytes (heap g) m (a + 16) (a + cell_total c)" if "(a, c) \<in> live_chunks start cs" for a c
  proof -
    have "a + cell_total c \<le> start + extent cs" using that by (auto simp: live_chunks_def placed_in_split)
    then show ?thesis using apart [OF that] r(3,4) stop unfolding ext same_bytes_def by auto
  qed
  moreover have "m b = heap g b" if "b < 2 ^ 64" "b < start \<or> start + memory_limit (global g) \<le> b" for b
  proof -
    have "large_heap_size (global g) = extent cs" using wf by (simp add: large_wf_def)
    moreover have "extent (take (Suc i) cs) \<le> extent cs"
      by (metis append_take_drop_id extent_simps(3) le_add1)
    ultimately have "start + extent (take (Suc i) cs) \<le> start + memory_limit (global g)" using lim by (simp add: in_limit_def)
    then show ?thesis using that r(3,4) by (auto simp: same_bytes_def)
  qed
  moreover have "8 dvd cell_size c" if "\<forall>c \<in> set cs. 8 dvd cell_size c" "c \<in> set ?cs" for c
  proof -
    have "8 dvd cell_size (cs ! i)" using that(1) i'(1) by simp
    then have "\<forall>d \<in> set (take_cell (n + 16) at (cs ! i)). 8 dvd cell_size d"
      using n(2) by (auto simp: take_cell_def split_cell_def free_cell_def intro!: dvd_add dvd_diff_nat)
    then show ?thesis using that by (auto simp: fill_def dest: in_set_takeD in_set_dropD)
  qed
  ultimately have "large_change {} g cs (with_large g cl n m) ?cs"
    using r(2) lim L unfolding large_change_def start_def
    by (auto simp: same_small_def in_limit_def with_large_def GlobalAllocator_incrementCounters_def)
  moreover have "?a \<notin> fst ` live_chunks start cs"
    using apart cell_at_size by (force simp: cell_total_def)
  then have "new_chunk start cs ?cs ?a n at"
    using fill_nth(4,5) [OF i'(1,3), of at] L i' unfolding new_chunk_def
    by (intro exI [of _ "hd (take_cell (n + 16) at (cs ! i))"]) (auto simp: take_cell_def split_cell_def)
  ultimately show ?thesis
    using r(1) by (intro exI [of _ "with_large g cl n m"]) (simp add: with_large_def GlobalAllocator_incrementCounters_def)
qed

section \<open>Growing\<close>

lemma grow_large_change:
  assumes wf: "large_wf g cs" and n: "32 \<le> n" "n < 2 ^ 61" and lim: "in_limit (global g)"
    and room: "small_heap_size (global g) + large_heap_size (global g) + growth n \<le> memory_limit (global g)"
  shows "\<exists>g'. GlobalAllocator_growLarge g n = ret g' \<and> large_change {} g cs g' (cs @ [free_cell (growth n - 16)]) \<and>
    lock_depth g' = lock_depth g \<and> finalizers (global g') = finalizers (global g) \<and>
    gheap.more g' = gheap.more g \<and> is_collecting g' = is_collecting g"
proof -
  let ?G = "global g" and ?start = "large_heap_start (global g)" and ?cs = "cs @ [free_cell (growth n - 16)]"
  have gr: "n \<le> growth n" "BLOCK_SIZE dvd growth n" using growth_bounds [of n] n by simp_all
  have l: "cs \<noteq> []" "large_heap_stop ?G = ?start + extent cs" "large_heap_size ?G = extent cs" "chunk_seg (heap g) ?start cs 0"
    using wf by (simp_all add: large_wf_def chunk_list_def)
  obtain cl m where r: "GlobalAllocator_growLarge g n = ret (grown_large g n cl m)" "large_wf (grown_large g n cl m) ?cs"
    "\<forall>lo hi. hi \<le> ?start + extent (butlast cs) \<or> ?start + extent (butlast cs) + 8 \<le> lo \<longrightarrow>
        hi \<le> large_heap_stop ?G \<or> large_heap_stop ?G + 32 \<le> lo \<longrightarrow> same_bytes (heap g) m lo hi"
    using growLarge_spec [OF wf n] room by auto
  have last: "extent cs = extent (butlast cs) + cell_total (last cs)"
    using l(1) by (metis append_butlast_last_id extent_simps(1,2,3) add_0_right)
  have "16 \<le> cell_size (last cs)" using chunk_seg_size [OF l(4)] l(1) by simp
  then have big: "32 \<le> cell_total (last cs)" by (simp add: cell_total_def)
  have "same_bytes (heap g) m (a + 16) (a + cell_total c)" if "(a, c) \<in> live_chunks ?start cs" for a c
  proof -
    have ac: "(a, c) \<in> set (placed ?start cs)" using that by (simp add: live_chunks_def)
    have "cs = butlast cs @ last cs # []" using l(1) by simp
    then have pl: "(?start + extent (butlast cs), last cs) \<in> set (placed ?start cs)" unfolding placed_in_split by blast
    have "a + cell_total c \<le> large_heap_stop ?G" using ac l(2) by (auto simp: placed_in_split)
    moreover have "a + cell_total c \<le> ?start + extent (butlast cs) \<or> ?start + extent (butlast cs) + 8 \<le> a + 16"
      using placed_disjoint [OF ac pl] big by auto
    ultimately show ?thesis using r(3) by blast
  qed
  moreover have "m b = heap g b" if "b < ?start \<or> ?start + memory_limit ?G \<le> b" for b
  proof -
    have "extent cs + 32 \<le> memory_limit ?G" using room n(1) gr(1) l(3) by simp
    then have "same_bytes (heap g) m b (b + 1)" using r(3) that l(2) last big by auto
    then show ?thesis by (simp add: same_bytes_def)
  qed
  moreover have "8 dvd growth n - 16" using gr by (intro dvd_diff_nat) (auto intro: dvd_trans [of 8 BLOCK_SIZE])
  moreover have "live_chunks ?start cs \<subseteq> live_chunks ?start ?cs" by (auto simp: live_chunks_def placed_append)
  ultimately have "large_change {} g cs (grown_large g n cl m) ?cs"
    using r(2) room unfolding large_change_def
    by (auto simp: same_small_def in_limit_def grown_large_def free_cell_def)
  then show ?thesis using r(1) by (intro exI [of _ "grown_large g n cl m"]) (simp add: grown_large_def)
qed

section \<open>A whole allocation\<close>

definition large_full :: "GlobalAllocator \<Rightarrow> cell list \<Rightarrow> nat \<Rightarrow> bool" where
  "large_full G cs n \<longleftrightarrow> (\<forall>c \<in> set cs. unfit (n + 16) c) \<and>
     memory_limit G < small_heap_size G + large_heap_size G + growth (n + 32)"

text \<open>The new chunk \<open>a\<close> of an allocation of \<open>n\<close> bytes, when no collection is due.\<close>

definition large_allocated :: "'a gheap_scheme \<Rightarrow> cell list \<Rightarrow> 'a gheap_scheme \<Rightarrow> cell list \<Rightarrow> addr \<Rightarrow> nat \<Rightarrow> nat \<Rightarrow> bool" where
  "large_allocated g cs g' cs' a n at \<longleftrightarrow> large_change {} g cs g' cs' \<and> lock_depth g' = lock_depth g \<and>
     new_chunk (large_heap_start (global g)) cs cs' a n at \<and> finalizers (global g') = finalizers (global g) \<and>
     gheap.more g' = gheap.more g \<and> is_collecting g' = is_collecting g"

lemma try_large_allocated:
  assumes "large_wf g cs" and "n + 16 < 2 ^ 64" "8 dvd n" and "at < 256" and i: "first_fit (n + 16) cs = Some i" and "in_limit (global g)"
  shows "\<exists>g' cs' a. GlobalAllocator_tryAllocateLarge g n at = ret (g', a + 32) \<and> large_allocated g cs g' cs' a n at"
  using try_large_change [OF assms] unfolding large_allocated_def by blast

lemma grow_large_allocated:
  assumes wf: "large_wf g cs" and none: "first_fit (n + 16) cs = None" and n: "n < 2 ^ 60" "8 dvd n" and at: "at < 256"
    and lim: "in_limit (global g)"
  shows "grow_and_retry n at g = abort_with ''GC: out of memory'' \<and> large_full (global g) cs n \<or>
    (\<exists>g' cs' a. grow_and_retry n at g = ret (GC_unlock g', a + 32) \<and> large_allocated g cs g' cs' a n at)"
proof (cases "small_heap_size (global g) + large_heap_size (global g) + growth (n + 32) > memory_limit (global g)")
  case True
  then have "GlobalAllocator_growLarge g (size_add n sizeof_Chunk) = abort_with ''GC: out of memory''"
    using growLarge_spec [OF wf, of "n + 32"] n by simp
  moreover have "large_full (global g) cs n" using True none by (simp add: large_full_def first_fit_None)
  ultimately show ?thesis by simp
next
  case False
  have eq: "size_add n sizeof_Chunk = n + 32" using n by simp
  have room: "small_heap_size (global g) + large_heap_size (global g) + growth (n + 32) \<le> memory_limit (global g)" using False by simp
  have "32 \<le> n + 32" "n + 32 < 2 ^ 61" using n by simp_all
  from grow_large_change [OF wf this lim room] obtain g1 where
    g1: "GlobalAllocator_growLarge g (n + 32) = ret g1" "large_change {} g cs g1 (cs @ [free_cell (growth (n + 32) - 16)])"
    "lock_depth g1 = lock_depth g" "finalizers (global g1) = finalizers (global g)" "gheap.more g1 = gheap.more g" "is_collecting g1 = is_collecting g" by blast
  note C = large_changeD [OF g1(2)]
  have big: "n + 32 \<le> growth (n + 32)" using growth_bounds(1) [of "n + 32"] n by simp
  have fit: "first_fit (n + 16) (cs @ [free_cell (growth (n + 32) - 16)]) = Some (length cs)"
    using none big by (auto simp: first_fit_split first_fit_None unfit_def free_cell_def)
  have "n + 16 < 2 ^ 64" using n by simp
  from try_large_allocated [OF C(1) this n(2) at fit C(3) [OF lim]] obtain g2 cs2 a where
    g2: "GlobalAllocator_tryAllocateLarge g1 n at = ret (g2, a + 32)"
      "large_allocated g1 (cs @ [free_cell (growth (n + 32) - 16)]) g2 cs2 a n at" by blast
  have start: "large_heap_start (global g1) = large_heap_start (global g)" using C(2) by (simp add: same_small_def)
  have "large_allocated g cs g2 cs2 a n at"
  proof -
    have "large_change {} g cs g2 cs2" using large_change_trans [OF g1(2)] g2(2) by (simp add: large_allocated_def)
    moreover have "fst ` live_chunks (large_heap_start (global g)) cs \<subseteq> fst ` live_chunks (large_heap_start (global g)) (cs @ [free_cell (growth (n + 32) - 16)])"
    proof
      fix b assume "b \<in> fst ` live_chunks (large_heap_start (global g)) cs"
      then obtain c where "(b, c) \<in> live_chunks (large_heap_start (global g)) cs" by auto
      from C(5) [OF this] show "b \<in> fst ` live_chunks (large_heap_start (global g)) (cs @ [free_cell (growth (n + 32) - 16)])"
        by (intro image_eqI [of _ _ "(b, c)"]) simp_all
    qed
    moreover obtain c where "(a, c) \<in> live_chunks (large_heap_start (global g)) cs2" "n + 16 \<le> cell_size c" "cell_atomic c = at"
      "a \<notin> fst ` live_chunks (large_heap_start (global g)) (cs @ [free_cell (growth (n + 32) - 16)])"
      using g2(2) unfolding large_allocated_def new_chunk_def start by (elim conjE exE) (rule that)
    ultimately have "new_chunk (large_heap_start (global g)) cs cs2 a n at" unfolding new_chunk_def by (intro exI [of _ c] conjI) auto
    with \<open>large_change {} g cs g2 cs2\<close> show ?thesis using g2(2) g1(3-6) unfolding large_allocated_def by simp
  qed
  moreover have "grow_and_retry n at g = ret (GC_unlock g2, a + 32)" using g1(1) g2(1) by (simp add: eq del: sizeof_Chunk_def)
  ultimately show ?thesis by blast
qed

lemma large_allocated_lock:
  "large_allocated (GC_lock g) cs g' cs' a n at \<Longrightarrow> large_allocated g cs (GC_unlock g') cs' a n at"
  unfolding large_allocated_def large_change_lock by (simp add: GC_lock_def GC_unlock_def)

lemma allocateLarge_quiet:
  assumes wf: "large_wf g cs" and sz: "sz < 2 ^ 59" and at: "at < 256" and quiet: "quiet g" and lim: "in_limit (global g)"
  defines "n \<equiv> ROUND_TO_NEXT_MULTIPLE sz WORD_SIZE"
  shows "GlobalAllocator_allocateLarge collect g sz at = abort_with ''GC: out of memory'' \<and> large_full (global g) cs n \<or>
    (\<exists>g' cs' a. GlobalAllocator_allocateLarge collect g sz at = ret (g', a + 32) \<and> large_allocated g cs g' cs' a n at)"
proof -
  have n: "n < 2 ^ 60" "n + 16 < 2 ^ 64" "8 dvd n"
    using ROUND_props [of WORD_SIZE sz, folded n_def] sz by auto
  let ?g = "GC_lock g"
  have wf': "large_wf ?g cs" using wf by (simp only: large_wf_lock)
  have lim': "in_limit (global ?g)" "global ?g = global g" using lim by (simp_all add: GC_lock_def)
  have q: "GlobalAllocator_tryCollect collect ?g = ret (?g, False)" using quiet by (intro quiet_tryCollect) (simp add: quiet_lock)
  show ?thesis
  proof (cases "first_fit (n + 16) cs")
    case None
    have "GlobalAllocator_allocateLarge collect g sz at = grow_and_retry n at ?g"
      unfolding GlobalAllocator_allocateLarge_def Let_def n_def [symmetric] tryAllocateLarge_spec(1) [OF wf' n(2) at None]
      using q by simp
    with grow_large_allocated [OF wf' None n(1,3) at lim'(1)] show ?thesis
      unfolding lim'(2) using large_allocated_lock [of g cs] by (elim disjE exE conjE) (simp only: simp_thms, metis)
  next
    case (Some i)
    from try_large_allocated [OF wf' n(2,3) at Some lim'(1)] obtain g' cs' a where
      "GlobalAllocator_tryAllocateLarge ?g n at = ret (g', a + 32)" "large_allocated ?g cs g' cs' a n at" by blast
    moreover from this have "GlobalAllocator_allocateLarge collect g sz at = ret (GC_unlock g', a + 32)"
      unfolding GlobalAllocator_allocateLarge_def Let_def n_def [symmetric] by simp
    ultimately show ?thesis using large_allocated_lock by blast
  qed
qed

section \<open>Freeing a chunk\<close>

text \<open>The state after \<open>deallocateLarge\<close>, when the table of finalizers has become \<open>table\<close> and the object's finalizer was \<open>f\<close>.\<close>

definition deallocated ::
  "(addr \<Rightarrow> addr \<Rightarrow> 'a gheap_scheme \<Rightarrow> 'a gheap_scheme) \<Rightarrow> 'a gheap_scheme \<Rightarrow> addr \<Rightarrow> Hash \<Rightarrow> addr \<Rightarrow> 'a gheap_scheme" where
  "deallocated call g chunk table f =
     (let g = (GC_lock g)\<lparr>global := (global g)\<lparr>finalizers := table\<rparr>\<rparr>;
          g = (if f \<noteq> 0 then call f (chunk + 32) g else g)
      in GC_unlock (g\<lparr>heap := Chunk_set_allocated (heap g) chunk 0\<rparr>))"

definition calm :: "(addr \<Rightarrow> addr \<Rightarrow> 'a gheap_scheme \<Rightarrow> 'a gheap_scheme) \<Rightarrow> bool" where
  "calm call \<longleftrightarrow> (\<forall>f p h. heap (call f p h) = heap h \<and> global (call f p h) = global h \<and> lock_depth (call f p h) = lock_depth h)"

lemma deallocateLarge_run:
  assumes hash: "hash_wf (finalizers (global g))" and "a < 2 ^ 64"
  shows "\<exists>table f. GlobalAllocator_deallocateLarge call g (a + 32) = ret (deallocated call g a table f) \<and> hash_wf table \<and>
    hash_map table = (hash_map (finalizers (global g)))(a + 16 := None)"
proof -
  obtain table where t: "Hash_delete (finalizers (global g)) (a + 16) =
      ret (table, case hash_map (finalizers (global g)) (a + 16) of None \<Rightarrow> 0 | Some v \<Rightarrow> v)"
    "hash_wf table" "hash_map table = (hash_map (finalizers (global g)))(a + 16 := None)"
    using hash_delete_spec [OF hash, of "a + 16"] by blast
  define f where "f = (case hash_map (finalizers (global g)) (a + 16) of None \<Rightarrow> 0 | Some v \<Rightarrow> v)"
  have "GlobalAllocator_deallocateLarge call g (a + 32) = ret (deallocated call g a table f)"
    using t(1) [folded f_def] unfolding GlobalAllocator_deallocateLarge_def Let_def deallocated_def
    by (simp add: GlobalAllocator_deleteFinalizer_def GC_lock_def Chunk_mutatorAddress_def)
  with t(2,3) show ?thesis by blast
qed

lemma deallocated_state:
  assumes "calm call"
  shows "heap (deallocated call g a table f) = Chunk_set_allocated (heap g) a 0"
    "global (deallocated call g a table f) = (global g)\<lparr>finalizers := table\<rparr>" "lock_depth (deallocated call g a table f) = lock_depth g"
  using assms by (simp_all add: deallocated_def calm_def Let_def GC_lock_def GC_unlock_def)

lemma free_large_change:
  assumes wf: "large_wf g cs" and c: "(a, c) \<in> live_chunks (large_heap_start (global g)) cs" and lim: "in_limit (global g)" and call: "calm call"
  shows "\<exists>cs'. large_change {a} g cs (deallocated call g a table f) cs' \<and>
    live_chunks (large_heap_start (global g)) cs' = live_chunks (large_heap_start (global g)) cs - {(a, c)}"
proof -
  let ?start = "large_heap_start (global g)" and ?g = "deallocated call g a table f"
  note st = deallocated_state [OF call, of g a table f]
  obtain xs ys where s: "cs = xs @ c # ys" "a = ?start + extent xs" using c by (auto simp: live_chunks_def placed_in_split)
  have alive: "cell_allocated c" using c by (simp add: live_chunks_def)
  let ?cs = "xs @ c\<lparr>cell_allocated := False\<rparr> # ys"
  have l: "chunk_list (heap g) (large_chunk_list (global g)) ?start (xs @ c # ys)" using wf s(1) by (simp add: large_wf_def)
  note at = chunk_list_split(1) [OF l, folded s(2)]
  have "large_wf ?g ?cs"
    using wf Chunk_free_cells [OF l, folded s(2)] by (simp add: large_wf_def st s(1) cell_total_def)
  moreover have tot: "cell_total (c\<lparr>cell_allocated := False\<rparr>) = cell_total c" by (simp add: cell_total_def)
  have L: "live_chunks ?start ?cs = live_chunks ?start cs - {(a, c)}"
  proof -
    have "a + 32 \<le> b" if "(b, d) \<in> set (placed (a + cell_total c) ys)" for b d
      using that cell_at_size [OF at] by (auto simp: placed_in_split cell_total_def)
    moreover have "b < a" if bd: "(b, d) \<in> set (placed ?start xs)" for b d
    proof -
      obtain us vs where "xs = us @ d # vs" "b = ?start + extent us" using bd unfolding placed_in_split by blast
      then show ?thesis using s(2) by (simp add: cell_total_def)
    qed
    ultimately have "(a, c) \<notin> live_chunks ?start xs \<union> live_chunks (a + cell_total c) ys" by (fastforce simp: live_chunks_def)
    moreover have "live_chunks ?start ?cs = live_chunks ?start xs \<union> live_chunks (a + cell_total c) ys"
      by (simp add: live_chunks_append live_chunks_Cons s(2) tot)
    moreover have "live_chunks ?start cs = live_chunks ?start xs \<union> insert (a, c) (live_chunks (a + cell_total c) ys)"
      using alive by (simp add: live_chunks_append live_chunks_Cons s)
    ultimately show ?thesis by auto
  qed
  moreover have "same_bytes (heap g) (heap ?g) (b + 16) (b + cell_total d)" if "(b, d) \<in> live_chunks ?start cs" "b \<noteq> a" for b d
  proof -
    have bd: "(b, d) \<in> set (placed ?start cs)" "(a, c) \<in> set (placed ?start cs)" using that c by (auto simp: live_chunks_def)
    have "32 \<le> cell_total c" using cell_at_size [OF at] by (simp add: cell_total_def)
    then have "b + cell_total d \<le> a + 8 \<or> a + 9 \<le> b + 16" using placed_disjoint [OF bd] that(2) by auto
    then show ?thesis unfolding st(1) Chunk_set_allocated_def by (intro same_bytes_store) auto
  qed
  moreover have "heap ?g b = heap g b" if "b < ?start \<or> ?start + memory_limit (global g) \<le> b" for b
  proof -
    have "large_heap_size (global g) = extent cs" using wf by (simp add: large_wf_def)
    then have "a + 32 \<le> ?start + memory_limit (global g)"
      using lim cell_at_size [OF at] s by (simp add: in_limit_def cell_total_def)
    then show ?thesis using that s(2) unfolding st(1) Chunk_set_allocated_def by (intro store_frame) auto
  qed
  ultimately have "large_change {a} g cs ?g ?cs"
    unfolding large_change_def by (auto simp: st same_small_def in_limit_def s(1))
  with L show ?thesis by blast
qed

section \<open>The interface\<close>

lemma heap_ok_in_limit: "heap_ok g as n S K cs \<Longrightarrow> in_limit (global g)"
  using heap_okD(7) [of g as n S K cs] by (simp add: in_limit_def space_ok_def)

lemma malloc_large_spec:
  assumes ok: "gc_ok g n S K cs" and quiet: "quiet g" and sz: "8176 < sz" "sz < 2 ^ 59" and at: "at < 256"
  defines "r \<equiv> ROUND_TO_NEXT_MULTIPLE sz WORD_SIZE"
  shows "GC_malloc_with_atomic env g sz at = abort_with ''GC: out of memory'' \<and> large_full (global g) cs r \<or>
    (\<exists>g' cs' a. GC_malloc_with_atomic env g sz at = ret (g', a + 32) \<and> gc_ok g' n S K cs' \<and> large_allocated g cs g' cs' a r at)"
proof -
  have hok: "heap_ok g (items (local_allocators g)) n S K cs" using ok by (simp add: gc_ok_def)
  have eq: "GC_malloc_with_atomic env g sz at = GlobalAllocator_allocateLarge (program_collect env) g sz at"
    using sz(1) by (simp add: GC_malloc_with_atomic_def)
  from allocateLarge_quiet [OF heap_okD(1) [OF hok] sz(2) at quiet heap_ok_in_limit [OF hok], of "program_collect env", folded r_def]
  show ?thesis
  proof (elim disjE exE conjE)
    fix g' cs' a assume a: "GlobalAllocator_allocateLarge (program_collect env) g sz at = ret (g', a + 32)"
      "large_allocated g cs g' cs' a r at"
    have ch: "large_change {} g cs g' cs'" and more: "gheap.more g' = gheap.more g" using a(2) by (simp_all add: large_allocated_def)
    have "locals g' = locals g" "local_allocators g' = local_allocators g" using more by (cases g; cases g'; simp)+
    with heap_ok_large_change [OF hok ch] ok have "gc_ok g' n S K cs'" by (simp add: gc_ok_def)
    then show ?thesis using a eq by auto
  qed (simp add: eq)
qed

text \<open>\<open>GC_free\<close> frees the chunk of a large object; for a small object it does nothing.\<close>

lemma polite_calm: "polite env \<Longrightarrow> calm (call_finalizer env)"
  using truncate_fields(1,2,4) unfolding polite_def calm_def by blast

lemma free_large_spec:
  assumes ok: "gc_ok g n S K cs" and c: "(a, c) \<in> live_chunks (large_heap_start (global g)) cs" and pol: "polite env"
    and hash: "hash_wf (finalizers (global g))" and payload: "16 < cell_size c"
  shows "\<exists>g' cs'. GC_free env g (a + 32) = ret g' \<and> gc_ok g' n S K cs' \<and> large_change {a} g cs g' cs' \<and>
    live_chunks (large_heap_start (global g)) cs' = live_chunks (large_heap_start (global g)) cs - {(a, c)} \<and>
    hash_wf (finalizers (global g')) \<and> control_as g g' \<and> roots g' = roots g \<and>
    hash_map (finalizers (global g')) = (hash_map (finalizers (global g)))(a + 16 := None)"
proof -
  let ?start = "large_heap_start (global g)"
  have hok: "heap_ok g (items (local_allocators g)) n S K cs" using ok by (simp add: gc_ok_def)
  have wf: "large_wf g cs" using heap_okD(1) [OF hok] .
  have pl: "(a, c) \<in> set (placed ?start cs)" using c by (simp add: live_chunks_def)
  have l: "large_heap_stop (global g) = ?start + extent cs" "?start + extent cs < 2 ^ 64" "chunk_seg (heap g) ?start cs 0"
    using wf by (simp_all add: large_wf_def chunk_list_def)
  have a: "?start \<le> a" "a + cell_total c \<le> ?start + extent cs" "c \<in> set cs" using pl by (auto simp: placed_in_split)
  have big: "32 \<le> cell_total c" using chunk_seg_size [OF l(3) a(3)] by (simp add: cell_total_def)
  have in_large: "GlobalAllocator_inLargeHeap (global g) (a + 32)"
    using a l(1) payload by (simp add: GlobalAllocator_inLargeHeap_def cell_total_def)
  have "a < 2 ^ 64" using a big l(2) by simp
  from deallocateLarge_run [OF hash this, of "call_finalizer env"] obtain table f where
    d: "GlobalAllocator_deallocateLarge (call_finalizer env) g (a + 32) = ret (deallocated (call_finalizer env) g a table f)" "hash_wf table"
    "hash_map table = (hash_map (finalizers (global g)))(a + 16 := None)" by blast
  let ?g = "deallocated (call_finalizer env) g a table f"
  note cm = polite_calm [OF pol]
  from free_large_change [OF wf c heap_ok_in_limit [OF hok] cm, of table f] obtain cs' where
    ch: "large_change {a} g cs ?g cs'" "live_chunks ?start cs' = live_chunks ?start cs - {(a, c)}" by blast
  have T: "locals (call_finalizer env f p s) = locals s" "roots (call_finalizer env f p s) = roots s"
    "is_collecting (call_finalizer env f p s) = is_collecting s" "local_allocators (call_finalizer env f p s) = local_allocators s"
    "current (call_finalizer env f p s) = current s" "collect_callback (call_finalizer env f p s) = collect_callback s" for p s
    using pol truncate_fields unfolding polite_def by metis+
  have ctl: "control_as g ?g" "roots ?g = roots g"
    using deallocated_state(3) [OF cm, of g a table f]
    by (auto simp: control_as_def deallocated_def Let_def GC_lock_def GC_unlock_def T)
  then have loc: "locals ?g = locals g" "local_allocators ?g = local_allocators g" by (simp_all add: control_as_def)
  have "gc_ok ?g n S K cs'" using heap_ok_large_change [OF hok ch(1) loc(1)] ok by (simp add: gc_ok_def loc(2))
  moreover have "hash_wf (finalizers (global ?g))" "hash_map (finalizers (global ?g)) = (hash_map (finalizers (global g)))(a + 16 := None)"
    using d(2,3) deallocated_state(2) [OF cm, of g a table f] by simp_all
  ultimately show ?thesis using in_large d(1) ch ctl by (auto simp: GC_free_def)
qed

end
