(* ===== verification/Startup.thy ===== *)
theory Startup
  imports Options Heap_State
begin

text \<open>
  The start of the program: \<open>GC_init\<close> maps the two spaces, fills the free list and sets up the first thread. What it
  leaves is a well-formed heap without objects, so that the invariant of \<open>Heap_State\<close> holds from the beginning.
\<close>

section \<open>Mapping\<close>

lemma mask_dvd:
  assumes "32768 dvd n" and "n < 2 ^ 64"
  shows "32768 dvd unat (of_nat s AND NOT (of_nat n - 1 :: 64 word))"
proof -
  have neg: "NOT (of_nat n - 1 :: 64 word) = - of_nat n" by (simp add: not_eq_complement)
  obtain k where k: "n = 32768 * k" using assms(1) by (rule dvdE)
  have "- of_nat n = push_bit 15 (- of_nat k :: 64 word)" by (simp add: k push_bit_eq_mult)
  then have "take_bit 15 (- of_nat n :: 64 word) = 0" by (simp add: take_bit_push_bit)
  then have "take_bit 15 (of_nat s AND NOT (of_nat n - 1 :: 64 word)) = 0" by (simp add: neg)
  then have "take_bit 15 (unat (of_nat s AND NOT (of_nat n - 1 :: 64 word))) = 0"
    by (simp flip: unsigned_take_bit_eq)
  then show ?thesis by (simp add: take_bit_eq_0_iff)
qed

lemma mapAndAlign_spec:
  assumes n: "0 < n" "32768 dvd n" "n < 2 ^ 64" and s: "s + 32768 < 2 ^ 64"
  shows "\<exists>start. GC_mapAndAlign (Some s) n = ret start \<and> 32768 dvd start \<and> s \<le> start \<and> start \<le> s + 32768"
proof (cases "unat (of_nat s AND NOT (of_nat n - 1 :: 64 word)) = s")
  case True
  then have "32768 dvd s" using mask_dvd [OF n(2,3), of s] by simp
  then show ?thesis using True by (simp add: GC_mapAndAlign_def GC_map_def Let_def)
next
  case False
  have b: "unat (of_nat s AND BLOCK_SIZE_IN_BYTES_INVERSE_MASK) = s div 32768 * 32768"
    using Block_from_eq [of s] s by (simp add: Block_from_def)
  have "s < s div 32768 * 32768 + 32768" "s div 32768 * 32768 \<le> s"
    by (simp_all add: dividend_less_div_times)
  then show ?thesis using False b by (simp add: GC_mapAndAlign_def GC_map_def Let_def)
qed

section \<open>The two spaces\<close>

text \<open>The first chunk is the whole large object space.\<close>

lemma first_chunk:
  assumes a: "a \<noteq> 0" "16 \<le> n" "a + 16 + n < 2 ^ 64"
  shows "\<exists>cl' m'. ChunkList_push (ChunkList_clear cl) (Chunk_init m a n) a = (cl', m') \<and> chunk_list m' cl' a [free_cell n] \<and>
    (\<forall>lo hi. hi \<le> a \<or> a + 32 \<le> lo \<longrightarrow> same_bytes m m' lo hi)"
proof -
  let ?m = "Chunk_set_next (Chunk_init m a n) a 0"
  have c: "cell_at (Chunk_init m a n) a (free_cell n)" using chunk_init_cell a by simp
  then have "cell_at ?m a (free_cell n)" "Chunk_next ?m a = 0"
    by (simp_all add: cell_at_def chunk_defs load_store_same load_store_other)
  moreover have "same_bytes m ?m lo hi" if "hi \<le> a \<or> a + 32 \<le> lo" for lo hi
    unfolding Chunk_set_next_def
    by (rule same_bytes_trans [OF chunk_init_frame same_bytes_store]) (use that in auto)
  ultimately show ?thesis
    using a by (simp add: ChunkList_push_def ChunkList_clear_def ChunkList_isEmpty_def chunk_list_def free_cell_def cell_total_def)
qed

lemma clear_queue: "block_queue m (BlockList_clear bl) []"
  by (simp add: block_queue_def BlockList_clear_def)

text \<open>
  \<open>GC_GlobalAllocator_init\<close>: \<open>limit\<close> and \<open>divisor\<close> are what the options say, \<open>s\<close> and \<open>l\<close> are the addresses of the two
  mappings, which are apart by more than the memory limit.
\<close>

definition mappings_ok :: "nat \<Rightarrow> addr \<Rightarrow> addr \<Rightarrow> bool" where
  "mappings_ok limit s l \<longleftrightarrow> s \<noteq> 0 \<and> l \<noteq> 0 \<and> s + 32768 + limit < 2 ^ 64 \<and> l + 32768 + limit < 2 ^ 64 \<and>
     (s + 32768 + limit \<le> l \<or> l + 32768 + limit \<le> s)"

definition fresh_global :: "GlobalAllocator \<Rightarrow> mem \<Rightarrow> nat \<Rightarrow> bool" where
  "fresh_global G m k \<longleftrightarrow> (\<forall>L. alloc_inv m G L k {} {} [] (blocks_from (small_heap_start G) k) []) \<and>
     large_heap_size G = k * BLOCK_SIZE \<and> large_heap_stop G = large_heap_start G + k * BLOCK_SIZE \<and>
     chunk_list m (large_chunk_list G) (large_heap_start G) [free_cell (k * BLOCK_SIZE - 16)] \<and> spaces_apart G \<and>
     large_heap_start G + memory_limit G < 2 ^ 64 \<and> 8 dvd large_heap_start G \<and> hash_wf (finalizers G) \<and>
     hash_map (finalizers G) = Map.empty \<and> mask (finalizers G) + 1 = 8 \<and> allocated_bytes_since_collect G = 0"

lemma init_blocks_spec:
  assumes "is_block s" and "s + k * BLOCK_SIZE < 2 ^ 64" and "0 < k"
  obtains bl m' where "init_blocks s (s + k * BLOCK_SIZE) (BlockList_clear bl0) m = (bl, m')"
    "appended m m' bl [] (blocks_from s k)"
  using init_blocks_grow [of 0 k s "BlockList_clear bl0" m] grow_blocks_spec [OF clear_queue assms(1,2), of 0 bl0 m]
  by (auto simp: blocks_from_def)

lemma fresh_alloc:
  assumes b: "is_block s" "s + k * BLOCK_SIZE < 2 ^ 64" and ap: "appended m0 m1 bl [] (blocks_from s k)"
    and same: "same_bytes m1 m s (s + k * BLOCK_SIZE)" and sp: "space_ok G k"
    and G: "small_heap_start G = s" "free_list G = bl" "recyclable_list G = BlockList_clear bl0"
  shows "alloc_inv m G L k {} {} [] (blocks_from s k) []"
proof -
  note blk = blocks_from_blocks [OF b]
  have in_heap: "s \<le> a \<and> a < s + k * BLOCK_SIZE" if "b \<in> set (blocks_from s k)" "b \<le> a" "a < b + BLOCK_SIZE" for a b
    using blocks_from_bounds [OF that(1)] that(2,3) by simp
  have fresh: "fresh_header m b" if "b \<in> set (blocks_from s k)" for b
    using ap that in_heap [OF that] same by (auto simp: appended_def fresh_header_def same_bytes_def)
  have "block_queue m bl (blocks_from s k)"
  proof (rule block_queue_cong)
    show "block_queue m1 bl (blocks_from s k)" using ap by (simp add: appended_def)
    show "Block_next m b = Block_next m1 b" if "b \<in> set (blocks_from s k)" for b
      by (rule Block_next_cong) (use same in_heap [OF that] in \<open>auto simp: same_bytes_def\<close>)
  qed
  moreover have "small_layout m s k {}"
    using fresh_layout [OF fresh] b blk by (auto simp: small_layout_def block_objects_def is_block_def)
  moreover have "free_block m {} b" if "b \<in> set (blocks_from s k)" for b
    using fresh_header_fields(1) [OF fresh [OF that]] by (simp add: free_block_def block_objects_def)
  ultimately show ?thesis
    using sp blocks_from_distinct clear_queue by (simp add: alloc_inv_def G)
qed

lemma global_init_spec:
  assumes k: "2 \<le> k" "2 * k * BLOCK_SIZE \<le> limit" and limit: "GC_maximumHeapSize getenv errno phys = limit" "limit < 2 ^ 46"
    and map: "mappings_ok limit s l"
  shows "\<exists>G m'. GlobalAllocator_init getenv errno phys (Some s) (Some l) m self (k * BLOCK_SIZE) = ret (G, m') \<and>
    fresh_global G m' k \<and> memory_limit G = limit \<and> free_space_divisor G = GC_freeSpaceDivisor getenv errno"
proof -
  let ?n = "k * BLOCK_SIZE"
  have n: "0 < ?n" "32768 dvd ?n" "?n < 2 ^ 64" "2 * ?n \<le> limit" "65536 \<le> ?n" using k limit(2) by simp_all
  obtain ss where ss: "GC_mapAndAlign (Some s) ?n = ret ss" "32768 dvd ss" "s \<le> ss" "ss \<le> s + 32768"
    using mapAndAlign_spec [OF n(1-3), of s] map by (auto simp: mappings_ok_def)
  obtain ls where ls: "GC_mapAndAlign (Some l) ?n = ret ls" "32768 dvd ls" "l \<le> ls" "ls \<le> l + 32768"
    using mapAndAlign_spec [OF n(1-3), of l] map by (auto simp: mappings_ok_def)
  have ssb: "is_block ss" "ss + ?n < 2 ^ 64" using map ss n by (auto simp: is_block_def mappings_ok_def)
  have k0: "0 < k" using k(1) by simp
  obtain bl m1 where b: "init_blocks ss (ss + ?n) (BlockList_clear (free_list self)) m = (bl, m1)"
    "appended m m1 bl [] (blocks_from ss k)"
    by (rule init_blocks_spec [OF ssb k0])
  have far: "ss + limit \<le> ls \<or> ls + limit \<le> ss" using map ss ls by (auto simp: mappings_ok_def)
  have room: "ls \<noteq> 0" "16 \<le> ?n - 16" "ls + 16 + (?n - 16) < 2 ^ 64" "size_sub ?n CHUNK_HEADER_SIZE = ?n - 16"
    using map ls n by (auto simp: mappings_ok_def)
  obtain cl m2 where c: "ChunkList_push (ChunkList_clear (large_chunk_list self)) (Chunk_init m1 ls (?n - 16)) ls = (cl, m2)"
    "chunk_list m2 cl ls [free_cell (?n - 16)]" "\<forall>lo hi. hi \<le> ls \<or> ls + 32 \<le> lo \<longrightarrow> same_bytes m1 m2 lo hi"
    using first_chunk [OF room(1-3)] by blast
  obtain t where t: "Hash_create 8 = ret t" "hash_wf t" "hash_map t = Map.empty" "mask t + 1 = 8"
    using hash_create_spec [of 8] create_8 by auto
  let ?G = "self\<lparr>memory_limit := limit, free_space_divisor := GC_freeSpaceDivisor getenv errno,
    allocated_bytes_since_collect := 0, total_allocated_bytes := 0, small_heap_size := ?n, small_heap_start := ss,
    small_heap_stop := ss + ?n, free_list := bl, recyclable_list := BlockList_clear (recyclable_list self),
    large_heap_size := ?n, large_heap_start := ls, large_heap_stop := ls + ?n, large_chunk_list := cl, finalizers := t\<rparr>"
  have eq: "GlobalAllocator_init getenv errno phys (Some s) (Some l) m self ?n = ret (?G, m2)"
    using n(5) by (simp add: GlobalAllocator_init_def limit(1) Let_def ss(1) [simplified] ls(1) [simplified] b(1) [simplified]
        room(4) [simplified] c(1) [simplified] t(1))
  have "same_bytes m1 m2 ss (ss + ?n)" using c(3) far n(4,5) by auto
  moreover have "space_ok ?G k" using k limit(2) map ss by (auto simp: space_ok_def mappings_ok_def)
  ultimately have "alloc_inv m2 ?G L k {} {} [] (blocks_from ss k) []" for L
    by (intro fresh_alloc [OF ssb b(2)]) simp_all
  moreover have "ls + limit < 2 ^ 64" "8 dvd ls" using map ls by (auto simp: mappings_ok_def)
  ultimately have "fresh_global ?G m2 k" using c(2) far t by (simp add: fresh_global_def spaces_apart_def)
  then show ?thesis using eq by auto
qed

section \<open>Threads\<close>

lemma heap_ok_free: "heap_ok g as n S K cs \<Longrightarrow> \<exists>fs rs. alloc_state g n S K (slots as) fs rs \<and>
    bl_size (free_list (global g)) = length fs \<and> bl_size (recyclable_list (global g)) = length rs"
  unfolding heap_ok_def alloc_state_def using alloc_invD(4,5) by (fastforce simp: block_queue_def)

text \<open>A new thread gets two blocks; the objects and the blocks of the others stay as they are.\<close>

definition thread_added :: "'a gc_scheme \<Rightarrow> 'a gc_scheme \<Rightarrow> addr \<Rightarrow> addr set \<Rightarrow> bool" where
  "thread_added g g' a K \<longleftrightarrow> items (local_allocators g') = items (local_allocators g) @ [a] \<and> current g' = a \<and>
     kept K (heap g) (heap g') \<and> same_large (global g) (global g') \<and> outside (global g) (heap g) (heap g') \<and>
     lock_depth g' = lock_depth g \<and> is_collecting g' = is_collecting g \<and> roots g' = roots g \<and> collect_callback g' = collect_callback g \<and>
     allocated_bytes_since_collect (global g') = allocated_bytes_since_collect (global g) \<and>
     (2 \<le> bl_size (free_list (global g)) \<longrightarrow> small_heap_size (global g') = small_heap_size (global g)) \<and>
     (bl_size (recyclable_list (global g)) = 0 \<longrightarrow> la_next (locals g' a) = la_next (locals g a)) \<and>
     bl_size (free_list (global g)) \<le> bl_size (free_list (global g')) + 2 \<and> (\<forall>x. x \<noteq> a \<longrightarrow> locals g' x = locals g x) \<and>
     ary_capacity (local_allocators g') = (if length (items (local_allocators g)) = ary_capacity (local_allocators g)
       then 2 * ary_capacity (local_allocators g) else ary_capacity (local_allocators g))"

lemma init_thread_spec:
  assumes ok: "gc_ok g n S K cs" and quiet: "quiet g" and a: "a \<noteq> 0" "a \<notin> set (items (local_allocators g))"
    and nx: "la_next (locals g a) = 0 \<or> 0 < bl_size (recyclable_list (global g))" and cap: "ary_capacity (local_allocators g) < 2 ^ 59"
  shows "GC_init_thread env junk a g = abort_with ''GC: out of memory'' \<and> bl_size (free_list (global g)) < 2 \<or>
    (\<exists>g' n'. GC_init_thread env junk a g = ret g' \<and> gc_ok g' n' S K cs \<and> thread_added g g' a K)"
proof -
  let ?as = "items (local_allocators g)" and ?c = "program_collect env"
  have as: "array_wf (local_allocators g)" "distinct ?as" and hok: "heap_ok g ?as n S K cs" using ok by (simp_all add: gc_ok_def)
  obtain fs rs where inv: "alloc_state g n S K (slots ?as) fs rs" and len: "bl_size (free_list (global g)) = length fs"
    "bl_size (recyclable_list (global g)) = length rs" using heap_ok_free [OF hok] by blast
  have new: "distinct (Main a # Overflow a # slots ?as)" using as(2) a(2) by auto
  have nx': "rs = [] \<longrightarrow> la_next (locals g a) = 0" using nx len(2) by auto
  from reset_spec [OF inv quiet new nx', of ?c] show ?thesis
  proof (elim disjE exE conjE)
    assume "LocalAllocator_reset ?c g a = abort_with ''GC: out of memory''" "length fs < 2"
    then show ?thesis using a(1) len(1) by (simp add: GC_init_thread_def LocalAllocator_init_def)
  next
    fix g1 n1 fs1
    assume g1: "LocalAllocator_reset ?c g a = ret g1" "alloc_state g1 n1 S K (Main a # Overflow a # slots ?as) fs1 (tl rs)"
      "steady g g1" "kept K (heap g) (heap g1)" "only_local a g g1" "2 \<le> length fs \<longrightarrow> same_size g g1"
      "rs = [] \<longrightarrow> la_next (locals g1 a) = la_next (locals g a)" "length fs \<le> length fs1 + 2"
    have more: "local_allocators g1 = local_allocators g" "roots g1 = roots g" "collect_callback g1 = collect_callback g"
      using g1(3) more_gc [of g1 g] more_cheap [of g1 g] by (auto simp: steady_def)
    obtain ary where ary: "Array_push junk (local_allocators g) a = ret ary" "array_wf ary" "items ary = ?as @ [a]"
      "ary_capacity ary = (if length ?as = ary_capacity (local_allocators g) then 2 * ary_capacity (local_allocators g)
         else ary_capacity (local_allocators g))"
      using Array_push_ok [OF as(1) cap, of junk a] as(1) by (auto simp: array_wf_def items_def)
    have free1: "bl_size (free_list (global g1)) = length fs1" using g1(2) alloc_invD(4) by (fastforce simp: alloc_state_def block_queue_def)
    have "alloc_state g1 n1 S K (slots (?as @ [a])) fs1 (tl rs)"
      by (rule alloc_state_perm [OF g1(2)]) (use as(2) a(2) in \<open>auto simp: slots_def distinct_map inj_on_def\<close>)
    from heap_ok_steady [OF hok g1(3) this] have "heap_ok g1 (?as @ [a]) n1 S K cs" .
    let ?g = "GC_unlock ((GC_lock (g1\<lparr>current := a\<rparr>))\<lparr>local_allocators := ary\<rparr>)"
    have "GC_init_thread env junk a g = ret ?g"
      using a(1) g1(1) ary(1) more(1) by (simp add: GC_init_thread_def LocalAllocator_init_def Let_def) (simp add: GC_lock_def)
    moreover have "gc_ok ?g n1 S K cs"
      using \<open>heap_ok g1 (?as @ [a]) n1 S K cs\<close> ary(2,3) as(2) a(2)
      by (simp add: gc_ok_def GC_lock_def GC_unlock_def heap_ok_def alloc_state_def large_wf_def)
    moreover have "thread_added g ?g a K"
      using g1(3-8) ary(3,4) more len free1
      by (simp add: thread_added_def GC_lock_def GC_unlock_def steady_def same_size_def only_local_def)
    ultimately show ?thesis by blast
  qed
qed

section \<open>The start of the program\<close>

lemma gc_init_spec:
  assumes k: "2 \<le> k" "GC_initialHeapSize getenv errno = k * BLOCK_SIZE" "2 * k * BLOCK_SIZE \<le> limit"
    and limit: "GC_maximumHeapSize getenv errno phys = limit" "limit < 2 ^ 46"
    and div: "0 < GC_freeSpaceDivisor getenv errno" "GC_freeSpaceDivisor getenv errno \<le> 2 * k * BLOCK_SIZE"
    and map: "mappings_ok limit s l" and a: "a \<noteq> 0" "la_next (locals g a) = 0"
  shows "\<exists>g'. GC_init env getenv errno phys (Some s) (Some l) junk a g = ret g' \<and>
    gc_ok g' k {} {} [free_cell (k * BLOCK_SIZE - 16)] \<and> items (local_allocators g') = [a] \<and> current g' = a \<and>
    \<not> is_collecting g' \<and> lock_depth g' = lock_depth g \<and> hash_wf (finalizers (global g')) \<and> stack_wf (roots g') \<and>
    memory_limit (global g') = limit \<and> collect_callback g' = 0 \<and>
    free_space_divisor (global g') = GC_freeSpaceDivisor getenv errno \<and> allocated_bytes_since_collect (global g') = 0 \<and>
    la_next (locals g' a) = 0 \<and> ary_capacity (local_allocators g') = 16 \<and> k \<le> bl_size (free_list (global g')) + 2 \<and>
    (\<forall>x. x \<noteq> a \<longrightarrow> locals g' x = locals g x) \<and> hash_map (finalizers (global g')) = Map.empty \<and>
    mask (finalizers (global g')) + 1 = 8 \<and> stack_pairs (roots g') = []"
proof -
  obtain G m where G: "GlobalAllocator_init getenv errno phys (Some s) (Some l) (heap g) (global g) (k * BLOCK_SIZE) = ret (G, m)"
    "fresh_global G m k" "memory_limit G = limit" "free_space_divisor G = GC_freeSpaceDivisor getenv errno"
    using global_init_spec [OF k(1,3) limit map] by blast
  obtain ary where ary: "Array_init junk (local_allocators g) 16 = ret ary" "array_wf ary" "items ary = []" "ary_capacity ary = 16"
    using Array_init_ok [of 16] by auto
  let ?g = "Collector_init phys (g\<lparr>global := G, heap := m, local_allocators := ary\<rparr>)"
  have sel: "global ?g = G" "heap ?g = m" "local_allocators ?g = ary" "locals ?g = locals g" "\<not> is_collecting ?g"
    "lock_depth ?g = lock_depth g" "roots ?g = Stack_init phys" "collect_callback ?g = 0" by (simp_all add: Collector_init_def)
  note F = G(2) [unfolded fresh_global_def]
  have inv: "alloc_inv m G (locals g) k {} {} [] (blocks_from (small_heap_start G) k) []" using F by blast
  then have sp: "space_ok G k" by (rule alloc_invD(3))
  have "large_wf ?g [free_cell (k * BLOCK_SIZE - 16)]"
    using F sp k(1) by (simp add: large_wf_def sel cell_total_def free_cell_def space_ok_def)
  moreover have "alloc_state ?g k {} {} (slots []) (blocks_from (small_heap_start G) k) []"
    using inv by (simp add: alloc_state_def sel slots_def)
  ultimately have ok: "gc_ok ?g k {} {} [free_cell (k * BLOCK_SIZE - 16)]"
    using F ary k(1) unfolding gc_ok_def heap_ok_def by (auto simp: sel free_cell_def)
  have "GlobalAllocator_heapSize G = 2 * k * BLOCK_SIZE"
    using F sp by (simp add: GlobalAllocator_heapSize_def space_ok_def)
  moreover have "0 < (2 * k * BLOCK_SIZE) div free_space_divisor G" using div G(4) by (simp add: div_greater_zero_iff)
  ultimately have "quiet ?g" using F div(1) G(4) by (simp add: quiet_def sel)
  moreover have rl: "bl_size (recyclable_list G) = 0" using alloc_invD(5) [OF inv] by (simp add: block_queue_def)
  moreover have free: "bl_size (free_list G) = k" using alloc_invD(4) [OF inv] by (simp add: block_queue_def blocks_from_def)
  moreover have "GC_init env getenv errno phys (Some s) (Some l) junk a g = GC_init_thread env junk a ?g"
    using G(1) ary(1) by (simp add: GC_init_def k(2) Let_def del: BLOCK_SIZE_def)
  ultimately obtain g' n' where g': "GC_init env getenv errno phys (Some s) (Some l) junk a g = ret g'"
    "gc_ok g' n' {} {} [free_cell (k * BLOCK_SIZE - 16)]" "thread_added ?g g' a {}"
    using init_thread_spec [OF ok _ a(1), of env junk] a(2) k(1) ary by (auto simp: sel)
  have "small_heap_size (global g') = small_heap_size G"
    using g'(3) k(1) free by (simp add: thread_added_def sel)
  moreover have "space_ok (global g') n'" using g'(2) heap_okD(7) by (auto simp: gc_ok_def)
  ultimately have n': "n' = k" using sp by (simp add: space_ok_def)
  have "items (local_allocators g') = [a]" "current g' = a" "\<not> is_collecting g'" "lock_depth g' = lock_depth g"
    "collect_callback g' = 0" "allocated_bytes_since_collect (global g') = 0" "la_next (locals g' a) = 0"
    "ary_capacity (local_allocators g') = 16" "k \<le> bl_size (free_list (global g')) + 2" "\<forall>x. x \<noteq> a \<longrightarrow> locals g' x = locals g x"
    using g'(3) sel ary(3,4) F rl a(2) free by (simp_all add: thread_added_def)
  moreover have "hash_wf (finalizers (global g'))" "memory_limit (global g') = limit" "stack_wf (roots g')"
    "hash_map (finalizers (global g')) = Map.empty" "mask (finalizers (global g')) + 1 = 8" "stack_pairs (roots g') = []"
    "free_space_divisor (global g') = GC_freeSpaceDivisor getenv errno"
    using g'(3) sel F G(3,4) stack_init_ok [of phys] by (simp_all add: thread_added_def same_large_def)
  ultimately show ?thesis using g'(1,2) n' by blast
qed

end
