(* ===== verification/Interface.thy ===== *)
theory Interface
  imports Startup
begin

text \<open>
  The interface of the library from the start of the program on: what \<open>GC_init\<close>, \<open>GC_init_thread\<close>, \<open>GC_malloc\<close> and
  \<open>GC_collect_once\<close> guarantee on every well-formed heap.
\<close>

section \<open>A sample program\<close>

text \<open>A program with 1 GB of memory, no options set, and the data section from \<open>a\<close> to \<open>b\<close>.\<close>

definition sample_program :: "addr \<Rightarrow> addr \<Rightarrow> unit program" where
  "sample_program a b =
     \<lparr>program_collect = ret, call_finalizer = (\<lambda>f p g. g), call_callback = (\<lambda>f g. ret g),
      DATA_START = a, DATA_END = b, BSS_START = b, BSS_END = b\<rparr>"

definition blank :: gc where
  "blank =
     \<lparr>heap = (\<lambda>_. 0), global = sample_global, is_collecting = False, lock_depth = 0,
      locals = (\<lambda>_. \<lparr>la_block = 0, la_cursor = 0, la_limit = 0, la_next = 0, overflow_block = 0, overflow_cursor = 0,
                     overflow_limit = 0\<rparr>),
      roots = Stack_init 0, collect_callback = 0,
      local_allocators = \<lparr>ary_capacity = 0, ary_buffer = [], ary_cursor = 0, ary_limit = 0\<rparr>, current = 0\<rparr>"

definition sample_init :: "gc prog" where
  "sample_init = GC_init (sample_program 4096 4104) (\<lambda>_. None) 0 (2 ^ 30) (Some (2 ^ 32)) (Some (2 ^ 34)) (\<lambda>_. 0) 64 blank"

lemma no_options: "GC_initialHeapSize (\<lambda>_. None) e = 128 * BLOCK_SIZE" "GC_maximumHeapSize (\<lambda>_. None) e n = n"
  "GC_freeSpaceDivisor (\<lambda>_. None) e = 3"
  by (simp_all add: GC_initialHeapSize_def GC_maximumHeapSize_def GC_freeSpaceDivisor_def
      GC_getSizeFromEnvironmentVariable_def GC_getIntegerFromEnvironmentVariable_def)

lemma sample_mappings: "mappings_ok (2 ^ 30) (2 ^ 32) (2 ^ 34)"
  by (simp add: mappings_ok_def)

lemma sample_started:
  obtains g where "sample_init = ret g" "gc_ok g 128 {} {} [free_cell 4194288]" "items (local_allocators g) = [64]"
    "current g = 64" "\<not> is_collecting g" "lock_depth g = 0" "hash_wf (finalizers (global g))" "stack_wf (roots g)"
    "memory_limit (global g) = 2 ^ 30" "collect_callback g = 0" "free_space_divisor (global g) = 3"
    "allocated_bytes_since_collect (global g) = 0" "la_next (locals g 64) = 0"
    "ary_capacity (local_allocators g) = 16" "126 \<le> bl_size (free_list (global g))" "la_next (locals g 128) = 0"
    "hash_map (finalizers (global g)) = Map.empty" "mask (finalizers (global g)) + 1 = 8"
proof -
  have "la_next (locals blank 64) = 0" "la_next (locals blank 128) = 0" "lock_depth blank = 0" by (simp_all add: blank_def)
  with gc_init_spec [of 128 "\<lambda>_. None" 0 "2 ^ 30" "2 ^ 30" "2 ^ 32" "2 ^ 34" 64 blank "sample_program 4096 4104" "\<lambda>_. 0"]
  show thesis using that sample_mappings by (auto simp: no_options sample_init_def)
qed

lemma sample_program_ok:
  assumes "hash_wf (finalizers (global g))" "stack_wf (roots g)" "collect_callback g = 0"
  shows "client_ok (sample_program 4096 4104) g []" "polite (sample_program 4096 4104)"
  using assms by (auto simp: client_ok_def sample_program_def callback_adds_def harmless_def polite_def)

lemma quiet_start:
  assumes "gc_ok g n S K cs" and "free_space_divisor (global g) = 3" "allocated_bytes_since_collect (global g) = 0"
  shows "quiet g"
proof -
  have h: "large_wf g cs" "space_ok (global g) n" using assms(1) heap_okD by (auto simp: gc_ok_def)
  then have "3 < GlobalAllocator_heapSize (global g)" by (auto simp: GlobalAllocator_heapSize_def space_ok_def large_wf_def)
  then have "0 < GlobalAllocator_heapSize (global g) div 3" by (simp add: div_greater_zero_iff)
  then show ?thesis using assms(2,3) by (simp add: quiet_def)
qed

lemma not_full_start:
  assumes "gc_ok g 128 S K [free_cell 4194288]" and "memory_limit (global g) = 2 ^ 30"
  shows "\<not> full (global g)"
proof -
  have h: "large_wf g [free_cell 4194288]" "space_ok (global g) 128" using assms(1) heap_okD by (auto simp: gc_ok_def)
  have "growth_blocks 128 = 39" by (simp add: growth_blocks_def)
  then show ?thesis
    using h(1) assms(2) full_iff [OF h(2)] h(2) by (simp add: space_ok_def large_wf_def cell_total_def free_cell_def)
qed

section \<open>Small objects\<close>

lemma malloc_small_spec:
  assumes "gc_ok g n S K cs" and "quiet g" and "current g \<in> set (items (local_allocators g))"
    and "sz \<le> 8176" and "at < 256"
  shows "GC_malloc_with_atomic env g sz at = abort_with ''GC: out of memory'' \<and> full (global g) \<or>
    (\<exists>g' c n'. GC_malloc_with_atomic env g sz at = ret (g', c + sizeof_Object) \<and> c \<notin> S \<and>
       clear_of S c (rounded sz) \<and> gc_ok g' n' (insert c S) (insert c K) cs \<and> fresh_object g g' c (rounded sz) at K)"
proof -
  have ok: "array_wf (local_allocators g)" "distinct (items (local_allocators g))" "heap_ok g (items (local_allocators g)) n S K cs"
    using assms(1) by (simp_all add: gc_ok_def)
  have eq: "GC_malloc_with_atomic env g sz at = LocalAllocator_allocateSmall (program_collect env) g (current g) sz at"
    using assms(4) by (simp add: GC_malloc_with_atomic_def)
  from allocateSmall_spec [OF ok(3) assms(2-5), of "program_collect env", folded eq] show ?thesis
  proof (elim disjE exE conjE)
    fix g' c n' assume r: "GC_malloc_with_atomic env g sz at = ret (g', c + 16)"
      "heap_ok g' (items (local_allocators g)) n' (insert c S) (insert c K) cs" "c \<notin> S" "clear_of S c (rounded sz)" "fresh_object g g' c (rounded sz) at K"
    have "local_allocators g' = local_allocators g" using r(5) more_gc by (auto simp: fresh_object_def stable_def)
    then show ?thesis using r ok(1,2) by (auto simp: gc_ok_def)
  qed blast
qed

section \<open>Properties\<close>

text \<open>
  C31. Both spaces begin on a block boundary, at most one block behind the address \<open>mmap\<close> returned, whatever the initial
  heap size is: it need only be a multiple of the block size, although the alignment mask is meant for powers of two.
\<close>

theorem heap_start_aligned:
  assumes "0 < n" "BLOCK_SIZE dvd n" "n < 2 ^ 64" and "s + BLOCK_SIZE < 2 ^ 64"
  shows "\<exists>start. GC_mapAndAlign (Some s) n = ret start \<and> BLOCK_SIZE dvd start \<and> s \<le> start \<and> start \<le> s + BLOCK_SIZE"
  using mapAndAlign_spec [of n s] assms by simp

theorem heap_start_aligned_witness:
  "\<exists>start. GC_mapAndAlign (Some 100000) 98304 = ret start \<and> BLOCK_SIZE dvd start \<and> 100000 \<le> start \<and> start \<le> 132768"
  using heap_start_aligned [of 98304 100000] by simp







text \<open>
  C4. A collection restores the invariant for every thread. \<open>GC_collect_once\<close> either reports that memory is exhausted,
  when fewer blocks than twice the number of threads hold no object that could be reached, or it returns: the heap is well-formed
  again with the small objects that matter being those that were marked, every allocator has blocks of its own, every object
  that can be reached from the roots is among the marked ones, and all its bytes but the mark bytes are the
  same; the lock is as before and the collecting flag is cleared. (The last chunk is below 2 GB, and no allocator is left with
  a stale \<open>next\<close> hole.)
\<close>

theorem collect_once_restores:
  assumes "gc_ok g n S K cs" and "client_ok env g rs" and "polite env" and "cell_total (last cs) < 2 ^ 31" and "next_ok env g"
  defines "h \<equiv> shape_of g n S cs" and "R \<equiv> root_ranges env rs g"
  shows "GC_collect_once env g = abort_with ''GC: out of memory'' \<and>
      blocks_without h (possibly_reachable h R) < 2 * length (items (local_allocators g)) \<or>
    (\<exists>g' M n' S' cs'. GC_collect_once env g = ret g' \<and> gc_ok g' n' S' (M \<inter> S) cs' \<and> reachable h R \<subseteq> M \<and>
       M \<subseteq> possibly_reachable h R \<and> M \<inter> S \<subseteq> S' \<and> large_nodes (shape_of g' n' S' cs') = M \<inter> large_nodes h \<and>
       bytes_kept h M (heap g') \<and> lock_depth g' = lock_depth g \<and> \<not> is_collecting g' \<and>
       local_allocators g' = local_allocators g)"
  using collect_once_spec [OF assms(1-5)] unfolding collect_result_def h_def R_def shape_of_sel by blast

lemma sample_no_objects:
  assumes "gc_ok g 128 {} {} [free_cell 4194288]"
  shows "blocks_without (shape_of g 128 {} [free_cell 4194288]) (possibly_reachable (shape_of g 128 {} [free_cell 4194288]) R) = 128"
proof -
  let ?h = "shape_of g 128 {} [free_cell 4194288]"
  have "nodes ?h = {}" by (auto simp: nodes_def large_nodes_def free_cell_def)
  then have "possibly_reachable ?h R = {}" using reached_nodes by blast
  then show ?thesis by (simp add: blocks_without_def block_objects_def shape_blocks_def blocks_from_def)
qed

theorem collect_once_restores_witness:
  "\<exists>g g' n' S' cs'. sample_init = ret g \<and> GC_collect_once (sample_program 4096 4104) g = ret g' \<and> gc_ok g' n' S' {} cs'"
proof -
  obtain g where g: "sample_init = ret g" "gc_ok g 128 {} {} [free_cell 4194288]" "items (local_allocators g) = [64]"
    "hash_wf (finalizers (global g))" "stack_wf (roots g)" "collect_callback g = 0" "la_next (locals g 64) = 0"
    by (rule sample_started)
  note P = sample_program_ok [OF g(4-6)]
  have "cell_total (last [free_cell 4194288]) < 2 ^ 31" by (simp add: cell_total_def free_cell_def)
  moreover have "next_ok (sample_program 4096 4104) g" using g(3,7) by (simp add: next_ok_def)
  ultimately show ?thesis
    using collect_once_restores [OF g(2) P] sample_no_objects [OF g(2)] g(1,3) by fastforce
qed

end
