(* ===== verification/Finalizing.thy ===== *)
theory Finalizing
  imports Large_Objects Interface
begin

text \<open>
  Which finalizers a collection calls: those of the objects that are not marked, once each, with the address the program knows
  the object by; their entries leave the table, all others stay.
\<close>

section \<open>The walk over the table\<close>

text \<open>A program whose finalizers only change its own part of the state, as \<open>note\<close> says.\<close>

definition logging :: "'a program \<Rightarrow> (addr \<Rightarrow> addr \<Rightarrow> 'a \<Rightarrow> 'a) \<Rightarrow> bool" where
  "logging env note \<longleftrightarrow> (\<forall>f p s. call_finalizer env f p s = gc.more_update (note f p) s)"

lemma logging_polite: "logging env note \<Longrightarrow> polite env"
  by (simp add: logging_def polite_def gc.defs)

definition unmarked_pairs :: "addr set \<Rightarrow> (addr \<times> addr) list \<Rightarrow> (addr \<times> addr) list" where
  "unmarked_pairs M ps = filter (\<lambda>(x, f). x \<notin> M) ps"

definition note_all :: "(addr \<Rightarrow> addr \<Rightarrow> 'a \<Rightarrow> 'a) \<Rightarrow> (addr \<times> addr) list \<Rightarrow> 'a \<Rightarrow> 'a" where
  "note_all note ps = fold (\<lambda>(x, f). note f (x + 16)) ps"

text \<open>Finalizers that leave the collector alone do not decide which entries go.\<close>

lemma run_finalizers_keys:
  assumes pol: "polite env" and M: "\<forall>(x, f) \<in> set ps. Object_isMarked m x \<longleftrightarrow> x \<in> M" and s: "heap s = m"
  shows "fst (run_callbacks (GlobalAllocator_finalizeObjectCallback (call_finalizer env)) ps s) = map fst (unmarked_pairs M ps)"
  using M s
proof (induction ps arbitrary: s)
  case Nil
  then show ?case by (simp add: unmarked_pairs_def)
next
  case (Cons p ps)
  obtain x f where p: "p = (x, f)" by (cases p)
  have call: "heap (call_finalizer env f q s) = m" for q
    using pol truncate_fields(1) [of "call_finalizer env f q s" s] Cons.prems(2) by (simp add: polite_def)
  have IH: "fst (run_callbacks (GlobalAllocator_finalizeObjectCallback (call_finalizer env)) ps t) = map fst (unmarked_pairs M ps)"
    if "heap t = m" for t :: "'a gc_scheme"
    using Cons.IH [of t] Cons.prems(1) that by simp
  have cb: "GlobalAllocator_finalizeObjectCallback (call_finalizer env) x f s =
      (if x \<in> M then (False, s) else (True, call_finalizer env f (x + 16) s))"
    using Cons.prems p by (auto simp: GlobalAllocator_finalizeObjectCallback_def Object_mutatorAddress_def)
  show ?case using IH [OF Cons.prems(2)] IH [OF call] by (simp add: p cb unmarked_pairs_def split_beta)
qed

lemma run_finalizers:
  assumes n: "logging env note" and M: "\<forall>(x, f) \<in> set ps. Object_isMarked m x \<longleftrightarrow> x \<in> M" and s: "heap s = m"
  shows "snd (run_callbacks (GlobalAllocator_finalizeObjectCallback (call_finalizer env)) ps s) =
    gc.more_update (note_all note (unmarked_pairs M ps)) s"
  using M s
proof (induction ps arbitrary: s)
  case Nil
  then show ?case by (simp add: unmarked_pairs_def note_all_def)
next
  case (Cons p ps)
  obtain x f where p: "p = (x, f)" by (cases p)
  have call: "call_finalizer env f q t = gc.more_update (note f q) t" for f q t using n by (simp add: logging_def)
  have IH: "snd (run_callbacks (GlobalAllocator_finalizeObjectCallback (call_finalizer env)) ps t) =
    gc.more_update (note_all note (unmarked_pairs M ps)) t" if "heap t = m" for t :: "'a gc_scheme"
    using Cons.IH [of t] Cons.prems(1) that by simp
  have x: "Object_isMarked (heap s) x \<longleftrightarrow> x \<in> M" using Cons.prems p by auto
  have cb: "GlobalAllocator_finalizeObjectCallback (call_finalizer env) x f s =
      (if x \<in> M then (False, s) else (True, gc.more_update (note f (x + 16)) s))"
    by (simp add: GlobalAllocator_finalizeObjectCallback_def x call Object_mutatorAddress_def)
  show ?case
    using IH [OF Cons.prems(2)] IH [of "gc.more_update (note f (x + 16)) s"] Cons.prems(2)
    by (simp add: p cb unmarked_pairs_def note_all_def comp_def split_beta)
qed

lemma finalized_run:
  assumes f: "finalized env g g' h M" and pol: "polite env" and hash: "hash_wf (finalizers (global g))"
    and dom: "dom (hash_map (finalizers (global g))) \<subseteq> nodes h"
  defines "T \<equiv> finalizers (global g)"
  obtains g5 where "gc.more g5 = gc.more g" "\<forall>(x, f) \<in> set (live_pairs T). Object_isMarked (heap g5) x \<longleftrightarrow> x \<in> M"
    "gc.more g' = gc.more (snd (run_callbacks (GlobalAllocator_finalizeObjectCallback (call_finalizer env)) (live_pairs T) g5))"
    "hash_map (finalizers (global g')) = hash_map T |` M"
proof -
  obtain g5 g6 G m where r: "before_finalizers g g5" "GlobalAllocator_finalizeObjects (call_finalizer env) g5 = ret g6"
    "\<forall>x \<in> nodes h. Object_isMarked (heap g5) x \<longleftrightarrow> x \<in> M" "g' = g6\<lparr>global := G, heap := m\<rparr>" "finalizers G = finalizers (global g6)"
    using f by (auto simp: finalized_def)
  let ?cb = "GlobalAllocator_finalizeObjectCallback (call_finalizer env)"
  have g5: "finalizers (global g5) = T" "gc.more g5 = gc.more g"
    using r(1) by (auto simp: T_def before_finalizers_def GlobalAllocator_resetCounters_def)
  have pairs: "(x, v) \<in> set (live_pairs T) \<longleftrightarrow> hash_map T x = Some v" for x v
    using live_pairs_map [OF hash] map_of_eq_Some_iff unfolding T_def by metis
  then have mk: "\<forall>(x, v) \<in> set (live_pairs T). Object_isMarked (heap g5) x \<longleftrightarrow> x \<in> M" using r(3) dom unfolding T_def by blast
  let ?run = "run_callbacks ?cb (live_pairs T) g5" and ?ps = "unmarked_pairs M (live_pairs T)"
  have keys: "fst ?run = map fst ?ps" by (rule run_finalizers_keys [OF pol mk refl])
  from hash_deleteIf_spec [OF hash, of ?cb g5, folded T_def] obtain table where
    t: "Hash_deleteIf ?cb T g5 = ret (table, snd ?run)"
    "hash_map table = (\<lambda>key. if key \<in> set (fst ?run) then None else hash_map T key)" by (auto simp: split_beta)
  then have g6: "g6 = upd_global (\<lambda>self. self\<lparr>finalizers := table\<rparr>) (snd ?run)"
    using r(2) g5(1) by (auto simp: GlobalAllocator_finalizeObjects_def)
  then have more: "gc.more g' = gc.more (snd ?run)" by (simp add: r(4) upd_global_def)
  have "x \<in> set (map fst ?ps) \<longleftrightarrow> x \<in> dom (hash_map T) \<and> x \<notin> M" for x
    using pairs by (force simp: unmarked_pairs_def)
  then have "hash_map table = hash_map T |` M" unfolding t(2) keys by (auto simp: restrict_map_def fun_eq_iff domIff)
  then have "hash_map (finalizers (global g')) = hash_map T |` M" using r(4,5) g6 by (simp add: upd_global_def)
  with g5(2) mk more show thesis by (rule that)
qed

lemma finalized_calls:
  assumes f: "finalized env g g' h M" and n: "logging env note" and hash: "hash_wf (finalizers (global g))"
    and dom: "dom (hash_map (finalizers (global g))) \<subseteq> nodes h"
  defines "ps \<equiv> unmarked_pairs M (live_pairs (finalizers (global g)))"
  shows "gc.more g' = note_all note ps (gc.more g)"
    "hash_map (finalizers (global g')) = hash_map (finalizers (global g)) |` M"
proof -
  obtain g5 where r: "gc.more g5 = gc.more g" "\<forall>(x, f) \<in> set (live_pairs (finalizers (global g))). Object_isMarked (heap g5) x \<longleftrightarrow> x \<in> M"
    "gc.more g' = gc.more (snd (run_callbacks (GlobalAllocator_finalizeObjectCallback (call_finalizer env)) (live_pairs (finalizers (global g))) g5))"
    "hash_map (finalizers (global g')) = hash_map (finalizers (global g)) |` M"
    by (rule finalized_run [OF f logging_polite [OF n] hash dom])
  show "gc.more g' = note_all note ps (gc.more g)" using r(1,3) run_finalizers [OF n r(2) refl] by (simp add: ps_def)
  show "hash_map (finalizers (global g')) = hash_map (finalizers (global g)) |` M" by (rule r(4))
qed

section \<open>A sample program with finalizers\<close>

text \<open>Its finalizers log their calls; it has no roots.\<close>

definition logging_program :: "(addr \<times> addr) list program" where
  "logging_program =
     \<lparr>program_collect = ret, call_finalizer = (\<lambda>f p. gc.more_update (\<lambda>l. l @ [(f, p)])), call_callback = (\<lambda>f g. ret g),
      DATA_START = 4096, DATA_END = 4096, BSS_START = 4096, BSS_END = 4096\<rparr>"

definition logging_init :: "(addr \<times> addr) list gc_scheme prog" where
  "logging_init = GC_init logging_program (\<lambda>_. None) 0 (2 ^ 30) (Some (2 ^ 32)) (Some (2 ^ 34)) (\<lambda>_. 0) 64 (gc.extend blank [])"

lemma logging_program_logs: "logging logging_program (\<lambda>f p l. l @ [(f, p)])"
  by (simp add: logging_def logging_program_def)

lemma logging_started:
  obtains g where "logging_init = ret g" "gc_ok g 128 {} {} [free_cell 4194288]" "items (local_allocators g) = [64]"
    "\<not> is_collecting g" "hash_wf (finalizers (global g))" "stack_wf (roots g)" "stack_pairs (roots g) = []"
    "memory_limit (global g) = 2 ^ 30" "collect_callback g = 0" "free_space_divisor (global g) = 3"
    "allocated_bytes_since_collect (global g) = 0" "la_next (locals g 64) = 0"
    "hash_map (finalizers (global g)) = Map.empty" "mask (finalizers (global g)) + 1 = 8"
proof -
  have "la_next (locals (gc.extend blank []) 64) = 0" by (simp add: blank_def gc.defs)
  with gc_init_spec [of 128 "\<lambda>_. None" 0 "2 ^ 30" "2 ^ 30" "2 ^ 32" "2 ^ 34" 64 "gc.extend blank []" logging_program "\<lambda>_. 0"]
  show thesis using that sample_mappings by (auto simp: no_options logging_init_def)
qed

text \<open>After \<open>GC_init\<close>, one large object that nothing refers to, with finalizer 7; the state before the collection.\<close>

lemma logging_object:
  obtains g0 g1 g2 a cs where "logging_init = ret g0" "GC_malloc logging_program g0 20000 = ret (g1, a + 32)"
    "GC_register_finalizer g1 (a + 32) 7 = ret g2" "gc_ok g2 128 {} {} cs" "client_ok logging_program g2 []"
    "cell_total (last cs) < 2 ^ 31" "next_ok logging_program g2" "hash_map (finalizers (global g2)) = [a + 16 \<mapsto> 7]"
    "a + 16 \<in> nodes (shape_of g2 128 {} cs)" "root_ranges logging_program [] g2 = {(4096, 4096)}" "items (local_allocators g2) = [64]"
proof -
  obtain g0 where g0: "logging_init = ret g0" "gc_ok g0 128 {} {} [free_cell 4194288]" "items (local_allocators g0) = [64]"
    "\<not> is_collecting g0" "hash_wf (finalizers (global g0))" "stack_wf (roots g0)" "stack_pairs (roots g0) = []"
    "memory_limit (global g0) = 2 ^ 30" "collect_callback g0 = 0" "free_space_divisor (global g0) = 3"
    "allocated_bytes_since_collect (global g0) = 0" "la_next (locals g0 64) = 0"
    "hash_map (finalizers (global g0)) = Map.empty" "mask (finalizers (global g0)) + 1 = 8"
    by (rule logging_started)
  have q: "quiet g0" by (rule quiet_start [OF g0(2,10,11)])
  have "\<not> large_full (global g0) [free_cell 4194288] 20000" by (simp add: large_full_def unfit_def free_cell_def)
  moreover have "ROUND_TO_NEXT_MULTIPLE 20000 WORD_SIZE = 20000" by (simp add: ROUND_TO_NEXT_MULTIPLE_def)
  ultimately obtain g1 cs a where m: "GC_malloc_with_atomic logging_program g0 20000 0 = ret (g1, a + 32)" "gc_ok g1 128 {} {} cs"
    "large_allocated g0 [free_cell 4194288] g1 cs a 20000 0"
    using malloc_large_spec [OF g0(2) q, of 20000 0 logging_program] by auto
  then have same: "finalizers (global g1) = finalizers (global g0)" "gheap.more g1 = gheap.more g0"
    "same_small (global g0) (global g1)" using large_changeD(2) by (auto simp: large_allocated_def)
  have more: "locals g1 = locals g0" "roots g1 = roots g0" "collect_callback g1 = collect_callback g0" "local_allocators g1 = local_allocators g0"
    using same(2) by (cases g0; cases g1; simp)+
  have none: "hash_map (finalizers (global g1)) (a + 16) = None" and wf: "hash_wf (finalizers (global g1))"
    and room: "mask (finalizers (global g1)) < 2 ^ 58" using g0(5,13,14) same(1) by simp_all
  from hash_insert_fresh [OF wf none room, of 7] obtain t where t: "Hash_insert (finalizers (global g1)) (a + 16) 7 = ret t"
    "hash_wf t" "hash_map t = [a + 16 \<mapsto> 7]" using g0(13) same(1) by auto
  let ?g2 = "g1\<lparr>global := (global g1)\<lparr>finalizers := t\<rparr>\<rparr>"
  have ok: "gc_ok ?g2 128 {} {} cs"
    using m(2) by (simp add: gc_ok_def heap_ok_def alloc_state_def alloc_inv_def large_wf_def spaces_apart_def space_ok_def)
  have lim: "cell_total (last cs) < 2 ^ 31"
  proof -
    have h: "large_wf g1 cs" "space_ok (global g1) 128" using heap_okD(1,7) m(2) by (auto simp: gc_ok_def)
    then have "cs \<noteq> []" "extent cs \<le> memory_limit (global g1)" by (auto simp: large_wf_def chunk_list_def space_ok_def)
    moreover from this have "cell_total (last cs) \<le> extent cs" by (metis append_butlast_last_id extent_simps(1,2,3) add_0_right le_add2)
    ultimately show ?thesis using same(3) g0(8) by (simp add: same_small_def)
  qed
  obtain c where c: "(a, c) \<in> live_chunks (large_heap_start (global ?g2)) cs"
    using m(3) same(3) by (auto simp: large_allocated_def new_chunk_def same_small_def)
  have "a + 16 \<in> large_nodes (shape_of ?g2 128 {} cs)" unfolding large_nodes_live using c by (rule rev_image_eqI) simp
  then have "a + 16 \<in> nodes (shape_of ?g2 128 {} cs)" by (simp add: nodes_def)
  moreover have "client_ok logging_program ?g2 []"
    using g0(6,9) more t(2) by (simp add: client_ok_def callback_adds_def logging_program_def harmless_def)
  moreover have "next_ok logging_program ?g2" using g0(3,12) more by (simp add: next_ok_def)
  moreover have "root_ranges logging_program [] ?g2 = {(4096, 4096)}" using g0(7) more by (simp add: root_ranges_def logging_program_def)
  moreover have "GC_register_finalizer g1 (a + 32) 7 = ret ?g2"
    using t(1) by (simp add: GC_register_finalizer_def GlobalAllocator_registerFinalizer_def add.commute)
  moreover have "GC_malloc logging_program g0 20000 = ret (g1, a + 32)" using m(1) by (simp add: GC_malloc_def)
  ultimately show thesis using that [of g0 g1 a ?g2 cs] g0(1,3) ok lim t(3) more(4) by simp
qed

section \<open>Property\<close>

text \<open>
  C33. A collection calls the finalizer of every registered object that is not marked exactly once, with the object's payload
  address, and of no other; then the table holds exactly the entries of the marked objects. Every object the program can
  reach is among the marked ones, so none of its finalizers runs; a marked object is possibly reachable. The calls happen in the
  order of the table, whose keys are distinct.
\<close>

theorem finalizers_run_once:
  assumes "gc_ok g n S K cs" and "client_ok env g rs" and "cell_total (last cs) < 2 ^ 31" and "next_ok env g" and "logging env note"
    and "dom (hash_map (finalizers (global g))) \<subseteq> nodes (shape_of g n S cs)"
    and "GC_collect_once env g = ret g'"
  defines "h \<equiv> shape_of g n S cs" and "R \<equiv> root_ranges env rs g" and "ps \<equiv> live_pairs (finalizers (global g))"
  shows "\<exists>M. reachable h R \<subseteq> M \<and> M \<subseteq> possibly_reachable h R \<and>
    distinct (map fst ps) \<and> map_of ps = hash_map (finalizers (global g)) \<and>
    gc.more g' = fold (\<lambda>(x, f). note f (x + sizeof_Object)) (filter (\<lambda>(x, f). x \<notin> M) ps) (gc.more g) \<and>
    hash_map (finalizers (global g')) = hash_map (finalizers (global g)) |` M"
proof -
  have hash: "hash_wf (finalizers (global g))" using assms(2) by (simp add: client_ok_def)
  from collect_once_spec [OF assms(1,2) logging_polite [OF assms(5)] assms(3,4), folded h_def R_def] assms(7)
  obtain M n' S' cs' where r: "collect_result g g' h R M n' S' cs'" "finalized_once env g g' h M" by auto
  then obtain g1 where g1: "finalized env (g\<lparr>is_collecting := True\<rparr>) g1 h M" "gc.more g' = gc.more g1"
    "finalizers (global g') = finalizers (global g1)" by (auto simp: finalized_once_def)
  have dom: "dom (hash_map (finalizers (global (g\<lparr>is_collecting := True\<rparr>)))) \<subseteq> nodes h" using assms(6) by (simp add: h_def)
  from finalized_calls [OF g1(1) assms(5) _ dom] hash
  have "gc.more g1 = note_all note (unmarked_pairs M ps) (gc.more g)"
    "hash_map (finalizers (global g1)) = hash_map (finalizers (global g)) |` M" by (simp_all add: ps_def)
  moreover have "distinct (map fst ps)" "map_of ps = hash_map (finalizers (global g))"
    using live_pairs_map [OF hash] by (simp_all add: ps_def)
  ultimately show ?thesis
    using r(1) g1(2,3) unfolding collect_result_def note_all_def unmarked_pairs_def by auto
qed

theorem finalizers_run_once_witness:
  "\<exists>g0 g1 g2 g a. logging_init = ret g0 \<and> GC_malloc logging_program g0 20000 = ret (g1, a + 32) \<and>
     GC_register_finalizer g1 (a + 32) 7 = ret g2 \<and> GC_collect_once logging_program g2 = ret g \<and>
     gc.more g = gc.more g2 @ [(7, a + 32)] \<and> hash_map (finalizers (global g)) = Map.empty"
proof -
  obtain g0 g1 g2 a cs where o: "logging_init = ret g0" "GC_malloc logging_program g0 20000 = ret (g1, a + 32)"
    "GC_register_finalizer g1 (a + 32) 7 = ret g2" "gc_ok g2 128 {} {} cs" "client_ok logging_program g2 []"
    "cell_total (last cs) < 2 ^ 31" "next_ok logging_program g2" "hash_map (finalizers (global g2)) = [a + 16 \<mapsto> 7]"
    "a + 16 \<in> nodes (shape_of g2 128 {} cs)" "root_ranges logging_program [] g2 = {(4096, 4096)}" "items (local_allocators g2) = [64]"
    by (rule logging_object)
  let ?h = "shape_of g2 128 {} cs"
  have R: "possibly_reachable ?h (root_ranges logging_program [] g2) = {}" unfolding o(10) by (rule no_roots)
  have "blocks_without ?h {} = 128" by (simp add: blocks_without_def block_objects_def shape_blocks_def blocks_from_def)
  with collect_once_spec [OF o(4,5) logging_polite [OF logging_program_logs] o(6,7), unfolded R] o(11)
  obtain g where g: "GC_collect_once logging_program g2 = ret g" by auto
  let ?ps = "live_pairs (finalizers (global g2))"
  from finalizers_run_once [OF o(4-7) logging_program_logs _ g, unfolded R] o(8,9)
  have r: "distinct (map fst ?ps)" "map_of ?ps = [a + 16 \<mapsto> 7]"
    "gc.more g = fold (\<lambda>(x, f) l. l @ [(f, x + 16)]) ?ps (gc.more g2)" "hash_map (finalizers (global g)) = Map.empty"
    by (auto simp: restrict_map_def)
  have "(x, y) \<in> set ?ps \<longleftrightarrow> x = a + 16 \<and> y = 7" for x y
    using map_of_eq_Some_iff [OF r(1), of x y] r(2) by (auto split: if_splits)
  then have one: "set ?ps = {(a + 16, 7)}" by auto
  moreover have "distinct ?ps" using r(1) by (simp add: distinct_map)
  ultimately have "length ?ps = 1" using distinct_card [of ?ps] by simp
  with one have "?ps = [(a + 16, 7)]" by (auto simp: length_Suc_conv)
  then show ?thesis using o(1-3) g r(3,4) by auto
qed

end
