(* ===== verification/Store.thy ===== *)
theory Store
  imports Finalizing
begin

text \<open>
  The library as its program sees it: a store that maps the pointers \<open>GC_malloc\<close> returned to the bytes of their objects. The
  theory gives the steps of the library as a transition relation labelled with events, the steps of the abstract store with the
  same labels, and proves that every run of the library is a run of the store.
\<close>

section \<open>The abstract store\<close>

type_synonym store = "addr \<Rightarrow> 8 word list option"

text \<open>
  \<open>Malloc sz at p\<close> returned \<open>p\<close>; \<open>Write p i v\<close> sets byte \<open>i\<close> of the object \<open>p\<close>; \<open>Poke a v\<close> sets a byte outside the two spaces (a
  stack, a data section); \<open>Realloc q sz p\<close> made \<open>q\<close> the object \<open>p\<close>; \<open>Register p f\<close> registered a finalizer; \<open>Collect X\<close> ran when the
  pointers \<open>X\<close> could be reached.
\<close>

datatype event =
    Malloc nat nat addr
  | Write addr nat "8 word"
  | Poke addr "8 word"
  | Free addr
  | Realloc addr nat addr
  | Register addr addr
  | AddRoots addr addr
  | OnCollect addr
  | Collect "addr set"
  | Join addr
  | Leave addr
  | Switch addr

definition separate :: "store \<Rightarrow> addr \<Rightarrow> nat \<Rightarrow> bool" where
  "separate A p k \<longleftrightarrow> (\<forall>q bs. A q = Some bs \<longrightarrow> p + k + 16 \<le> q \<or> q + length bs + 16 \<le> p)"

inductive store_step :: "event \<Rightarrow> store \<Rightarrow> store \<Rightarrow> bool" where
  malloc: "sz \<le> length bs \<Longrightarrow> 8 dvd p \<Longrightarrow> separate A p (length bs) \<Longrightarrow> store_step (Malloc sz at p) A (A(p \<mapsto> bs))"
| store_byte: "A p = Some bs \<Longrightarrow> i < length bs \<Longrightarrow> store_step (Write p i v) A (A(p \<mapsto> bs[i := v]))"
| poke: "store_step (Poke a v) A A"
| free: "A p = Some bs \<Longrightarrow> store_step (Free p) A (A(p := None))"
| realloc_null: "store_step (Malloc sz 0 p) A A' \<Longrightarrow> store_step (Realloc 0 sz p) A A'"
| realloc_zero: "store_step (Free q) A A' \<Longrightarrow> store_step (Realloc q 0 0) A A'"
| realloc_same: "A q = Some bs \<Longrightarrow> 0 < sz \<Longrightarrow> sz \<le> length bs \<Longrightarrow> store_step (Realloc q sz q) A A"
| realloc_move: "A q = Some bs \<Longrightarrow> length bs < sz \<Longrightarrow> sz \<le> length (bs @ new) \<Longrightarrow> 8 dvd p \<Longrightarrow> separate A p (length (bs @ new)) \<Longrightarrow>
    store_step (Realloc q sz p) A (A(q := None, p \<mapsto> bs @ new))"
| register: "p \<in> dom A \<Longrightarrow> store_step (Register p f) A A"
| add_roots: "store_step (AddRoots a b) A A"
| on_collect: "store_step (OnCollect f) A A"
| collect: "store_step (Collect X) A (A |` X)"
| join: "store_step (Join a) A A"
| leave: "store_step (Leave a) A A"
| switch: "store_step (Switch a) A A"

text \<open>What a program may do: write inside its objects; free, reallocate and register finalizers for objects it has.\<close>

fun permitted :: "store \<Rightarrow> event \<Rightarrow> bool" where
  "permitted A (Write p i v) \<longleftrightarrow> (\<exists>bs. A p = Some bs \<and> i < length bs)"
| "permitted A (Free p) \<longleftrightarrow> p \<in> dom A"
| "permitted A (Realloc q sz p) \<longleftrightarrow> q = 0 \<or> q \<in> dom A"
| "permitted A (Register p f) \<longleftrightarrow> p \<in> dom A"
| "permitted A _ \<longleftrightarrow> True"

inductive store_run :: "event list \<Rightarrow> store \<Rightarrow> bool" where
  start: "store_run [] Map.empty"
| step: "store_run es A \<Longrightarrow> store_step e A A' \<Longrightarrow> store_run (es @ [e]) A'"

definition obedient :: "event list \<Rightarrow> bool" where
  "obedient es \<longleftrightarrow> (\<forall>es1 e es2 A. es = es1 @ e # es2 \<longrightarrow> store_run es1 A \<longrightarrow> permitted A e)"

lemma obedientD: "obedient (es @ [e]) \<Longrightarrow> obedient es" "obedient (es @ [e]) \<Longrightarrow> store_run es A \<Longrightarrow> permitted A e"
proof -
  assume ob: "obedient (es @ [e])"
  show "obedient es"
    unfolding obedient_def
  proof (intro allI impI)
    fix es1 e' es2 A assume "es = es1 @ e' # es2" "store_run es1 A"
    then have "es @ [e] = es1 @ e' # (es2 @ [e])" by simp
    with ob \<open>store_run es1 A\<close> show "permitted A e'" unfolding obedient_def by blast
  qed
  show "store_run es A \<Longrightarrow> permitted A e" using ob unfolding obedient_def by blast
qed

section \<open>The steps of the library\<close>

definition in_spaces :: "GlobalAllocator \<Rightarrow> addr \<Rightarrow> bool" where
  "in_spaces G a \<longleftrightarrow> small_heap_start G \<le> a \<and> a < small_heap_start G + memory_limit G \<or>
     large_heap_start G \<le> a \<and> a < large_heap_start G + memory_limit G"

text \<open>The table of finalizers has less than \<open>2 ^ 58\<close> slots, so that it can still double.\<close>

definition room :: "'a gc_scheme \<Rightarrow> bool" where
  "room g \<longleftrightarrow> mask (finalizers (global g)) < 2 ^ 58"

text \<open>
  The calls of the interface, and the program's own writes. An allocation or a new thread comes when no collection is due; a
  finalizer is registered for an object that has none; a collection needs what \<open>collect_once_restores\<close> needs.
\<close>

inductive lib_step :: "'a program \<Rightarrow> event \<Rightarrow> 'a gc_scheme \<Rightarrow> 'a gc_scheme \<Rightarrow> bool" for env where
  malloc: "quiet g \<Longrightarrow> current g \<in> set (items (local_allocators g)) \<Longrightarrow> sz < 2 ^ 59 \<Longrightarrow> at < 256 \<Longrightarrow>
    GC_malloc_with_atomic env g sz at = ret (g', p) \<Longrightarrow> lib_step env (Malloc sz at p) g g'"
| store_byte: "lib_step env (Write p i v) g (g\<lparr>heap := (heap g)(p + i := v)\<rparr>)"
| poke: "\<not> in_spaces (global g) a \<Longrightarrow> lib_step env (Poke a v) g (g\<lparr>heap := (heap g)(a := v)\<rparr>)"
| free: "GC_free env g p = ret g' \<Longrightarrow> lib_step env (Free p) g g'"
| realloc: "quiet g \<Longrightarrow> current g \<in> set (items (local_allocators g)) \<Longrightarrow> sz < 2 ^ 59 \<Longrightarrow> room g \<Longrightarrow>
    GC_realloc env g q sz = ret (g', p) \<Longrightarrow> lib_step env (Realloc q sz p) g g'"
| register: "hash_map (finalizers (global g)) (p - sizeof_Object) = None \<Longrightarrow> room g \<Longrightarrow> GC_register_finalizer g p f = ret g' \<Longrightarrow>
    lib_step env (Register p f) g g'"
| add_roots: "GC_add_roots g a b = ret g' \<Longrightarrow> lib_step env (AddRoots a b) g g'"
| on_collect: "lib_step env (OnCollect f) g (GC_register_collect_callback g f)"
| collect: "shape_wf (shape_of g n S cs) \<Longrightarrow> client_ok env g rs \<Longrightarrow> cell_total (last cs) < 2 ^ 31 \<Longrightarrow> next_ok env g \<Longrightarrow>
    X = (\<lambda>x. x + 16) ` reachable (shape_of g n S cs) (root_ranges env rs g) \<Longrightarrow>
    GC_collect_once env g = ret g' \<Longrightarrow> lib_step env (Collect X) g g'"
| join: "quiet g \<Longrightarrow> a \<noteq> 0 \<Longrightarrow> a \<notin> set (items (local_allocators g)) \<Longrightarrow> la_next (locals g a) = 0 \<Longrightarrow>
    ary_capacity (local_allocators g) < 2 ^ 59 \<Longrightarrow> GC_init_thread env junk a g = ret g' \<Longrightarrow> lib_step env (Join a) g g'"
| leave: "lib_step env (Leave a) g (GC_deinit_thread past a g)"
| switch: "a \<in> set (items (local_allocators g)) \<Longrightarrow> lib_step env (Switch a) g (g\<lparr>current := a\<rparr>)"

inductive lib_run :: "'a program \<Rightarrow> 'a gc_scheme \<Rightarrow> event list \<Rightarrow> 'a gc_scheme \<Rightarrow> bool" for env g0 where
  start: "lib_run env g0 [] g0"
| step: "lib_run env g0 es g \<Longrightarrow> lib_step env e g g' \<Longrightarrow> lib_run env g0 (es @ [e]) g'"

inductive_cases lib_stepE: "lib_step env e g g'"
inductive_simps store_step_simps: "store_step (Malloc sz at p) A A'" "store_step (Write p i v) A A'" "store_step (Poke a v) A A'"
  "store_step (Free p) A A'" "store_step (Realloc q sz p) A A'" "store_step (Register p f) A A'" "store_step (AddRoots a b) A A'"
  "store_step (OnCollect f) A A'" "store_step (Collect X) A A'" "store_step (Join a) A A'" "store_step (Leave a) A A'" "store_step (Switch a) A A'"

section \<open>The relation\<close>

definition contents :: "mem \<Rightarrow> addr \<Rightarrow> nat \<Rightarrow> 8 word list" where
  "contents m p k = map m [p..<p + k]"

lemma contents_cong: "same_bytes m m' p (p + k) \<Longrightarrow> contents m' p k = contents m p k"
  by (auto simp: contents_def same_bytes_def)

lemma length_contents [simp]: "length (contents m p k) = k"
  by (simp add: contents_def)

lemma contents_update: "i < k \<Longrightarrow> contents (m(p + i := v)) p k = (contents m p k)[i := v]"
  by (rule nth_equalityI) (auto simp: contents_def nth_list_update)

text \<open>The object \<open>x\<close> is one the library protects: a small one that matters, or an allocated chunk.\<close>

definition protected :: "'a gc_scheme \<Rightarrow> nat \<Rightarrow> addr set \<Rightarrow> addr set \<Rightarrow> cell list \<Rightarrow> addr \<Rightarrow> bool" where
  "protected g n S K cs x \<longleftrightarrow> x \<in> K \<and> solid (heap g) S x \<or>
     x \<in> large_nodes (shape_of g n S cs) \<and> 16 < Object_size (heap g) x"

definition stored :: "'a gc_scheme \<Rightarrow> nat \<Rightarrow> addr set \<Rightarrow> addr set \<Rightarrow> cell list \<Rightarrow> store \<Rightarrow> bool" where
  "stored g n S K cs A \<longleftrightarrow> (\<forall>p bs. A p = Some bs \<longrightarrow> (\<exists>x. p = x + 16 \<and> protected g n S K cs x \<and>
     Object_size (heap g) x = 16 + length bs \<and> contents (heap g) p (length bs) = bs))"

definition healthy :: "'a gc_scheme \<Rightarrow> bool" where
  "healthy g \<longleftrightarrow> hash_wf (finalizers (global g)) \<and> stack_wf (roots g) \<and> \<not> is_collecting g"

text \<open>Finalizers are registered for objects only.\<close>

definition registered :: "'a gc_scheme \<Rightarrow> nat \<Rightarrow> addr set \<Rightarrow> cell list \<Rightarrow> bool" where
  "registered g n S cs \<longleftrightarrow> dom (hash_map (finalizers (global g))) \<subseteq> S \<union> large_nodes (shape_of g n S cs)"

definition represents :: "'a gc_scheme \<Rightarrow> store \<Rightarrow> bool" where
  "represents g A \<longleftrightarrow> healthy g \<and> (\<exists>n S K cs. gc_ok g n S K cs \<and> stored g n S K cs A \<and> registered g n S cs)"

lemma registered_keeps:
  assumes "registered g n S cs" and "dom (hash_map (finalizers (global g'))) \<subseteq> dom (hash_map (finalizers (global g)))"
    and "S \<subseteq> S'" and "large_nodes (shape_of g n S cs) \<subseteq> large_nodes (shape_of g' n' S' cs')"
  shows "registered g' n' S' cs'"
  using assms unfolding registered_def by blast

lemma storedE:
  assumes "stored g n S K cs A" and "A p = Some bs"
  obtains x where "p = x + 16" "protected g n S K cs x" "Object_size (heap g) x = 16 + length bs" "contents (heap g) p (length bs) = bs"
  using assms unfolding stored_def by blast

text \<open>An object that stays protected and keeps its size and payload goes on to be stored.\<close>

lemma stored_keeps:
  assumes st: "stored g n S K cs A"
    and keep: "\<And>x. protected g n S K cs x \<Longrightarrow> x + 16 \<in> dom A' \<Longrightarrow> protected g' n' S' K' cs' x \<and>
      Object_size (heap g') x = Object_size (heap g) x \<and> same_bytes (heap g) (heap g') (x + 16) (x + Object_size (heap g) x)"
    and sub: "\<And>p bs. A' p = Some bs \<Longrightarrow> A p = Some bs"
  shows "stored g' n' S' K' cs' A'"
  unfolding stored_def
proof (intro allI impI)
  fix p bs assume p: "A' p = Some bs"
  from storedE [OF st sub [OF p]] obtain x where x: "p = x + 16" "protected g n S K cs x" "Object_size (heap g) x = 16 + length bs"
    "contents (heap g) p (length bs) = bs" .
  have "x + 16 \<in> dom A'" using p x(1) by auto
  from keep [OF x(2) this] x show "\<exists>x. p = x + 16 \<and> protected g' n' S' K' cs' x \<and> Object_size (heap g') x = 16 + length bs \<and>
      contents (heap g') p (length bs) = bs"
    using contents_cong [of "heap g" "heap g'" p "length bs"] by (auto simp: ac_simps)
qed

lemma stored_insert:
  assumes "stored g n S K cs A" and "protected g n S K cs x" and "Object_size (heap g) x = 16 + k"
  shows "stored g n S K cs (A(x + 16 \<mapsto> contents (heap g) (x + 16) k))"
  using assms by (auto simp: stored_def)

section \<open>Protected objects\<close>

lemma gc_ok_heap: "gc_ok g n S K cs \<Longrightarrow> heap_ok g (items (local_allocators g)) n S K cs"
  by (simp add: gc_ok_def)

lemma protected_small:
  assumes "gc_ok g n S K cs" and "x \<in> K"
  shows "x \<in> S" "8 dvd x" "16 \<le> Object_size (heap g) x" "small_heap_start (global g) \<le> x"
    "x + Object_size (heap g) x \<le> small_heap_stop (global g)"
proof -
  note ok = gc_ok_heap [OF assms(1)] and h = heap_okD [OF gc_ok_heap [OF assms(1)]]
  show x: "x \<in> S" using h(6) assms(2) by blast
  have "x \<in> nodes (shape_of g n S cs)" using x nodes_eq [OF heap_ok_shape [OF ok]] by simp
  from extent_dvd_nodes [OF heap_ok_shape [OF ok] this] show "8 dvd x" "16 \<le> Object_size (heap g) x" by simp_all
  from small_region [OF heap_ok_shape [OF ok], of x] x
  show "small_heap_start (global g) \<le> x" "x + Object_size (heap g) x \<le> small_heap_stop (global g)" by simp_all
qed

lemma protected_large:
  assumes "gc_ok g n S K cs" and "x \<in> large_nodes (shape_of g n S cs)"
  shows "8 dvd x" "16 \<le> Object_size (heap g) x" "large_heap_start (global g) + 16 \<le> x"
    "x + Object_size (heap g) x \<le> large_heap_stop (global g)"
proof -
  note wf = heap_ok_shape [OF gc_ok_heap [OF assms(1)]]
  have "x \<in> nodes (shape_of g n S cs)" using assms(2) nodes_eq [OF wf] by simp
  from extent_dvd_nodes [OF wf this] show "8 dvd x" "16 \<le> Object_size (heap g) x" by simp_all
  from large_region [OF wf assms(2)] show "large_heap_start (global g) + 16 \<le> x" "x + Object_size (heap g) x \<le> large_heap_stop (global g)"
    by simp_all
qed

lemma spaces:
  assumes "gc_ok g n S K cs"
  shows "small_heap_stop (global g) \<le> small_heap_start (global g) + memory_limit (global g)"
    "large_heap_stop (global g) \<le> large_heap_start (global g) + memory_limit (global g)"
    "small_heap_stop (global g) = small_heap_start (global g) + n * BLOCK_SIZE"
    "small_heap_start (global g) + memory_limit (global g) \<le> large_heap_start (global g) \<or>
     large_heap_start (global g) + memory_limit (global g) \<le> small_heap_start (global g)"
    "small_heap_start (global g) + memory_limit (global g) < 2 ^ 64" "large_heap_start (global g) + memory_limit (global g) < 2 ^ 64"
  using heap_okD(1,2,7) [OF gc_ok_heap [OF assms]] by (auto simp: space_ok_def large_wf_def spaces_apart_def)

lemma protected_node:
  assumes "gc_ok g n S K cs" and "protected g n S K cs x"
  shows "8 dvd x" "16 \<le> Object_size (heap g) x"
  using assms(2) protected_small [OF assms(1)] protected_large [OF assms(1)] by (auto simp: protected_def)

text \<open>Protected objects do not overlap.\<close>

lemma large_apart:
  assumes ok: "gc_ok g n S K cs" and x: "x \<in> large_nodes (shape_of g n S cs)" and y: "y \<in> chunk_objects (shape_of g n S cs)" and "x \<noteq> y"
  shows "x + Object_size (heap g) x + 16 \<le> y \<or> y + 16 \<le> x"
proof -
  let ?s = "large_heap_start (global g)"
  obtain a c where a: "(a, c) \<in> set (placed ?s cs)" "x = a + 16" using x by (auto simp: large_nodes_def)
  obtain b d where b: "(b, d) \<in> set (placed ?s cs)" "y = b + 16" using y by (auto simp: chunk_objects_def)
  have l: "chunk_list (heap g) (large_chunk_list (global g)) ?s cs"
    using heap_okD(1) [OF gc_ok_heap [OF ok]] by (simp add: large_wf_def)
  have at: "cell_at (heap g) e k" if e: "(e, k) \<in> set (placed ?s cs)" for e k
  proof -
    obtain xs ys where "cs = xs @ k # ys" "e = ?s + extent xs" using e unfolding placed_in_split by blast
    then show ?thesis using chunk_list_split(1) [of "heap g" "large_chunk_list (global g)" ?s xs k ys] l by simp
  qed
  have "Object_size (heap g) x = cell_size c" using at [OF a(1)] a(2) by (simp add: cell_at_def Chunk_osize_def)
  moreover have "16 \<le> cell_size d" using at [OF b(1)] by (simp add: cell_at_def)
  ultimately show ?thesis using placed_disjoint [OF a(1) b(1)] assms(4) a(2) b(2) by (auto simp: cell_total_def)
qed

lemma protected_apart:
  assumes ok: "gc_ok g n S K cs" and x: "protected g n S K cs x" and y: "protected g n S K cs y" and ne: "x \<noteq> y"
  shows "x + Object_size (heap g) x \<le> y \<or> y + Object_size (heap g) y \<le> x"
proof -
  note sp = spaces [OF ok]
  have both: "x + Object_size (heap g) x \<le> y \<or> y + Object_size (heap g) y \<le> x"
    if s: "x \<in> K" "solid (heap g) S x" "y \<in> K" "solid (heap g) S y"
  proof -
    have "y \<in> S - {x}" "x \<in> S - {y}" using ne protected_small(1) [OF ok s(1)] protected_small(1) [OF ok s(3)] by auto
    then have "y + 16 \<le> x \<or> x + Object_size (heap g) x \<le> y" "x + 16 \<le> y \<or> y + Object_size (heap g) y \<le> x"
      using s(2,4) unfolding solid_def clear_of_def by blast+
    then show ?thesis by auto
  qed
  have mixed: "u + Object_size (heap g) u \<le> v \<or> v + Object_size (heap g) v \<le> u" if "u \<in> K" "v \<in> large_nodes (shape_of g n S cs)" for u v
    using protected_small(4,5) [OF ok that(1)] protected_large(3,4) [OF ok that(2)] sp by auto
  have larges: "x + Object_size (heap g) x \<le> y \<or> y + Object_size (heap g) y \<le> x"
    if l: "x \<in> large_nodes (shape_of g n S cs)" "y \<in> large_nodes (shape_of g n S cs)"
    using large_apart [OF ok l(1) _ ne] large_apart [OF ok l(2) _ ne [symmetric]] l large_nodes_chunks protected_large(2) [OF ok l(1)]
      protected_large(2) [OF ok l(2)] by fastforce
  show ?thesis using x y both larges mixed [of x y] mixed [of y x] unfolding protected_def by blast
qed

lemma stored_separate:
  assumes ok: "gc_ok g n S K cs" and st: "stored g n S K cs A" and x: "protected g n S K cs x" and k: "Object_size (heap g) x = 16 + k"
    and new: "x + 16 \<notin> dom A"
  shows "separate A (x + 16) k"
  unfolding separate_def
proof (intro allI impI)
  fix q bs assume q: "A q = Some bs"
  from storedE [OF st q] obtain y where y: "q = y + 16" "protected g n S K cs y" "Object_size (heap g) y = 16 + length bs" .
  have "x \<noteq> y" using new q y(1) by auto
  from protected_apart [OF ok x y(2) this] show "x + 16 + k + 16 \<le> q \<or> q + length bs + 16 \<le> x + 16" using y k by auto
qed

section \<open>Writing\<close>

lemma stored_write:
  assumes ok: "gc_ok g n S K cs" and st: "stored g n S K cs A" and p: "A p = Some bs" "i < length bs"
    and g': "g' = g\<lparr>heap := (heap g)(p + i := v)\<rparr>"
  shows "gc_ok g' n S K cs \<and> stored g' n S K cs (A(p \<mapsto> bs[i := v]))"
proof -
  note sp = spaces [OF ok] and hok = gc_ok_heap [OF ok]
  from storedE [OF st p(1)] obtain x where x: "p = x + 16" "protected g n S K cs x" "Object_size (heap g) x = 16 + length bs"
    "contents (heap g) p (length bs) = bs" .
  have pay: "in_payload (heap g) x (p + i)" using x p(2) by (simp add: in_payload_def)
  have small: "payload_writes (heap g) (heap g') S K (small_heap_start (global g)) (small_heap_start (global g) + n * BLOCK_SIZE)"
  proof (cases "x \<in> K \<and> solid (heap g) S x")
    case True
    then show ?thesis using pay by (auto simp: payload_writes_def g')
  next
    case False
    then have "x \<in> large_nodes (shape_of g n S cs)" using x(2) by (auto simp: protected_def)
    from protected_large(3,4) [OF ok this] show ?thesis
      using sp pay by (intro same_bytes_payload_writes) (auto simp: same_bytes_def g' in_payload_def)
  qed
  have large: "large_writes (heap g) (heap g') (shape_of g n S cs)"
  proof (cases "x \<in> large_nodes (shape_of g n S cs)")
    case True
    then show ?thesis using pay by (auto simp: large_writes_def g')
  next
    case False
    then have "x \<in> K" using x(2) by (auto simp: protected_def)
    from protected_small(4,5) [OF ok this] show ?thesis using sp pay by (auto simp: large_writes_def g' in_payload_def)
  qed
  have "gc_ok g' n S K cs"
    using heap_ok_payload_writes [OF hok small large] ok by (simp add: gc_ok_def g')
  have size: "Object_size (heap g') y = Object_size (heap g) y" and other: "y \<noteq> x \<Longrightarrow> same_bytes (heap g) (heap g') (y + 16) (y + Object_size (heap g) y)"
    if y: "protected g n S K cs y" for y
  proof -
    have ap: "y + Object_size (heap g) y \<le> p + i \<or> p + i < y" if "y \<noteq> x"
      using protected_apart [OF ok x(2) y] that pay by (auto simp: in_payload_def)
    then show "y \<noteq> x \<Longrightarrow> same_bytes (heap g) (heap g') (y + 16) (y + Object_size (heap g) y)" by (auto simp: same_bytes_def g')
    show "Object_size (heap g') y = Object_size (heap g) y"
      unfolding Object_size_def
    proof (rule load_cong)
      fix a assume "y \<le> a" "a < y + 8"
      then have "a \<noteq> p + i" using ap protected_node(2) [OF ok y] x(1) by (cases "y = x") auto
      then show "heap g' a = heap g a" by (simp add: g')
    qed
  qed
  have prot: "protected g' n S K cs y" if "protected g n S K cs y" for y
    using that size [OF that] by (simp add: protected_def solid_def large_nodes_def g')
  have "stored g' n S K cs (A(p := None))"
    by (rule stored_keeps [OF st]) (use prot size other x(1) in \<open>auto split: if_splits\<close>)
  moreover have "contents (heap g') p (length bs) = bs[i := v]"
    using contents_update [OF p(2), of "heap g" p v] x(4) by (simp add: g')
  then have "(A(p := None))(x + 16 \<mapsto> contents (heap g') (x + 16) (length bs)) = A(p \<mapsto> bs[i := v])" using x(1) by simp
  ultimately have "stored g' n S K cs (A(p \<mapsto> bs[i := v]))"
    using stored_insert [of g' n S K cs "A(p := None)" x "length bs"] prot [OF x(2)] size [OF x(2)] x(3) by simp
  with \<open>gc_ok g' n S K cs\<close> show ?thesis by blast
qed

section \<open>The steps simulate\<close>

text \<open>What no step changes: the depth of the lock, where the two spaces are, and the limit.\<close>

definition framed :: "'a gc_scheme \<Rightarrow> 'a gc_scheme \<Rightarrow> bool" where
  "framed g g' \<longleftrightarrow> lock_depth g' = lock_depth g \<and> same_regions (global g) (global g')"

lemma framed_refl [simp]: "framed g g"
  by (simp add: framed_def same_regions_def)

lemma framed_trans: "framed g g1 \<Longrightarrow> framed g1 g2 \<Longrightarrow> framed g g2"
  by (simp add: framed_def same_regions_def)

lemma framed_same: "lock_depth g' = lock_depth g \<Longrightarrow> global g' = global g \<Longrightarrow> framed g g'"
  by (simp add: framed_def same_regions_def)

definition simulates :: "event \<Rightarrow> store \<Rightarrow> 'a gc_scheme \<Rightarrow> 'a gc_scheme \<Rightarrow> bool" where
  "simulates e A g g' \<longleftrightarrow> framed g g' \<and> (\<exists>A'. store_step e A A' \<and> represents g' A')"

lemma representsE:
  assumes "represents g A"
  obtains n S K cs where "gc_ok g n S K cs" "stored g n S K cs A" "healthy g" "registered g n S cs"
  using assms unfolding represents_def by blast

lemma simulatesI: "store_step e A A' \<Longrightarrow> gc_ok g' n S K cs \<Longrightarrow> stored g' n S K cs A' \<Longrightarrow> healthy g' \<Longrightarrow>
    registered g' n S cs \<Longrightarrow> framed g g' \<Longrightarrow> simulates e A g g'"
  unfolding simulates_def represents_def by blast

lemma simulate_write:
  assumes r: "represents g A" and p: "A p = Some bs" "i < length bs"
  shows "simulates (Write p i v) A g (g\<lparr>heap := (heap g)(p + i := v)\<rparr>)"
proof -
  obtain n S K cs where g: "gc_ok g n S K cs" "stored g n S K cs A" "healthy g" "registered g n S cs" using representsE [OF r] .
  have "registered (g\<lparr>heap := (heap g)(p + i := v)\<rparr>) n S cs" by (rule registered_keeps [OF g(4)]) (simp_all add: large_nodes_def)
  with stored_write [OF g(1,2) p refl] show ?thesis
    using g(3) store_step.store_byte [of A p bs i v, OF p] by (intro simulatesI framed_same) (auto simp: healthy_def)
qed

lemma stored_poke:
  assumes ok: "gc_ok g n S K cs" and st: "stored g n S K cs A" and out: "\<not> in_spaces (global g) a" and g': "g' = g\<lparr>heap := (heap g)(a := v)\<rparr>"
  shows "gc_ok g' n S K cs \<and> stored g' n S K cs A"
proof -
  note sp = spaces [OF ok]
  have h: "heap g' b = heap g b" if "in_spaces (global g) b" for b using that out by (auto simp: g')
  have "same_bytes (heap g) (heap g') (small_heap_start (global g)) (small_heap_start (global g) + n * BLOCK_SIZE)"
    using h sp by (auto simp: same_bytes_def in_spaces_def)
  moreover have "large_writes (heap g) (heap g') (shape_of g n S cs)"
    using h sp by (auto simp: large_writes_def in_spaces_def)
  ultimately have "gc_ok g' n S K cs"
    using heap_ok_payload_writes [OF gc_ok_heap [OF ok] same_bytes_payload_writes, of "heap g'"] ok by (simp add: gc_ok_def g')
  moreover have bytes: "same_bytes (heap g) (heap g') x (x + Object_size (heap g) x)" if "protected g n S K cs x" for x
    using that protected_small(4,5) [OF ok, of x] protected_large(3,4) [OF ok, of x] h sp
    unfolding protected_def same_bytes_def in_spaces_def by fastforce
  moreover have "stored g' n S K cs A"
  proof (rule stored_keeps [OF st])
    fix x assume x: "protected g n S K cs x"
    have "Object_size (heap g') x = Object_size (heap g) x"
      using load_same_bytes [OF bytes [OF x], of x 8] protected_node(2) [OF ok x] by (simp add: Object_size_def)
    then show "protected g' n S K cs x \<and> Object_size (heap g') x = Object_size (heap g) x \<and>
        same_bytes (heap g) (heap g') (x + 16) (x + Object_size (heap g) x)"
      using x bytes [OF x] by (auto simp: protected_def solid_def large_nodes_def g' intro: same_bytes_sub)
  qed
  ultimately show ?thesis by blast
qed

lemma simulate_poke:
  assumes r: "represents g A" and a: "\<not> in_spaces (global g) a"
  shows "simulates (Poke a v) A g (g\<lparr>heap := (heap g)(a := v)\<rparr>)"
proof -
  obtain n S K cs where g: "gc_ok g n S K cs" "stored g n S K cs A" "healthy g" "registered g n S cs" using representsE [OF r] .
  have "registered (g\<lparr>heap := (heap g)(a := v)\<rparr>) n S cs" by (rule registered_keeps [OF g(4)]) (simp_all add: large_nodes_def)
  with stored_poke [OF g(1,2) a refl] show ?thesis
    using g(3) store_step.poke by (intro simulatesI framed_same) (auto simp: healthy_def)
qed

text \<open>What is stored stays stored when the bytes of the objects that matter and those of the large object space stay.\<close>

lemma stored_new_state:
  assumes ok: "gc_ok g n S K cs" and st: "stored g n S K cs A"
    and S': "S' \<subseteq> insert c S" "K \<subseteq> K'" and c: "c \<in> S' \<Longrightarrow> c \<notin> S \<Longrightarrow> \<forall>x \<in> K. x + Object_size (heap g) x \<le> c \<or> c + 16 \<le> x"
    and small: "kept K (heap g) (heap g')"
    and large: "large_nodes (shape_of g n S cs) \<subseteq> large_nodes (shape_of g' n' S' cs')"
      "\<And>x. x \<in> large_nodes (shape_of g n S cs) \<Longrightarrow> same_bytes (heap g) (heap g') x (x + Object_size (heap g) x)"
  shows "stored g' n' S' K' cs' A"
proof (rule stored_keeps [OF st])
  fix x assume x: "protected g n S K cs x"
  have bytes: "same_bytes (heap g) (heap g') x (x + Object_size (heap g) x)"
    using x small large(2) unfolding protected_def kept_def by blast
  have size: "Object_size (heap g') x = Object_size (heap g) x"
    using load_same_bytes [OF bytes, of x 8] protected_node(2) [OF ok x] by (simp add: Object_size_def)
  have "protected g' n' S' K' cs' x"
  proof (cases "x \<in> K \<and> solid (heap g) S x")
    case True
    have "clear_of (S' - {x}) x (Object_size (heap g) x)"
      unfolding clear_of_def
    proof
      fix y assume y: "y \<in> S' - {x}"
      show "y + 16 \<le> x \<or> x + Object_size (heap g) x \<le> y"
      proof (cases "y \<in> S")
        case True
        then show ?thesis using y \<open>x \<in> K \<and> solid (heap g) S x\<close> by (auto simp: solid_def clear_of_def)
      next
        case False
        then have "y = c" using y S'(1) by auto
        then show ?thesis using c False y True by auto
      qed
    qed
    then show ?thesis using True S'(2) size by (auto simp: protected_def solid_def)
  next
    case False
    then show ?thesis using x large(1) size by (auto simp: protected_def)
  qed
  then show "protected g' n' S' K' cs' x \<and> Object_size (heap g') x = Object_size (heap g) x \<and>
      same_bytes (heap g) (heap g') (x + 16) (x + Object_size (heap g) x)"
    using size bytes by (auto intro: same_bytes_sub)
qed

lemma stable_healthy: "stable g g' \<Longrightarrow> healthy g \<Longrightarrow> healthy g'" for g g' :: "'a gc_scheme"
  using more_cheap [of g' g] by (auto simp: healthy_def stable_def same_large_def)

lemma stable_framed: "stable g g' \<Longrightarrow> framed g g'" for g g' :: "'a gc_scheme"
  by (simp add: framed_def same_regions_def stable_def same_large_def)

lemma simulate_malloc_small:
  assumes r: "represents g A" and q: "quiet g" "current g \<in> set (items (local_allocators g))" and sz: "sz \<le> 8176" and at: "at < 256"
    and ret: "GC_malloc_with_atomic env g sz at = ret (g', p)"
  shows "simulates (Malloc sz at p) A g g'"
proof -
  obtain n S K cs where g: "gc_ok g n S K cs" "stored g n S K cs A" "healthy g" "registered g n S cs" using representsE [OF r] .
  from malloc_small_spec [OF g(1) q sz at, of env] ret obtain c n' where c: "p = c + 16" "c \<notin> S" "clear_of S c (rounded sz)"
    "gc_ok g' n' (insert c S) (insert c K) cs" "fresh_object g g' c (rounded sz) at K" by auto
  note f = c(5) [unfolded fresh_object_def] and rd = rounded_bounds [OF sz]
  have f1: "Object_size (heap g') c = rounded sz" "stable g g'"
    "same_bytes (heap g) (heap g') (large_heap_start (global g)) (large_heap_stop (global g))" using f by blast+
  have "kept K (heap g) (heap g')" using f by (auto simp: kept_def same_bytes_def)
  have far: "x + Object_size (heap g) x \<le> c \<or> c + rounded sz \<le> x" if x: "x \<in> K" for x
  proof (rule ccontr)
    assume n: "\<not> ?thesis"
    have "\<forall>a. x \<le> a \<longrightarrow> a < x + Object_size (heap g) x \<longrightarrow> \<not> (c \<le> a \<and> a < c + rounded sz)" using f x by blast
    moreover have "x \<le> max x c" "c \<le> max x c" by simp_all
    ultimately have "\<not> (max x c < x + Object_size (heap g) x \<and> max x c < c + rounded sz)" by blast
    moreover have "16 \<le> Object_size (heap g) x" by (rule protected_small(3) [OF g(1) x])
    ultimately show False using rd(1) n by linarith
  qed
  have "large_heap_start (global g') = large_heap_start (global g)" using f1(2) by (simp add: stable_def same_large_def)
  then have ln: "large_nodes (shape_of g' n' (insert c S) cs) = large_nodes (shape_of g n S cs)" by (simp add: large_nodes_def)
  have st: "stored g' n' (insert c S) (insert c K) cs A"
  proof (rule stored_new_state [OF g(1,2) _ _ _ \<open>kept K (heap g) (heap g')\<close>])
    show "\<forall>x \<in> K. x + Object_size (heap g) x \<le> c \<or> c + 16 \<le> x" using far rd(1) by fastforce
    show "same_bytes (heap g) (heap g') x (x + Object_size (heap g) x)" if "x \<in> large_nodes (shape_of g n S cs)" for x
      by (rule same_bytes_sub [OF f1(3)]) (use protected_large(3,4) [OF g(1) that] in auto)
  qed (use ln in auto)
  let ?k = "rounded sz - 16"
  have prot: "protected g' n' (insert c S) (insert c K) cs c"
    using c(3) by (auto simp: protected_def solid_def f1(1) clear_of_def)
  have size: "Object_size (heap g') c = 16 + ?k" using f1(1) rd(1) by simp
  have new: "c + 16 \<notin> dom A"
  proof
    assume "c + 16 \<in> dom A"
    then obtain bs where "A (c + 16) = Some bs" by auto
    from storedE [OF g(2) this] obtain x where x: "c + 16 = x + 16" "protected g n S K cs x" .
    then have "c \<in> large_nodes (shape_of g n S cs)" using protected_small(1) [OF g(1)] c(2) by (auto simp: protected_def)
    then have "large_heap_start (global g) \<le> c \<and> c < large_heap_start (global g) + memory_limit (global g)"
      using protected_large(2-4) [OF g(1)] spaces(2) [OF g(1)] by fastforce
    moreover have "small_heap_start (global g') \<le> c \<and> c < small_heap_start (global g') + memory_limit (global g')"
      using protected_small(3-5) [OF c(4), of c] spaces(1) [OF c(4)] by simp
    moreover have "small_heap_start (global g') = small_heap_start (global g)" "memory_limit (global g') = memory_limit (global g)"
      using f1(2) by (simp_all add: stable_def same_large_def)
    ultimately show False using spaces(4) [OF g(1)] by auto
  qed
  have "store_step (Malloc sz at p) A (A(p \<mapsto> contents (heap g') (c + 16) ?k))"
    using stored_separate [OF c(4) st prot size new] rd(1) protected_node(1) [OF c(4) prot] c(1)
    by (intro store_step.malloc) auto
  moreover have "registered g' n' (insert c S) cs"
    by (rule registered_keeps [OF g(4)]) (use f1(2) ln in \<open>auto simp: stable_def same_large_def\<close>)
  ultimately show ?thesis
    using stored_insert [OF st prot size] unfolding c(1) by (intro simulatesI [OF _ c(4)] stable_healthy [OF f1(2) g(3)] stable_framed [OF f1(2)])
qed

lemma live_chunk_size:
  assumes ok: "gc_ok g n S K cs" and c: "(a, c) \<in> live_chunks (large_heap_start (global g)) cs"
  shows "Object_size (heap g) (a + 16) = cell_size c" "a + 16 \<in> large_nodes (shape_of g n S cs)"
proof -
  have l: "chunk_list (heap g) (large_chunk_list (global g)) (large_heap_start (global g)) cs"
    using heap_okD(1) [OF gc_ok_heap [OF ok]] by (simp add: large_wf_def)
  have "(a, c) \<in> set (placed (large_heap_start (global g)) cs)" using c by (simp add: live_chunks_def)
  then obtain xs ys where "cs = xs @ c # ys" "a = large_heap_start (global g) + extent xs" unfolding placed_in_split by blast
  with chunk_list_split(1) [of "heap g" "large_chunk_list (global g)" "large_heap_start (global g)" xs c ys] l
  show "Object_size (heap g) (a + 16) = cell_size c" by (simp add: cell_at_def Chunk_osize_def)
  show "a + 16 \<in> large_nodes (shape_of g n S cs)" unfolding large_nodes_live using c by (rule rev_image_eqI) simp
qed

lemma large_change_keeps:
  assumes ok: "gc_ok g n S K cs" and ch: "large_change D g cs g' cs'"
  shows "kept K (heap g) (heap g')"
    and "x \<in> large_nodes (shape_of g n S cs) \<Longrightarrow> \<forall>a \<in> D. x \<noteq> a + 16 \<Longrightarrow>
      x \<in> large_nodes (shape_of g' n' S' cs') \<and> same_bytes (heap g) (heap g') x (x + Object_size (heap g) x)"
proof -
  note C = large_changeD [OF ch] and sp = spaces [OF ok]
  show "kept K (heap g) (heap g')"
    unfolding kept_def same_bytes_def
  proof (intro ballI allI impI)
    fix x a assume "x \<in> K" "x \<le> a" "a < x + Object_size (heap g) x"
    with protected_small(4,5) [OF ok \<open>x \<in> K\<close>] sp have "small_heap_start (global g) \<le> a" "a < small_heap_start (global g) + memory_limit (global g)"
      by linarith+
    then show "heap g a = heap g' a" using C(4) [of a] sp by auto
  qed
  assume x: "x \<in> large_nodes (shape_of g n S cs)" "\<forall>a \<in> D. x \<noteq> a + 16"
  then obtain a c where a: "x = a + 16" "(a, c) \<in> live_chunks (large_heap_start (global g)) cs" unfolding large_nodes_live by auto
  have "large_heap_start (global g') = large_heap_start (global g)" using C(2) by (simp add: same_small_def)
  moreover have "a \<notin> D" using x(2) a(1) by blast
  note C(5) [OF a(2) this]
  ultimately show "x \<in> large_nodes (shape_of g' n' S' cs') \<and> same_bytes (heap g) (heap g') x (x + Object_size (heap g) x)"
    using live_chunk_size(1) [OF ok a(2)] a(1) unfolding large_nodes_live
    by (auto simp: cell_total_def ac_simps intro!: rev_image_eqI [of "(a, c)"])
qed

lemma simulate_malloc_large:
  assumes r: "represents g A" and q: "quiet g" and sz: "8176 < sz" "sz < 2 ^ 59" and at: "at < 256"
    and ret: "GC_malloc_with_atomic env g sz at = ret (g', p)"
  shows "simulates (Malloc sz at p) A g g'"
proof -
  obtain n S K cs where g: "gc_ok g n S K cs" "stored g n S K cs A" "healthy g" "registered g n S cs" using representsE [OF r] .
  let ?r = "ROUND_TO_NEXT_MULTIPLE sz WORD_SIZE"
  have rd: "sz \<le> ROUND_TO_NEXT_MULTIPLE sz WORD_SIZE" by (rule ROUND_props(2)) (use sz in simp_all)
  from malloc_large_spec [OF g(1) q sz at, of env] ret obtain cs' a where a: "p = a + 32" "gc_ok g' n S K cs'"
    "large_allocated g cs g' cs' a ?r at" by auto
  have ch: "large_change {} g cs g' cs'" and new: "new_chunk (large_heap_start (global g)) cs cs' a ?r at"
    and same: "finalizers (global g') = finalizers (global g)" "gheap.more g' = gheap.more g" "is_collecting g' = is_collecting g"
    using a(3) by (simp_all add: large_allocated_def)
  note keep = large_change_keeps [OF g(1) ch, simplified]
  have start: "large_heap_start (global g') = large_heap_start (global g)" using large_changeD(2) [OF ch] by (simp add: same_small_def)
  from new obtain c where c: "(a, c) \<in> live_chunks (large_heap_start (global g')) cs'"
    "a \<notin> fst ` live_chunks (large_heap_start (global g)) cs" "?r + 16 \<le> cell_size c"
    unfolding new_chunk_def start by blast
  have "roots g' = roots g" using same(2) by (cases g; cases g') simp
  then have healthy: "healthy g'" using g(3) same by (simp add: healthy_def)
  have st: "stored g' n S K cs' A"
    by (rule stored_new_state [OF g(1,2), where c = 0]) (use keep in auto)
  have size: "Object_size (heap g') (a + 16) = 16 + (cell_size c - 16)" and prot: "protected g' n S K cs' (a + 16)"
    using live_chunk_size [OF a(2) c(1)] c(3) rd sz by (auto simp: protected_def)
  have fresh: "a + 16 + 16 \<notin> dom A"
  proof
    assume "a + 16 + 16 \<in> dom A"
    then obtain bs where "A (a + 16 + 16) = Some bs" by auto
    from storedE [OF g(2) this] obtain x where x: "a + 16 + 16 = x + 16" "protected g n S K cs x" .
    have "a + 16 \<notin> large_nodes (shape_of g n S cs)" using c(2) unfolding large_nodes_live by force
    moreover have "x = a + 16" using x(1) by simp
    ultimately have K: "a + 16 \<in> K" using x(2) by (simp add: protected_def)
    note sm = protected_small(3-5) [OF g(1) K] and lg = protected_large(2-4) [OF a(2) live_chunk_size(2) [OF a(2) c(1)]]
    have "memory_limit (global g') = memory_limit (global g)" using large_changeD(2) [OF ch] by (simp add: same_small_def)
    then show False using sm lg start spaces(1,4) [OF g(1)] spaces(2) [OF a(2)] by auto
  qed
  have "sz \<le> cell_size c - 16" using c(3) rd by simp
  moreover have p: "p = a + 16 + 16" using a(1) by simp
  moreover have "8 dvd a + 16 + 16" using protected_node(1) [OF a(2) prot] by (rule dvd_add) simp
  ultimately have "store_step (Malloc sz at p) A (A(p \<mapsto> contents (heap g') (a + 16 + 16) (cell_size c - 16)))"
    using stored_separate [OF a(2) st prot size fresh] by (simp only: length_contents store_step.malloc)
  moreover have "registered g' n S cs'" by (rule registered_keeps [OF g(4)]) (use same(1) keep in auto)
  moreover have "framed g g'"
    using a(3) large_changeD(2) [OF ch] by (simp add: framed_def same_regions_def large_allocated_def same_small_def)
  ultimately show ?thesis
    using stored_insert [OF st prot size] unfolding p by (intro simulatesI [OF _ a(2) _ healthy])
qed

lemma stored_less: "stored g n S K cs A \<Longrightarrow> (\<And>p bs. A' p = Some bs \<Longrightarrow> A p = Some bs) \<Longrightarrow> stored g n S K cs A'"
  unfolding stored_def by blast

lemma simulate_free:
  assumes r: "represents g A" and pol: "polite env" and p: "p \<in> dom A" and ret: "GC_free env g p = ret g'"
  shows "simulates (Free p) A g g'"
proof -
  obtain n S K cs where g: "gc_ok g n S K cs" "stored g n S K cs A" "healthy g" "registered g n S cs" using representsE [OF r] .
  obtain bs where bs: "A p = Some bs" using p by blast
  from storedE [OF g(2) bs] obtain x where x: "p = x + 16" "protected g n S K cs x" .
  note step = store_step.free [of A p bs, OF bs]
  have less: "stored g n S K cs (A(p := None))" by (rule stored_less [OF g(2)]) (auto split: if_splits)
  show ?thesis
  proof (cases "GlobalAllocator_inLargeHeap (global g) p")
    case False
    then have "g' = g" using ret by (simp add: GC_free_def)
    then show ?thesis using simulatesI [OF step g(1) less g(3,4) framed_refl] by simp
  next
    case True
    have "x \<notin> K"
    proof
      assume K: "x \<in> K"
      have "p \<le> small_heap_stop (global g)" "small_heap_start (global g) < p" using protected_small(3-5) [OF g(1) K] x(1) by simp_all
      moreover have "large_heap_start (global g) \<le> p" "p < large_heap_stop (global g)"
        using True by (simp_all add: GlobalAllocator_inLargeHeap_def)
      moreover have "large_heap_stop (global g) = large_heap_start (global g) + large_heap_size (global g)"
        "small_heap_stop (global g) = small_heap_start (global g) + small_heap_size (global g)"
        "small_heap_size (global g) + large_heap_size (global g) \<le> memory_limit (global g)"
        using heap_okD(1,7) [OF gc_ok_heap [OF g(1)]] by (simp_all add: large_wf_def space_ok_def)
      ultimately show False using spaces(4) [OF g(1)] by linarith
    qed
    then have ln: "x \<in> large_nodes (shape_of g n S cs)" "16 < Object_size (heap g) x" using x(2) by (auto simp: protected_def)
    then obtain a c where a: "x = a + 16" "(a, c) \<in> live_chunks (large_heap_start (global g)) cs" unfolding large_nodes_live by auto
    have "16 < cell_size c" using live_chunk_size(1) [OF g(1) a(2)] ln(2) a(1) by simp
    moreover have "hash_wf (finalizers (global g))" using g(3) by (simp add: healthy_def)
    ultimately obtain cs' where f: "gc_ok g' n S K cs'" "large_change {a} g cs g' cs'" "hash_wf (finalizers (global g'))"
      "control_as g g'" "roots g' = roots g" "hash_map (finalizers (global g')) = (hash_map (finalizers (global g)))(x := None)"
      using free_large_spec [OF g(1) a(2) pol] ret x(1) a(1) by (auto simp: ac_simps)
    note keep = large_change_keeps [OF g(1) f(2)]
    have "stored g' n S K cs' (A(p := None))"
    proof (rule stored_keeps [OF g(2)])
      fix y assume y: "protected g n S K cs y" "y + 16 \<in> dom (A(p := None))"
      have "y \<noteq> a + 16" using y(2) x(1) a(1) by auto
      have bytes: "same_bytes (heap g) (heap g') y (y + Object_size (heap g) y)"
        using y(1) keep(1) keep(2) [of y] \<open>y \<noteq> a + 16\<close> unfolding protected_def kept_def by blast
      have size: "Object_size (heap g') y = Object_size (heap g) y"
        using load_same_bytes [OF bytes, of y 8] protected_node(2) [OF g(1) y(1)] by (simp add: Object_size_def)
      have "protected g' n S K cs' y"
        using y(1) keep(2) [of y] \<open>y \<noteq> a + 16\<close> by (auto simp: protected_def solid_def size)
      then show "protected g' n S K cs' y \<and> Object_size (heap g') y = Object_size (heap g) y \<and>
          same_bytes (heap g) (heap g') (y + 16) (y + Object_size (heap g) y)"
        using size bytes by (auto intro: same_bytes_sub)
    qed (auto split: if_splits)
    moreover have "healthy g'" using g(3) f(3-5) by (simp add: healthy_def control_as_def)
    moreover have "registered g' n S cs'" using g(4) keep(2) unfolding registered_def f(6) by (auto simp: a(1))
    moreover have "framed g g'"
      using f(4) large_changeD(2) [OF f(2)] by (simp add: framed_def same_regions_def control_as_def same_small_def)
    ultimately show ?thesis using step f(1) by (intro simulatesI)
  qed
qed

text \<open>The payload of an object holds no mark byte: not its own, not another object's, and no line header.\<close>

lemma payload_no_object_mark:
  assumes ok: "gc_ok g n S K cs" and x: "protected g n S K cs x" and a: "in_payload (heap g) x a"
    and y: "y \<in> S \<union> chunk_objects (shape_of g n S cs)"
  shows "a \<noteq> y + 8"
proof
  let ?h = "shape_of g n S cs"
  note wf = heap_ok_shape [OF gc_ok_heap [OF ok]] and sp = spaces [OF ok]
  assume e: "a = y + 8"
  have pay: "x + 16 \<le> a" "a < x + Object_size (heap g) x" using a by (simp_all add: in_payload_def)
  then have ne: "y \<noteq> x" using e by auto
  have S: "small_heap_start (global g) \<le> y \<and> y + 16 \<le> small_heap_stop (global g)" if "y \<in> S"
    using small_region [OF wf, of y] extent_dvd_nodes [OF wf, of y] nodes_eq [OF wf] that by auto
  have L: "large_heap_start (global g) \<le> y \<and> y + 16 \<le> large_heap_stop (global g)" if "y \<notin> S"
    using chunk_region [OF wf, of y] y that by simp
  show False
  proof (cases "x \<in> K \<and> solid (heap g) S x")
    case True
    note xs = protected_small(1,4,5) [OF ok conjunct1 [OF True]]
    show False
    proof (cases "y \<in> S")
      case yS: True
      with True ne have "y + 16 \<le> x \<or> x + Object_size (heap g) x \<le> y" by (auto simp: solid_def clear_of_def)
      then show False using pay e by auto
    next
      case False
      then show False using L e pay xs(2,3) sp(1,2,4) by auto
    qed
  next
    case False
    then have ln: "x \<in> large_nodes ?h" using x by (auto simp: protected_def)
    show False
    proof (cases "y \<in> chunk_objects ?h")
      case True
      then show False using large_apart [OF ok ln True] ne pay e by auto
    next
      case False
      then show False using S y e pay protected_large(3,4) [OF ok ln] sp(1,2,4) by auto
    qed
  qed
qed

lemma payload_no_metadata:
  assumes ok: "gc_ok g n S K cs" and x: "protected g n S K cs x" and a: "in_payload (heap g) x a"
    and b: "b \<in> set (shape_blocks (shape_of g n S cs))"
  shows "\<not> (b \<le> a \<and> a < b + 143)"
proof
  let ?h = "shape_of g n S cs"
  note wf = heap_ok_shape [OF gc_ok_heap [OF ok]] and sp = spaces [OF ok]
  note fb = block_facts [OF wf b]
  assume m: "b \<le> a \<and> a < b + 143"
  have pay: "x + 16 \<le> a" "a < x + Object_size (heap g) x" using a by (simp_all add: in_payload_def)
  show False
  proof (cases "x \<in> K")
    case True
    then obtain b' where b': "b' \<in> set (shape_blocks ?h)" "b' + 256 \<le> x" "x + Object_size (heap g) x \<le> b' + 32768"
      using small_node [OF wf, of x] protected_small(1) [OF ok] by auto
    have "b \<noteq> b'" using m pay b'(2) by auto
    with blocks_disjoint [OF fb(1) block_facts(1) [OF wf b'(1)]] m pay b' show False by auto
  next
    case False
    then have "x \<in> large_nodes ?h" using x by (auto simp: protected_def)
    with protected_large(3,4) [OF ok] m fb(4,5) pay sp(1,2,4) show False by fastforce
  qed
qed

lemma payload_no_mark:
  assumes ok: "gc_ok g n S K cs" and x: "protected g n S K cs x" and a: "in_payload (heap g) x a"
  shows "\<not> mark_byte (shape_of g n S cs) a"
proof
  let ?h = "shape_of g n S cs"
  note wf = heap_ok_shape [OF gc_ok_heap [OF ok]]
  assume "mark_byte ?h a"
  then have "(\<exists>y \<in> S \<union> chunk_objects ?h. a = y + 8) \<or> (\<exists>b \<in> set (shape_blocks ?h). b \<le> a \<and> a < b + 143)"
    unfolding mark_byte_def nodes_eq [OF wf] using large_nodes_chunks [of ?h] by fastforce
  then show False using payload_no_object_mark [OF assms] payload_no_metadata [OF assms] by blast
qed

text \<open>A collection keeps the entries of the marked objects.\<close>

lemma finalized_once_table:
  assumes f: "finalized_once env g g' h M" and pol: "polite env" and hash: "hash_wf (finalizers (global g))"
    and dom: "dom (hash_map (finalizers (global g))) \<subseteq> nodes h"
  shows "hash_map (finalizers (global g')) = hash_map (finalizers (global g)) |` M"
proof -
  obtain g1 where g1: "finalized env (g\<lparr>is_collecting := True\<rparr>) g1 h M" "finalizers (global g') = finalizers (global g1)"
    using f by (auto simp: finalized_once_def)
  from finalized_run [OF g1(1) pol] hash dom show ?thesis unfolding g1(2) by auto
qed

lemma simulate_collect:
  assumes r: "represents g A" and pol: "polite env" and wf: "shape_wf (shape_of g n S cs)" and cl: "client_ok env g rs"
    and small: "cell_total (last cs) < 2 ^ 31" and nx: "next_ok env g"
    and X: "X = (\<lambda>x. x + 16) ` reachable (shape_of g n S cs) (root_ranges env rs g)" and ret: "GC_collect_once env g = ret g'"
  shows "simulates (Collect X) A g g'"
proof -
  obtain n0 S0 K cs0 where g0: "gc_ok g n0 S0 K cs0" "stored g n0 S0 K cs0 A" "healthy g" "registered g n0 S0 cs0"
    using representsE [OF r] .
  have "n0 = n \<and> S0 = S \<and> cs0 = cs" using shape_unique [OF wf heap_ok_shape [OF gc_ok_heap [OF g0(1)]]] .
  then have g: "gc_ok g n S K cs" "stored g n S K cs A" "registered g n S cs" using g0(1,2,4) by simp_all
  let ?h = "shape_of g n S cs"
  from collect_once_spec [OF g(1) cl pol small nx] ret obtain M n' S' cs' where
    c: "collect_result g g' ?h (root_ranges env rs g) M n' S' cs'" "finalized_once env g g' ?h M" by auto
  from c(1) have C: "gc_ok g' n' S' (M \<inter> S) cs'" "reachable ?h (root_ranges env rs g) \<subseteq> M" "S' \<subseteq> S"
    "M \<inter> S \<subseteq> S'" "large_nodes (shape_of g' n' S' cs') = M \<inter> large_nodes ?h" "bytes_kept ?h M (heap g')" "healthy g'"
    by (simp_all add: collect_result_def healthy_def)
  have "stored g' n' S' (M \<inter> S) cs' (A |` X)"
  proof (rule stored_keeps [OF g(2)])
    fix x assume x: "protected g n S K cs x" "x + 16 \<in> dom (A |` X)"
    then have M: "x \<in> M" using C(2) X by auto
    have bytes: "same_bytes (heap g) (heap g') (x + 16) (x + Object_size (heap g) x)"
      using C(6) M payload_no_mark [OF g(1) x(1)] by (auto simp: same_bytes_def bytes_kept_def in_payload_def)
    have node: "x \<in> nodes ?h"
      using x(1) protected_small(1) [OF g(1)] nodes_eq [OF wf] by (auto simp: protected_def)
    have size: "Object_size (heap g') x = Object_size (heap g) x"
      unfolding Object_size_def
    proof (rule load_cong)
      fix a assume a: "x \<le> a" "a < x + 8"
      then have "\<not> mark_byte ?h a" using node_header [OF wf node, of a] by auto
      then show "heap g' a = heap g a" using C(6) M a protected_node(2) [OF g(1) x(1)] by (auto simp: bytes_kept_def)
    qed
    have "protected g' n' S' (M \<inter> S) cs' x"
    proof (cases "x \<in> K \<and> solid (heap g) S x")
      case True
      then have "solid (heap g') S' x" using C(3) by (auto simp: solid_def size clear_of_def)
      then show ?thesis using True M protected_small(1) [OF g(1)] by (auto simp: protected_def)
    qed (use x(1) C(5) M size in \<open>auto simp: protected_def\<close>)
    then show "protected g' n' S' (M \<inter> S) cs' x \<and> Object_size (heap g') x = Object_size (heap g) x \<and>
        same_bytes (heap g) (heap g') (x + 16) (x + Object_size (heap g) x)" using size bytes by blast
  qed (simp add: restrict_map_def split: if_splits)
  moreover have "registered g' n' S' cs'"
  proof -
    have "hash_map (finalizers (global g')) = hash_map (finalizers (global g)) |` M"
      using g0(3) g(3) nodes_eq [OF wf] by (intro finalized_once_table [OF c(2) pol]) (simp_all add: healthy_def registered_def)
    then show ?thesis using g(3) C(4,5) by (auto simp: registered_def)
  qed
  moreover have "framed g g'" using c(1) by (simp add: framed_def collect_result_def)
  ultimately show ?thesis using C(1,7) by (intro simulatesI [OF store_step.collect])
qed

section \<open>Threads\<close>

lemma simulate_join:
  assumes r: "represents g A" and q: "quiet g" and a: "a \<noteq> 0" "a \<notin> set (items (local_allocators g))" "la_next (locals g a) = 0"
    and cap: "ary_capacity (local_allocators g) < 2 ^ 59" and ret: "GC_init_thread env junk a g = ret g'"
  shows "simulates (Join a) A g g'"
proof -
  obtain n S K cs where g: "gc_ok g n S K cs" "stored g n S K cs A" "healthy g" "registered g n S cs" using representsE [OF r] .
  from init_thread_spec [OF g(1) q a(1,2) disjI1 [OF a(3)] cap, of env junk] ret obtain n' where
    j: "gc_ok g' n' S K cs" "thread_added g g' a K" by auto
  then have t: "kept K (heap g) (heap g')" "same_large (global g) (global g')" "outside (global g) (heap g) (heap g')"
    "is_collecting g' = is_collecting g" "roots g' = roots g" by (simp_all add: thread_added_def)
  have "same_bytes (heap g) (heap g') (large_heap_start (global g)) (large_heap_stop (global g))"
    unfolding same_bytes_def
  proof (intro allI impI)
    fix a assume "large_heap_start (global g) \<le> a" "a < large_heap_stop (global g)"
    then have "a < small_heap_start (global g) \<or> small_heap_start (global g) + memory_limit (global g) \<le> a"
      using spaces(2,4) [OF g(1)] by auto
    then show "heap g a = heap g' a" using t(3) unfolding outside_def by metis
  qed
  moreover have ln: "large_nodes (shape_of g' n' S cs) = large_nodes (shape_of g n S cs)"
    using t(2) by (simp add: large_nodes_def same_large_def)
  moreover have "large_heap_start (global g) \<le> x" if "x \<in> large_nodes (shape_of g n S cs)" for x
    using protected_large(3) [OF g(1) that] by simp
  ultimately have "stored g' n' S K cs A"
    using protected_large(4) [OF g(1)] same_bytes_sub by (intro stored_new_state [OF g(1,2) _ _ _ t(1), where c = 0]) (simp_all, blast)
  moreover have "healthy g'" using g(3) t(2,4,5) by (simp add: healthy_def same_large_def)
  moreover have "registered g' n' S cs" using t(2) ln by (intro registered_keeps [OF g(4)]) (simp_all add: same_large_def)
  moreover have "framed g g'" using j(2) by (simp add: framed_def same_regions_def thread_added_def same_large_def)
  ultimately show ?thesis using j(1) by (intro simulatesI [OF store_step.join])
qed

lemma owned_fewer: "distinct (owned L os) \<Longrightarrow> distinct os' \<Longrightarrow> set os' \<subseteq> set os \<Longrightarrow> distinct (owned L os')"
  by (auto simp: distinct_map intro: inj_on_subset)

lemma alloc_inv_fewer:
  assumes inv: "alloc_inv m G L n S K os fs rs" and os': "distinct os'" "set os' \<subseteq> set os"
  shows "alloc_inv m G L n S K os' fs rs"
proof -
  have fewer: "distinct (xs @ ys @ vs)" "set (xs @ ys @ vs) \<subseteq> B"
    if "distinct (xs @ ys @ us)" "set (xs @ ys @ us) \<subseteq> B" "distinct vs" "set vs \<subseteq> set us" for xs ys us vs :: "addr list" and B
    using that by auto
  have "distinct (owned L os')" using inv os' owned_fewer [of L os os'] by (simp add: alloc_inv_def)
  moreover have "set (owned L os') \<subseteq> set (owned L os)" using os'(2) by auto
  ultimately have "distinct (fs @ rs @ owned L os')" "set (fs @ rs @ owned L os') \<subseteq> set (blocks_from (small_heap_start G) n)"
    using fewer [OF alloc_invD(6,7) [OF inv]] by blast+
  then show ?thesis using inv os'(2) unfolding alloc_inv_def by blast
qed

text \<open>A thread that leaves takes its two blocks with it until the next collection; nothing else changes.\<close>

lemma deinit_thread_ok:
  assumes ok: "gc_ok g n S K cs"
  shows "gc_ok (GC_deinit_thread past a g) n S K cs"
    and "items (local_allocators (GC_deinit_thread past a g)) = remove1 a (items (local_allocators g))"
proof -
  let ?g = "GC_deinit_thread past a g" and ?as = "items (local_allocators g)"
  have as: "array_wf (local_allocators g)" "distinct ?as" using ok by (simp_all add: gc_ok_def)
  have eq: "heap ?g = heap g" "global ?g = global g" "locals ?g = locals g"
    "local_allocators ?g = Array_delete past (local_allocators g) a"
    by (simp_all add: GC_deinit_thread_def GC_lock_def GC_unlock_def Let_def)
  note del = Array_delete_ok [OF as(1), of past a]
  show items: "items (local_allocators ?g) = remove1 a ?as" using del by (simp add: eq)
  obtain fs rs where inv: "alloc_inv (heap g) (global g) (locals g) n S K (slots ?as) fs rs"
    using gc_ok_heap [OF ok] by (auto simp: heap_ok_def alloc_state_def)
  have "alloc_state ?g n S K (slots (remove1 a ?as)) fs rs"
    unfolding alloc_state_def eq
    by (rule alloc_inv_fewer [OF inv]) (use as(2) in \<open>auto dest: notin_set_remove1 [THEN contrapos_pn] set_remove1_subset [THEN subsetD]\<close>)
  moreover have "large_wf ?g cs" using heap_okD(1) [OF gc_ok_heap [OF ok]] by (simp add: large_wf_def eq)
  ultimately have "heap_ok ?g (remove1 a ?as) n S K cs" using heap_okD(2-4) [OF gc_ok_heap [OF ok]] by (auto simp: heap_ok_def eq)
  then show "gc_ok ?g n S K cs" using del as(2) unfolding gc_ok_def items by (simp add: eq)
qed

lemma stored_same_heap:
  "stored g n S K cs A \<Longrightarrow> heap g' = heap g \<Longrightarrow> global g' = global g \<Longrightarrow> stored g' n S K cs A"
  by (simp add: stored_def protected_def large_nodes_def)

lemma registered_same: "registered g n S cs \<Longrightarrow> global g' = global g \<Longrightarrow> registered g' n S cs"
  by (simp add: registered_def large_nodes_def)

lemma simulate_leave:
  assumes r: "represents g A"
  shows "simulates (Leave a) A g (GC_deinit_thread past a g)"
proof -
  obtain n S K cs where g: "gc_ok g n S K cs" "stored g n S K cs A" "healthy g" "registered g n S cs" using representsE [OF r] .
  have eq: "heap (GC_deinit_thread past a g) = heap g" "global (GC_deinit_thread past a g) = global g"
    "is_collecting (GC_deinit_thread past a g) = is_collecting g" "roots (GC_deinit_thread past a g) = roots g" "lock_depth (GC_deinit_thread past a g) = lock_depth g"
    by (simp_all add: GC_deinit_thread_def GC_lock_def GC_unlock_def Let_def)
  show ?thesis
    by (rule simulatesI [OF store_step.leave deinit_thread_ok(1) [OF g(1)] stored_same_heap [OF g(2) eq(1,2)]])
      (use g(3) registered_same [OF g(4) eq(2)] framed_same [OF eq(5,2)] in \<open>simp_all add: healthy_def eq\<close>)
qed

lemma simulate_switch:
  assumes r: "represents g A"
  shows "simulates (Switch a) A g (g\<lparr>current := a\<rparr>)"
proof -
  obtain n S K cs where g: "gc_ok g n S K cs" "stored g n S K cs A" "healthy g" "registered g n S cs" using representsE [OF r] .
  have "gc_ok (g\<lparr>current := a\<rparr>) n S K cs" using g(1) by (simp add: gc_ok_def heap_ok_def alloc_state_def large_wf_def)
  then show ?thesis
    using stored_same_heap [OF g(2), of "g\<lparr>current := a\<rparr>"] registered_same [OF g(4), of "g\<lparr>current := a\<rparr>"] g(3)
    by (intro simulatesI [OF store_step.switch] framed_same) (auto simp: healthy_def)
qed

section \<open>Roots\<close>

lemma simulate_roots:
  assumes r: "represents g A" and wf: "stack_wf s" and g': "g' = g\<lparr>roots := s, collect_callback := f\<rparr>" and step: "store_step e A A"
  shows "simulates e A g g'"
proof -
  obtain n S K cs where g: "gc_ok g n S K cs" "stored g n S K cs A" "healthy g" "registered g n S cs" using representsE [OF r] .
  have "gc_ok g' n S K cs" using g(1) by (simp add: g' gc_ok_def heap_ok_def alloc_state_def large_wf_def)
  moreover have "healthy g'" using g(3) wf by (simp add: g' healthy_def)
  ultimately show ?thesis
    using stored_same_heap [OF g(2), of g'] registered_same [OF g(4), of g'] g' by (intro simulatesI [OF step] framed_same) auto
qed

lemma simulate_add_roots:
  assumes r: "represents g A" and ret: "GC_add_roots g a b = ret g'"
  shows "simulates (AddRoots a b) A g g'"
proof -
  have "g' = g\<lparr>roots := Stack_push (roots g) a b\<rparr>"
    using ret by (auto simp: GC_add_roots_def Collector_addRoots_def guard_def ret_def split: if_splits)
  moreover have "stack_wf (Stack_push (roots g) a b)" using r mark_stack.push_invar by (auto simp: represents_def healthy_def)
  ultimately show ?thesis by (intro simulate_roots [OF r, where f = "collect_callback g"] store_step.add_roots) simp_all
qed

lemma simulate_on_collect: "represents g A \<Longrightarrow> simulates (OnCollect f) A g (GC_register_collect_callback g f)"
  by (rule simulate_roots [where s = "roots g" and f = f])
    (auto simp: represents_def healthy_def GC_register_collect_callback_def Collector_registerCollectCallback_def intro: store_step.on_collect)

lemma represents_contents: "represents g A \<Longrightarrow> A p = Some bs \<Longrightarrow> contents (heap g) p (length bs) = bs"
  by (elim representsE) (auto simp: stored_def)

section \<open>Progress\<close>

text \<open>What allocation the small and the large object space can no longer serve.\<close>

definition exhausted :: "'a gc_scheme \<Rightarrow> nat \<Rightarrow> bool" where
  "exhausted g sz \<longleftrightarrow> (if sz \<le> 8176 then full (global g)
     else \<exists>cs. large_wf g cs \<and> large_full (global g) cs (ROUND_TO_NEXT_MULTIPLE sz WORD_SIZE))"

lemma malloc_progress:
  assumes r: "represents g A" and q: "quiet g" "current g \<in> set (items (local_allocators g))" and sz: "sz < 2 ^ 59" and at: "at < 256"
  shows "GC_malloc_with_atomic env g sz at = abort_with ''GC: out of memory'' \<and> exhausted g sz \<or>
    (\<exists>g' p. GC_malloc_with_atomic env g sz at = ret (g', p) \<and> simulates (Malloc sz at p) A g g')"
proof -
  obtain n S K cs where g: "gc_ok g n S K cs" using representsE [OF r] .
  show ?thesis
  proof (cases "sz \<le> 8176")
    case True
    from malloc_small_spec [OF g q True at, of env] show ?thesis
      using simulate_malloc_small [OF r q True at] True by (auto simp: exhausted_def)
  next
    case False
    have "large_wf g cs" using heap_okD(1) [OF gc_ok_heap [OF g]] .
    moreover from False have big: "8176 < sz" by simp
    from malloc_large_spec [OF g q(1) big sz at, of env]
    have "GC_malloc_with_atomic env g sz at = abort_with ''GC: out of memory'' \<and> large_full (global g) cs (ROUND_TO_NEXT_MULTIPLE sz WORD_SIZE) \<or>
      (\<exists>g' p. GC_malloc_with_atomic env g sz at = ret (g', p))" by blast
    ultimately show ?thesis
      using simulate_malloc_large [OF r q(1) big sz at] False unfolding exhausted_def by metis
  qed
qed

end
