(* ===== verification/Reallocation.thy ===== *)
theory Reallocation
  imports Store
begin

text \<open>
  \<open>GC_realloc\<close> and \<open>GC_register_finalizer\<close> as steps of the store: the copy of the payload, the finalizer that moves along, the
  release of the old object.
\<close>

section \<open>Reallocation\<close>

lemma memcpy_0: "memcpy m p q 0 = m"
  by (rule ext) (auto simp: memcpy_def)

lemma memcpy_Suc: "memcpy m p q (Suc k) = (memcpy m p q k)(p + k := m (q + k))"
proof
  fix a
  show "memcpy m p q (Suc k) a = ((memcpy m p q k)(p + k := m (q + k))) a"
    by (cases "a = p + k") (auto simp: memcpy_def)
qed

lemma represents_copy:
  assumes r: "represents g A" and p: "A p = Some cs" and k: "k \<le> length bs" "k \<le> length cs"
    and q: "\<And>i. i < k \<Longrightarrow> heap g (q + i) = bs ! i"
  shows "represents (g\<lparr>heap := memcpy (heap g) p q k\<rparr>) (A(p \<mapsto> take k bs @ drop k cs))"
  using k q
proof (induction k)
  case 0
  have "A(p \<mapsto> cs) = A" using p by auto
  then show ?case using r by (simp add: memcpy_0)
next
  case (Suc k)
  let ?g = "g\<lparr>heap := memcpy (heap g) p q k\<rparr>" and ?A = "A(p \<mapsto> take k bs @ drop k cs)"
  have "represents ?g ?A" by (rule Suc.IH) (use Suc.prems in auto)
  moreover have "?A p = Some (take k bs @ drop k cs)" "k < length (take k bs @ drop k cs)" using Suc.prems by auto
  ultimately have "simulates (Write p k (bs ! k)) ?A ?g (?g\<lparr>heap := (heap ?g)(p + k := bs ! k)\<rparr>)" by (rule simulate_write)
  then obtain A' where A': "store_step (Write p k (bs ! k)) ?A A'" "represents (?g\<lparr>heap := (heap ?g)(p + k := bs ! k)\<rparr>) A'"
    by (auto simp: simulates_def)
  have len: "length (take k bs) = k" using Suc.prems by simp
  have "take (Suc k) bs @ drop (Suc k) cs = (take k bs @ drop k cs)[k := bs ! k]"
    using Suc.prems by (simp add: list_update_append take_Suc_conv_app_nth len Cons_nth_drop_Suc [symmetric])
  moreover have "A' = ?A(p \<mapsto> (take k bs @ drop k cs)[k := bs ! k])" using A'(1) by (simp add: store_step_simps)
  ultimately have "A' = A(p \<mapsto> take (Suc k) bs @ drop (Suc k) cs)" by simp
  moreover have "heap g (q + k) = bs ! k" using Suc.prems(3) by simp
  then have "?g\<lparr>heap := (heap ?g)(p + k := bs ! k)\<rparr> = g\<lparr>heap := memcpy (heap g) p q (Suc k)\<rparr>" by (simp add: memcpy_Suc)
  ultimately show ?case using A'(2) by metis
qed

text \<open>The table of finalizers is no part of the heap.\<close>

lemma represents_finalizers:
  assumes r: "represents g A" and t: "hash_wf t"
    and dom: "dom (hash_map t) \<subseteq> dom (hash_map (finalizers (global g))) \<union> (\<lambda>p. p - 16) ` dom A"
  shows "represents (g\<lparr>global := (global g)\<lparr>finalizers := t\<rparr>\<rparr>) A"
proof -
  obtain n S K cs where g: "gc_ok g n S K cs" "stored g n S K cs A" "healthy g" "registered g n S cs" using representsE [OF r] .
  let ?g = "g\<lparr>global := (global g)\<lparr>finalizers := t\<rparr>\<rparr>"
  have "gc_ok ?g n S K cs"
    using g(1) by (simp add: gc_ok_def heap_ok_def alloc_state_def alloc_inv_def large_wf_def spaces_apart_def space_ok_def)
  moreover have "stored ?g n S K cs A" using g(2) by (simp add: stored_def protected_def large_nodes_def)
  moreover have "registered ?g n S cs"
  proof -
    have "p - 16 \<in> S \<union> large_nodes (shape_of g n S cs)" if "p \<in> dom A" for p
    proof -
      obtain bs where "A p = Some bs" using \<open>p \<in> dom A\<close> by blast
      from storedE [OF g(2) this] obtain x where "p = x + 16" "protected g n S K cs x" .
      then show ?thesis using protected_small(1) [OF g(1)] by (auto simp: protected_def)
    qed
    moreover have "large_nodes (shape_of ?g n S cs) = large_nodes (shape_of g n S cs)" by (simp add: large_nodes_def)
    ultimately show ?thesis using g(4) dom unfolding registered_def by simp blast
  qed
  ultimately show ?thesis using g(3) t by (auto simp: represents_def healthy_def)
qed

lemma simulate_register:
  assumes r: "represents g A" and p: "p \<in> dom A" and none: "hash_map (finalizers (global g)) (p - sizeof_Object) = None" and rm: "room g"
    and ret: "GC_register_finalizer g p f = ret g'"
  shows "simulates (Register p f) A g g'"
proof -
  have "hash_wf (finalizers (global g))" using r by (auto simp: represents_def healthy_def)
  from hash_insert_fresh [OF this none, of f] rm obtain t where t: "Hash_insert (finalizers (global g)) (p - sizeof_Object) f = ret t" "hash_wf t"
    "hash_map t = (hash_map (finalizers (global g)))(p - sizeof_Object \<mapsto> f)" by (auto simp: room_def)
  have "represents (g\<lparr>global := (global g)\<lparr>finalizers := t\<rparr>\<rparr>) A"
    by (rule represents_finalizers [OF r t(2)]) (use p t(3) in \<open>auto simp: sizeof_Object_def\<close>)
  moreover have "g' = g\<lparr>global := (global g)\<lparr>finalizers := t\<rparr>\<rparr>"
    using ret t(1) by (simp add: GC_register_finalizer_def GlobalAllocator_registerFinalizer_def)
  ultimately show ?thesis using store_step.register [OF p] by (auto simp: simulates_def framed_def same_regions_def)
qed

lemma contents_nth: "contents m p k = bs \<Longrightarrow> i < length bs \<Longrightarrow> m (p + i) = bs ! i"
  by (auto simp: contents_def)

lemma store_malloc_fresh: "store_step (Malloc sz at p) A A' \<Longrightarrow> \<exists>bs. A' = A(p \<mapsto> bs) \<and> sz \<le> length bs \<and> 8 dvd p \<and> p \<notin> dom A \<and> separate A p (length bs)"
proof -
  assume "store_step (Malloc sz at p) A A'"
  then obtain bs where bs: "A' = A(p \<mapsto> bs)" "sz \<le> length bs" "8 dvd p" "separate A p (length bs)" by (auto simp: store_step_simps)
  then have "p \<notin> dom A" by (fastforce simp: separate_def)
  with bs show ?thesis by blast
qed

text \<open>The part of \<open>GC_realloc\<close> behind the allocation: copy, move the finalizer, free.\<close>

definition move_object :: "'a program \<Rightarrow> addr \<Rightarrow> addr \<Rightarrow> nat \<Rightarrow> 'a gc_scheme \<Rightarrow> ('a gc_scheme \<times> addr) prog" where
  "move_object env q p k g =
     (let g = g\<lparr>heap := memcpy (heap g) p q k\<rparr>
      in pbind (GlobalAllocator_deleteFinalizer (global g) (q - 16)) (\<lambda>(self, finalizer).
         pbind (if finalizer \<noteq> 0 then GlobalAllocator_registerFinalizer self (p - 16) finalizer else ret self) (\<lambda>self.
         pbind (GC_free env (g\<lparr>global := self\<rparr>) q) (\<lambda>g. ret (g, p)))))"

lemma realloc_grow:
  assumes "q \<noteq> 0" and "sz \<noteq> 0" and "Object_mutatorSize (heap g) (q - 16) < sz"
  shows "GC_realloc env g q sz = pbind (GC_malloc_with_atomic env g sz (Object_atomic (heap g) (q - 16)))
    (\<lambda>(g', p). move_object env q p (Object_mutatorSize (heap g) (q - 16)) g')"
  using assms unfolding GC_realloc_def move_object_def Let_def sizeof_Object_def by simp

lemma free_returns:
  assumes "hash_wf (finalizers (global g))"
  shows "\<exists>g'. GC_free env g q = ret g'"
proof -
  obtain table v where "Hash_delete (finalizers (global g)) (Chunk_object (q - sizeof_Chunk)) = ret (table, v)"
    using hash_delete_spec [OF assms] by blast
  then show ?thesis
    by (simp add: GC_free_def GlobalAllocator_deallocateLarge_def GlobalAllocator_deleteFinalizer_def GC_lock_def Let_def)
qed

lemma move_object_spec:
  assumes r: "represents g A" and pol: "polite env" and q: "A q = Some bs" and p: "A p = Some cs" "p \<noteq> q" and len: "length bs \<le> length cs"
    and none: "hash_map (finalizers (global g)) (p - 16) = None" and rm: "room g"
  shows "\<exists>g'. move_object env q p (length bs) g = ret (g', p) \<and> framed g g' \<and>
    represents g' (A(q := None, p \<mapsto> bs @ drop (length bs) cs))"
proof -
  let ?A = "A(p \<mapsto> bs @ drop (length bs) cs)" and ?t = "finalizers (global g)"
  let ?g = "g\<lparr>heap := memcpy (heap g) p q (length bs)\<rparr>"
  have "heap g (q + i) = bs ! i" if "i < length bs" for i
    using contents_nth [OF represents_contents [OF r q]] that by simp
  then have c: "represents ?g ?A" using represents_copy [OF r p(1), of "length bs" bs q] len by simp
  have hash: "hash_wf ?t" using r by (auto simp: represents_def healthy_def)
  obtain t where t: "Hash_delete ?t (q - 16) = ret (t, case hash_map ?t (q - 16) of None \<Rightarrow> 0 | Some v \<Rightarrow> v)"
    "hash_wf t" "hash_map t = (hash_map ?t)(q - 16 := None)" "mask t \<le> mask ?t"
    using hash_delete_spec [OF hash, of "q - 16"] by blast
  define f where "f = (case hash_map ?t (q - 16) of None \<Rightarrow> 0 | Some v \<Rightarrow> v)"
  have "hash_map t (p - 16) = None" using none t(3) by simp
  from hash_insert_fresh [OF t(2) this, of f] t(4) rm obtain t' where t': "Hash_insert t (p - 16) f = ret t'" "hash_wf t'"
    "hash_map t' = (hash_map t)(p - 16 \<mapsto> f)" by (auto simp: room_def)
  define u where "u = (if f \<noteq> 0 then t' else t)"
  let ?h = "?g\<lparr>global := (global ?g)\<lparr>finalizers := u\<rparr>\<rparr>"
  have u: "hash_wf u" using t(2) t'(2) by (simp add: u_def)
  have h: "represents ?h ?A"
    by (rule represents_finalizers [OF c u]) (use t(3) t'(3) in \<open>auto simp: u_def split: if_splits\<close>)
  then have "hash_wf (finalizers (global ?h))" by (auto simp: represents_def healthy_def)
  from free_returns [OF this, of env q] obtain g' where g': "GC_free env ?h q = ret g'" by blast
  have fr: "simulates (Free q) ?A ?h g'" by (rule simulate_free [OF h pol _ g']) (use q p(2) in auto)
  then have "framed ?h g'" by (simp add: simulates_def)
  then have "framed g g'" by (simp add: framed_def same_regions_def)
  moreover from fr have "represents g' (?A(q := None))" by (auto simp: simulates_def store_step_simps)
  moreover have "?A(q := None) = A(q := None, p \<mapsto> bs @ drop (length bs) cs)" using p(2) by (simp add: fun_upd_twist)
  moreover have "move_object env q p (length bs) g = ret (g', p)"
    using t(1) [folded f_def] t'(1) g'
    by (auto simp: move_object_def Let_def GlobalAllocator_deleteFinalizer_def GlobalAllocator_registerFinalizer_def u_def)
  ultimately show ?thesis by simp
qed

text \<open>A new object is at an address where no object was, so no finalizer is registered for it.\<close>

lemma regions_apart:
  assumes ok: "gc_ok g n S K cs" and a: "small_heap_start (global g) \<le> x" "x < small_heap_start (global g) + memory_limit (global g)"
    and b: "large_heap_start (global g) \<le> x" "x < large_heap_start (global g) + memory_limit (global g)"
  shows False
  using spaces(4) [OF ok] a b by linarith

lemma malloc_new_node:
  assumes ok: "gc_ok g n S K cs" and q: "quiet g" "current g \<in> set (items (local_allocators g))" and sz: "sz < 2 ^ 59" and at: "at < 256"
    and ret: "GC_malloc_with_atomic env g sz at = ret (g', p)"
  shows "finalizers (global g') = finalizers (global g) \<and> p - 16 \<notin> S \<and> p - 16 \<notin> large_nodes (shape_of g n S cs)"
proof (cases "sz \<le> 8176")
  case True
  from malloc_small_spec [OF ok q True at, of env] ret obtain c n' where c: "p = c + 16" "c \<notin> S"
    "gc_ok g' n' (insert c S) (insert c K) cs" "stable g g'" by (auto simp: fresh_object_def)
  have eq: "small_heap_start (global g') = small_heap_start (global g)" "memory_limit (global g') = memory_limit (global g)"
    "finalizers (global g') = finalizers (global g)"
    using c(4) by (simp_all add: stable_def same_large_def)
  have "c \<notin> large_nodes (shape_of g n S cs)"
  proof
    assume "c \<in> large_nodes (shape_of g n S cs)"
    from protected_large(2-4) [OF ok this] spaces(2) [OF ok] protected_small(3-5) [OF c(3), of c] spaces(1) [OF c(3)]
    show False by (intro regions_apart [OF ok, of c]) (simp_all add: eq)
  qed
  then show ?thesis using c(1,2) eq(3) by simp
next
  case False
  then have big: "8176 < sz" by simp
  from malloc_large_spec [OF ok q(1) big sz at, of env] ret obtain cs' a where a: "p = a + 32" "gc_ok g' n S K cs'"
    "large_allocated g cs g' cs' a (ROUND_TO_NEXT_MULTIPLE sz WORD_SIZE) at" by auto
  have new: "new_chunk (large_heap_start (global g)) cs cs' a (ROUND_TO_NEXT_MULTIPLE sz WORD_SIZE) at"
    and fin: "finalizers (global g') = finalizers (global g)" and ss: "same_small (global g) (global g')"
    using a(3) large_changeD(2) by (auto simp: large_allocated_def)
  have eq: "large_heap_start (global g') = large_heap_start (global g)" "memory_limit (global g') = memory_limit (global g)"
    using ss by (simp_all add: same_small_def)
  from new obtain c where c: "(a, c) \<in> live_chunks (large_heap_start (global g')) cs'"
    "a \<notin> fst ` live_chunks (large_heap_start (global g)) cs" unfolding new_chunk_def eq(1) by blast
  have "a + 16 \<notin> large_nodes (shape_of g n S cs)" using c(2) unfolding large_nodes_live by force
  moreover have "a + 16 \<notin> S"
  proof
    assume "a + 16 \<in> S"
    with small_region [OF heap_ok_shape [OF gc_ok_heap [OF ok]], of "a + 16"]
      extent_dvd_nodes [OF heap_ok_shape [OF gc_ok_heap [OF ok]], of "a + 16"] nodes_eq [OF heap_ok_shape [OF gc_ok_heap [OF ok]]]
    have "small_heap_start (global g) \<le> a + 16" "a + 16 < small_heap_stop (global g)" by auto
    with protected_large(2-4) [OF a(2) live_chunk_size(2) [OF a(2) c(1)]] spaces(1) [OF ok] spaces(2) [OF a(2)]
    show False by (intro regions_apart [OF ok, of "a + 16"]) (simp_all add: eq)
  qed
  moreover have "p - 16 = a + 16" using a(1) by simp
  ultimately show ?thesis using fin by simp
qed

lemma realloc_spec:
  assumes r: "represents g A" and q: "quiet g" "current g \<in> set (items (local_allocators g))" and pol: "polite env"
    and bs: "A q = Some bs" and len: "length bs < sz" "sz < 2 ^ 59"
    and rm: "room g"
  shows "GC_realloc env g q sz = abort_with ''GC: out of memory'' \<and> exhausted g sz \<or>
    (\<exists>g' p new. GC_realloc env g q sz = ret (g', p) \<and> 8 dvd p \<and> p \<notin> dom A \<and> separate A p (length (bs @ new)) \<and>
       sz \<le> length (bs @ new) \<and> framed g g' \<and> represents g' (A(q := None, p \<mapsto> bs @ new)))"
proof -
  obtain n S K cs where g: "gc_ok g n S K cs" "stored g n S K cs A" "healthy g" "registered g n S cs" using representsE [OF r] .
  from storedE [OF g(2) bs] obtain x where x: "q = x + 16" "Object_size (heap g) x = 16 + length bs" .
  have sub: "Object_mutatorSize (heap g) x = length bs" "q - 16 = x"
    using x load8_bound [of "heap g" x] by (simp_all add: Object_mutatorSize_def Object_size_def)
  have at: "Object_atomic (heap g) (q - 16) < 256" by (simp add: Object_atomic_def)
  have eq: "GC_realloc env g q sz = pbind (GC_malloc_with_atomic env g sz (Object_atomic (heap g) (q - 16)))
    (\<lambda>(g', p). move_object env q p (length bs) g')"
    using realloc_grow [of q sz g env] len(1) x(1) unfolding sub by simp
  from malloc_progress [OF r q len(2) at, of env] show ?thesis
  proof (elim disjE exE conjE)
    fix g1 p assume m: "GC_malloc_with_atomic env g sz (Object_atomic (heap g) (q - 16)) = ret (g1, p)"
      "simulates (Malloc sz (Object_atomic (heap g) (q - 16)) p) A g g1"
    then obtain A' where A': "store_step (Malloc sz (Object_atomic (heap g) (q - 16)) p) A A'" "represents g1 A'" "framed g g1"
      by (auto simp: simulates_def)
    with store_malloc_fresh [OF A'(1)] obtain ds where
      ds: "represents g1 (A(p \<mapsto> ds))" "sz \<le> length ds" "p \<notin> dom A" "separate A p (length ds)" "8 dvd p" by blast
    note new = malloc_new_node [OF g(1) q len(2) at m(1)]
    have "hash_map (finalizers (global g1)) (p - 16) = None"
      using new g(4) by (auto simp: registered_def)
    moreover have "p \<noteq> q" "(A(p \<mapsto> ds)) q = Some bs" using ds(3) bs by auto
    ultimately obtain g' where g': "move_object env q p (length bs) g1 = ret (g', p)" "framed g1 g'"
      "represents g' ((A(p \<mapsto> ds))(q := None, p \<mapsto> bs @ drop (length bs) ds))"
      using move_object_spec [OF ds(1) pol, of q bs p ds] rm new ds(2) len(1) by (auto simp: room_def)
    have "(A(p \<mapsto> ds))(q := None, p \<mapsto> bs @ drop (length bs) ds) = A(q := None, p \<mapsto> bs @ drop (length bs) ds)"
      using \<open>p \<noteq> q\<close> by auto
    moreover have "length (bs @ drop (length bs) ds) = length ds" using ds(2) len(1) by simp
    ultimately show ?thesis
      using g' eq m(1) ds(2-5) framed_trans [OF A'(3) g'(2)] by (intro disjI2 exI [of _ g'] exI [of _ p] exI [of _ "drop (length bs) ds"]) simp
  qed (simp add: eq)
qed

text \<open>Every call of \<open>GC_realloc\<close> is a step of the store.\<close>

lemma simulate_malloc:
  assumes "represents g A" and "quiet g" "current g \<in> set (items (local_allocators g))" and "sz < 2 ^ 59" and "at < 256"
    and "GC_malloc_with_atomic env g sz at = ret (g', p)"
  shows "simulates (Malloc sz at p) A g g'"
  using simulate_malloc_small [OF assms(1-3) _ assms(5,6)] simulate_malloc_large [OF assms(1,2) _ assms(4-6)]
  by (cases "sz \<le> 8176") auto

lemma simulates_step: "simulates e A g g' \<Longrightarrow> (\<And>A'. store_step e A A' \<Longrightarrow> store_step e' A A') \<Longrightarrow> simulates e' A g g'"
  unfolding simulates_def by blast

lemma stored_available:
  assumes "represents g A" and "A q = Some bs"
  shows "Object_mutatorSize (heap g) (q - 16) = length bs" "q \<noteq> 0"
proof -
  obtain n S K cs where g: "stored g n S K cs A" using representsE [OF assms(1)] .
  from storedE [OF g assms(2)] obtain x where "q = x + 16" "Object_size (heap g) x = 16 + length bs" .
  then show "Object_mutatorSize (heap g) (q - 16) = length bs" "q \<noteq> 0"
    using load8_bound [of "heap g" x] by (simp_all add: Object_mutatorSize_def Object_size_def)
qed

lemma simulate_realloc:
  assumes r: "represents g A" and q: "quiet g" "current g \<in> set (items (local_allocators g))" and pol: "polite env"
    and sz: "sz < 2 ^ 59" and rm: "room g" and own: "q = 0 \<or> q \<in> dom A" and ret: "GC_realloc env g q sz = ret (g', p)"
  shows "simulates (Realloc q sz p) A g g'"
proof (cases "q = 0")
  case True
  then have "GC_malloc_with_atomic env g sz 0 = ret (g', p)" using ret by (simp add: GC_realloc_def GC_malloc_def)
  from simulate_malloc [OF r q sz _ this] have "simulates (Malloc sz 0 p) A g g'" by simp
  then show ?thesis unfolding True by (rule simulates_step) (rule store_step.realloc_null)
next
  case False
  with own obtain bs where bs: "A q = Some bs" by blast
  note av = stored_available [OF r bs]
  consider "sz = 0" | "0 < sz" "sz \<le> length bs" | "length bs < sz" by linarith
  then show ?thesis
  proof cases
    case 1
    have "hash_wf (finalizers (global g))" using r by (auto simp: represents_def healthy_def)
    from free_returns [OF this] obtain g1 where g1: "GC_free env g q = ret g1" by blast
    then have "g' = g1 \<and> p = 0" using ret False 1 by (simp add: GC_realloc_def)
    then have "simulates (Free q) A g g'" using simulate_free [OF r pol _ g1] bs by auto
    then show ?thesis using \<open>g' = g1 \<and> p = 0\<close> 1 simulates_step [OF _ store_step.realloc_zero] by blast
  next
    case 2
    then have "g' = g \<and> p = q" using ret False av(1) by (simp add: GC_realloc_def Let_def sizeof_Object_def)
    moreover have "store_step (Realloc q sz q) A A" by (rule store_step.realloc_same [where A = A and bs = bs]) (use bs 2 in simp_all)
    ultimately show ?thesis using r by (auto simp: simulates_def)
  next
    case 3
    from realloc_spec [OF r q pol bs 3 sz rm] ret obtain new where
      n: "8 dvd p" "separate A p (length (bs @ new))" "sz \<le> length (bs @ new)" "framed g g'" "represents g' (A(q := None, p \<mapsto> bs @ new))"
      by (elim disjE exE conjE) simp_all
    have "store_step (Realloc q sz p) A (A(q := None, p \<mapsto> bs @ new))"
      by (rule store_step.realloc_move [where A = A and bs = bs]) (use bs 3 n in simp_all)
    then show ?thesis using n(4,5) unfolding simulates_def by blast
  qed
qed

end
