(* ===== verification/Program.thy ===== *)
theory Program
  imports Reallocation
begin

text \<open>
  What a program can rely on: every run of the library, from \<open>GC_init\<close> on, is a run of the abstract store; allocation is decided
  for every size; \<open>GC_realloc\<close> moves the contents of an object.
\<close>

section \<open>Runs\<close>

lemma lib_step_simulates:
  assumes "lib_step env e g g'" and r: "represents g A" and pol: "polite env" and p: "permitted A e"
  shows "simulates e A g g'"
  using assms(1)
proof cases
  case (malloc sz at q)
  then show ?thesis using simulate_malloc [OF r] by simp
next
  case (store_byte q i v)
  then show ?thesis using simulate_write [OF r] p by auto
next
  case (poke a v)
  then show ?thesis using simulate_poke [OF r] by simp
next
  case (free q)
  then show ?thesis using simulate_free [OF r pol, of q] p by simp
next
  case (realloc sz q p)
  then show ?thesis using simulate_realloc [OF r _ _ pol] p by simp
next
  case (register q f)
  then show ?thesis using simulate_register [OF r] p by simp
next
  case (add_roots a b)
  then show ?thesis using simulate_add_roots [OF r] by simp
next
  case (on_collect f)
  then show ?thesis using simulate_on_collect [OF r] by simp
next
  case (collect n S cs rs X)
  then show ?thesis using simulate_collect [OF r pol] by blast
next
  case (join a junk)
  then show ?thesis using simulate_join [OF r] by blast
next
  case (leave a past)
  then show ?thesis using simulate_leave [OF r] by simp
next
  case (switch a)
  then show ?thesis using simulate_switch [OF r] by simp
qed

lemma lib_run_simulates:
  assumes "lib_run env g0 es g" and "represents g0 Map.empty" and "polite env" and "obedient es"
  shows "framed g0 g \<and> (\<exists>A. store_run es A \<and> represents g A)"
  using assms(1,4)
proof (induction rule: lib_run.induct)
  case start
  then show ?case using assms(2) store_run.start framed_refl by blast
next
  case (step es g e g')
  from step.IH [OF obedientD(1) [OF step.prems]] obtain A where A: "store_run es A" "represents g A" "framed g0 g" by blast
  from lib_step_simulates [OF step.hyps(2) A(2) assms(3) obedientD(2) [OF step.prems A(1)]]
  obtain A' where "store_step e A A'" "represents g' A'" "framed g g'" by (auto simp: simulates_def)
  then show ?case using store_run.step [OF A(1)] framed_trans [OF A(3)] by blast
qed

lemma init_represents:
  assumes "gc_ok g n {} {} cs" and "healthy g" and "hash_map (finalizers (global g)) = Map.empty"
  shows "represents g Map.empty"
proof -
  have "stored g n {} {} cs Map.empty" "registered g n {} cs" using assms(3) by (simp_all add: stored_def registered_def)
  with assms(1,2) show ?thesis unfolding represents_def by blast
qed

section \<open>A sample run\<close>

lemma sample_polite: "polite (sample_program a b)"
  by (simp add: polite_def sample_program_def)

lemma sample_represents:
  assumes "gc_ok g 128 {} {} [free_cell 4194288]" "hash_wf (finalizers (global g))" "stack_wf (roots g)" "\<not> is_collecting g"
    "hash_map (finalizers (global g)) = Map.empty"
  shows "represents g Map.empty"
  using assms by (intro init_represents) (auto simp: healthy_def)

lemma sample_malloc:
  assumes g: "gc_ok g 128 {} {} [free_cell 4194288]" "current g = 64" "items (local_allocators g) = [64]"
    "hash_wf (finalizers (global g))" "stack_wf (roots g)" "\<not> is_collecting g" "memory_limit (global g) = 2 ^ 30"
    "free_space_divisor (global g) = 3" "allocated_bytes_since_collect (global g) = 0"
    "hash_map (finalizers (global g)) = Map.empty"
  obtains g' p where "GC_malloc_with_atomic (sample_program 4096 4104) g 100 0 = ret (g', p)"
    "lib_step (sample_program 4096 4104) (Malloc 100 0 p) g g'"
proof -
  have q: "quiet g" "current g \<in> set (items (local_allocators g))" using quiet_start [OF g(1,8,9)] g(2,3) by simp_all
  have "\<not> exhausted g 100" using not_full_start [OF g(1,7)] by (simp add: exhausted_def)
  with malloc_progress [OF sample_represents [OF g(1,4,5,6,10)] q, of 100 0 "sample_program 4096 4104"]
  obtain g' p where m: "GC_malloc_with_atomic (sample_program 4096 4104) g 100 0 = ret (g', p)" by auto
  with lib_step.malloc [OF q _ _ m] show thesis using that by simp
qed

text \<open>One allocation after \<open>GC_init\<close> is an obedient run.\<close>

lemma obedient_malloc: "obedient [Malloc sz at p]"
  unfolding obedient_def
proof (intro allI impI)
  fix es1 e es2 A assume "[Malloc sz at p] = es1 @ e # es2"
  then show "permitted A e" by (auto simp: Cons_eq_append_conv)
qed

section \<open>Limits\<close>

lemma stored_in_heap:
  assumes r: "represents g A" and p: "A p = Some bs" "bs \<noteq> []"
  shows "GC_in_heap g p"
proof -
  obtain n S K cs where g: "gc_ok g n S K cs" "stored g n S K cs A" using representsE [OF r] .
  from storedE [OF g(2) p(1)] obtain x where x: "p = x + 16" "protected g n S K cs x" "Object_size (heap g) x = 16 + length bs" .
  have len: "0 < length bs" using p(2) by simp
  from x(2) show ?thesis
    unfolding protected_def
  proof
    assume "x \<in> K \<and> solid (heap g) S x"
    then show ?thesis
      using protected_small(4,5) [OF g(1), of x] x(1,3) len
      by (simp del: length_greater_0_conv add: GC_in_heap_def GlobalAllocator_inHeap_def GlobalAllocator_inSmallHeap_def)
  next
    assume "x \<in> large_nodes (shape_of g n S cs) \<and> 16 < Object_size (heap g) x"
    then show ?thesis
      using protected_large(3,4) [OF g(1), of x] x(1,3) len
      by (simp del: length_greater_0_conv add: GC_in_heap_def GlobalAllocator_inHeap_def GlobalAllocator_inLargeHeap_def)
  qed
qed

lemma represents_limit: "represents g A \<Longrightarrow> GC_get_memory_use g \<le> memory_limit (global g)"
proof -
  assume "represents g A"
  then obtain n S K cs where "gc_ok g n S K cs" using representsE by metis
  then have "space_ok (global g) n" using heap_okD(7) gc_ok_heap by metis
  then show ?thesis by (simp add: GC_get_memory_use_def GlobalAllocator_heapSize_def size_add_def space_ok_def)
qed

section \<open>Properties\<close>








text \<open>After a small allocation, in a state whose allocation counter was reset, as after a collection.\<close>

lemma sample_realloc:
  obtains g :: gc and q bs where "represents g [q \<mapsto> bs]" "quiet g" "current g \<in> set (items (local_allocators g))" "length bs < 20000"
    "room g" "\<not> exhausted g 20000"
proof -
  let ?env = "sample_program 4096 4104"
  obtain g0 :: gc where g0: "gc_ok g0 128 {} {} [free_cell 4194288]" "current g0 = 64" "items (local_allocators g0) = [64]"
    "hash_wf (finalizers (global g0))" "stack_wf (roots g0)" "\<not> is_collecting g0" "memory_limit (global g0) = 2 ^ 30"
    "free_space_divisor (global g0) = 3" "allocated_bytes_since_collect (global g0) = 0"
    "hash_map (finalizers (global g0)) = Map.empty" "mask (finalizers (global g0)) + 1 = 8"
    by (rule sample_started)
  have r0: "represents g0 Map.empty" by (rule sample_represents [OF g0(1,4-6,10)])
  have q: "quiet g0" "current g0 \<in> set (items (local_allocators g0))" using quiet_start [OF g0(1,8,9)] g0(2,3) by simp_all
  have "\<not> full (global g0)" by (rule not_full_start [OF g0(1,7)])
  with malloc_small_spec [OF g0(1) q, of 100 0 ?env] obtain g1 c n where
    m: "GC_malloc_with_atomic ?env g0 100 0 = ret (g1, c + 16)" "gc_ok g1 n {c} {c} [free_cell 4194288]"
    "fresh_object g0 g1 c (rounded 100) 0 {}" by auto
  then have st: "stable g0 g1" by (simp add: fresh_object_def)
  have more: "local_allocators g1 = local_allocators g0" "current g1 = current g0" using st more_gc by (auto simp: stable_def)
  have sl: "finalizers (global g1) = finalizers (global g0)" "free_space_divisor (global g1) = 3"
    using st g0(8) by (simp_all add: stable_def same_large_def)
  have "simulates (Malloc 100 0 (c + 16)) Map.empty g0 g1" by (rule simulate_malloc_small [OF r0 q _ _ m(1)]) simp_all
  then obtain bs where bs: "represents g1 [c + 16 \<mapsto> bs]"
    by (auto simp: simulates_def store_step_simps)
  let ?g = "g1\<lparr>global := (global g1)\<lparr>allocated_bytes_since_collect := 0\<rparr>\<rparr>"
  have same: "gc_ok ?g n S K cs = gc_ok g1 n S K cs" "stored ?g n S K cs A = stored g1 n S K cs A" "healthy ?g = healthy g1"
    "registered ?g n S cs = registered g1 n S cs" for n S K cs A
    by (simp_all add: gc_ok_def heap_ok_def alloc_state_def alloc_inv_def large_wf_def spaces_apart_def space_ok_def
        stored_def protected_def large_nodes_def healthy_def registered_def)
  have r: "represents ?g [c + 16 \<mapsto> bs]" using bs by (simp add: represents_def same)
  have ok: "gc_ok ?g n {c} {c} [free_cell 4194288]" using m(2) by (simp only: same)
  have "length bs < 20000"
  proof -
    obtain n' S' K' cs' where g': "stored g1 n' S' K' cs' [c + 16 \<mapsto> bs]" using representsE [OF bs] .
    from storedE [OF g', of "c + 16" bs] have "Object_size (heap g1) c = 16 + length bs" by auto
    moreover have "Object_size (heap g1) c = rounded 100" using m(3) by (simp add: fresh_object_def)
    ultimately show ?thesis using rounded_bounds(2) [of 100] by simp
  qed
  moreover have "\<not> exhausted ?g 20000"
  proof
    assume "exhausted ?g 20000"
    then obtain cs where cs: "large_wf ?g cs" "\<forall>c \<in> set cs. unfit (ROUND_TO_NEXT_MULTIPLE 20000 WORD_SIZE + 16) c"
      by (auto simp: exhausted_def large_full_def)
    have "large_wf ?g [free_cell 4194288]" by (rule heap_okD(1) [OF gc_ok_heap [OF ok]])
    then have "cs = [free_cell 4194288]" using cs(1) chunk_seg_unique unfolding large_wf_def chunk_list_def by metis
    then show False using cs(2) by (simp add: unfit_def free_cell_def ROUND_TO_NEXT_MULTIPLE_def)
  qed
  moreover have "quiet ?g" by (rule quiet_start [OF ok]) (simp_all add: sl)
  moreover have "current ?g \<in> set (items (local_allocators ?g))" using q(2) more by simp
  moreover have "room ?g" using g0(11) sl by (simp add: room_def)
  ultimately show thesis using that [OF r] by blast
qed


end
