(* ===== verification/Statistics.thy ===== *)
theory Statistics
  imports Interface
begin

text \<open>
  The statistics of the interface (\<open>GC_small_heap_stats\<close>, \<open>GC_large_heap_stats\<close>, \<open>GC_get_heap_usage\<close>): the walks count every
  object once, and the counters do not wrap.
\<close>

section \<open>Counting\<close>

text \<open>The counters \<open>st\<close> after the objects \<open>A\<close> were counted.\<close>

definition tally :: "mem \<Rightarrow> addr set \<Rightarrow> nat \<times> nat \<Rightarrow> nat \<times> nat" where
  "tally m A st = ((fst st + card A) mod 2 ^ 64, (snd st + (\<Sum>x\<in>A. Object_size m x - 16)) mod 2 ^ 64)"

definition sized :: "nat \<times> nat \<Rightarrow> bool" where
  "sized st \<longleftrightarrow> fst st < 2 ^ 64 \<and> snd st < 2 ^ 64"

lemma sized_tally [simp]: "sized (tally m A st)"
  by (simp add: sized_def tally_def)

lemma tally_empty: "sized st \<Longrightarrow> tally m {} st = st"
  by (simp add: sized_def tally_def prod_eq_iff)

lemma tally_Un: "finite A \<Longrightarrow> finite B \<Longrightarrow> A \<inter> B = {} \<Longrightarrow> tally m B (tally m A st) = tally m (A \<union> B) st"
  by (simp add: tally_def card_Un_disjoint sum.union_disjoint mod_add_left_eq add.assoc)

lemma count_object_tally: "16 \<le> Object_size m x \<Longrightarrow> count_object m x st = tally m {x} st"
  using size_sub_small [of 16 "Object_size m x"] load8_bound [of m x]
  by (simp add: count_object_def tally_def size_add_def sizeof_Object_def Object_size_def)

lemma layout_finite: "layout m b S \<Longrightarrow> finite S"
  by (rule finite_subset [of _ "{..<b + 32768}"]) (use layoutD(2,3) in fastforce)+

section \<open>Small objects\<close>

lemma stats_line_spec:
  assumes l: "layout m b S" and "x \<in> S" and "line_of b x = i" and "sized st"
  shows "stats_line m (line_addr b i) (int x - int (line_addr b i)) st = ret (tally m {y \<in> S. line_of b y = i \<and> x \<le> y} st)"
  using assms(2-4)
proof (induction "line_addr b i + 256 - x" arbitrary: x st rule: less_induct)
  case less
  note x = less.prems(1,2)
  note d = layoutD [OF l x(1)]
  let ?L = "line_addr b i"
  let ?e = "x + Object_size m x"
  have lx: "?L \<le> x" "x < ?L + 256" using line_of_bounds [OF d(1)] x(2) by auto
  have step: "stats_line m ?L (int x - int ?L) st = stats_line m ?L (int ?e - int ?L) (tally m {x} st)"
    using lx d(3,4) c_int_offset [OF lx d(4)] count_object_tally [OF d(3)]
    by (subst stats_line.simps) (simp add: Let_def diff_add_eq)
  show ?case
  proof (cases "?e < ?L + 256 \<and> ?e \<in> S")
    case True
    with layout_next(1) [OF l x(1)] x(2) lx d(1) have e: "?e \<in> S" "line_of b ?e = i"
      by (auto simp: line_of_iff)
    let ?R = "{y \<in> S. line_of b y = i \<and> ?e \<le> y}"
    have "{y \<in> S. line_of b y = i \<and> x \<le> y} = {x} \<union> ?R"
      using layout_same_line [OF l x(1)] x d(3) by force
    moreover have "{x} \<inter> ?R = {}" "finite ?R" using d(3) layout_finite [OF l] by auto
    moreover have dec: "?L + 256 - ?e < ?L + 256 - x" using d(3) lx True by linarith
    ultimately show ?thesis
      using less.hyps [OF dec e] unfolding step by (simp only: sized_tally tally_Un finite.intros)
  next
    case fin: False
    have stop: "stats_line m ?L (int ?e - int ?L) st' = ret st'" for st'
    proof (cases "?e < ?L + 256")
      case True
      with layout_next(1) [OF l x(1)] x(2) fin have "Object_size m ?e = 0" by auto
      with True lx show ?thesis by (subst stats_line.simps) (simp add: Let_def nat_int_add)
    qed (subst stats_line.simps, simp)
    have "y = x" if "y \<in> S" "line_of b y = i" "x \<le> y" for y
      using layout_next(1) [OF l x(1), unfolded x(2)] layout_next(2) [OF l x(1), unfolded x(2)] fin that
      by (cases "?e < ?L + 256") (simp_all add: le_antisym)
    then have "{y \<in> S. line_of b y = i \<and> x \<le> y} = {x}" using x by auto
    with stop step show ?thesis by simp
  qed
qed

lemma stats_lines_spec:
  assumes l: "layout m b S" and "sized st"
  shows "stats_lines m b i st = ret (tally m {y \<in> S. i \<le> line_of b y} st)"
  using assms(2)
proof (induction "127 - i" arbitrary: i st)
  case 0
  have "{y \<in> S. i \<le> line_of b y} = {}" using 0(1) layoutD(8) [OF l] by fastforce
  then have "tally m {y \<in> S. i \<le> line_of b y} st = st" using 0(2) by (simp only: tally_empty)
  with 0 show ?case by (simp add: stats_lines.simps [of m b i st])
next
  case (Suc k)
  then have i: "i < 127" by simp
  let ?h = "b + 16 + i" and ?A = "{y \<in> S. line_of b y = i}" and ?B = "{y \<in> S. Suc i \<le> line_of b y}"
  note h = layout_header [OF l i]
  have line: "(if hdr_object (m ?h) then stats_line m (line_addr b i) (int (hdr_offset (m ?h))) st else ret st) = ret (tally m ?A st)"
  proof (cases "hdr_object (m ?h)")
    case True
    note f = h(2) [OF True]
    then have "{y \<in> S. line_of b y = i \<and> line_addr b i + hdr_offset (m ?h) \<le> y} = ?A" by auto
    with stats_line_spec [OF l, of "line_addr b i + hdr_offset (m ?h)" i] f True Suc.prems show ?thesis by simp
  next
    case False
    with h(1) have "?A = {}" by auto
    with False Suc.prems show ?thesis by (simp only: tally_empty) simp
  qed
  have "stats_lines m b i st = pbind (if hdr_object (m ?h)
      then stats_line m (line_addr b i) (int (hdr_offset (m ?h))) st else ret st) (stats_lines m b (Suc i))"
    using i Block_line_eq [OF i, of b]
    by (subst stats_lines.simps) (simp add: Let_def Block_lineHeaders_def LineHeader_containsObject_iff getOffset_eq)
  also have "\<dots> = stats_lines m b (Suc i) (tally m ?A st)" unfolding line by simp
  also have "\<dots> = ret (tally m ?B (tally m ?A st))" using Suc.hyps by simp
  also have "tally m ?B (tally m ?A st) = tally m (?A \<union> ?B) st"
    using layout_finite [OF l] by (intro tally_Un) auto
  also have "?A \<union> ?B = {y \<in> S. i \<le> line_of b y}" by auto
  finally show ?case .
qed

lemma small_layout_finite: "small_layout m b n S \<Longrightarrow> finite S"
  by (rule finite_subset [OF _ finite_lessThan [of "b + n * BLOCK_SIZE"]]) (auto simp only: small_layout_def lessThan_iff)

lemma stats_blocks_spec:
  "small_layout m b n S \<Longrightarrow> sized st \<Longrightarrow> stats_blocks m b (b + n * BLOCK_SIZE) st = ret (tally m S st)"
proof (induction n arbitrary: b S st)
  case 0
  then have "S = {}" by (auto simp: small_layout_def)
  with 0 show ?case by (simp add: stats_blocks.simps tally_empty)
next
  case (Suc n)
  note l = Suc.prems(1)
  let ?b = "b + BLOCK_SIZE" and ?A = "block_objects S b" and ?B = "{x \<in> S. b + 32768 \<le> x}"
  have b: "b \<in> set (blocks_from b (Suc n))" by (simp add: blocks_from_Suc)
  note d = small_layoutD [OF l b]
  have "{y \<in> ?A. 0 \<le> line_of b y} = ?A" by auto
  with stats_lines_spec [OF d(3) Suc.prems(2), of 0] have "stats_lines m b 0 st = ret (tally m ?A st)" by simp
  then have "stats_blocks m b (b + Suc n * BLOCK_SIZE) st = stats_blocks m ?b (?b + n * BLOCK_SIZE) (tally m ?A st)"
    by (subst stats_blocks.simps) (simp add: add.assoc)
  also have "\<dots> = ret (tally m ?B (tally m ?A st))" by (rule Suc.IH [OF small_layout_tail [OF l refl]]) simp
  also have "tally m ?B (tally m ?A st) = tally m (?A \<union> ?B) st"
  proof (rule tally_Un)
    show "finite ?A" by (rule layout_finite [OF d(3)])
    show "finite ?B" using small_layout_finite [OF l] by simp
  qed (auto simp: block_objects_def)
  also have "?A \<union> ?B = S"
  proof -
    have "b \<le> x" if "x \<in> S" for x using l that by (simp only: small_layout_def)
    then show ?thesis by (auto simp: block_objects_def)
  qed
  finally show ?case .
qed

section \<open>Chunks\<close>

definition live_objects :: "addr \<Rightarrow> cell list \<Rightarrow> addr set" where
  "live_objects s cs = (\<lambda>(a, c). a + 16) ` {(a, c) \<in> set (placed s cs). cell_allocated c}"

lemma live_objects_Cons:
  "live_objects s (c # cs) = (if cell_allocated c then {s + 16} else {}) \<union> live_objects (s + cell_total c) cs"
  by (auto simp: live_objects_def)

lemma live_objects_ge: "x \<in> live_objects s cs \<Longrightarrow> s + 16 \<le> x"
  by (auto simp: live_objects_def placed_in_split)

lemma live_objects_finite [simp]: "finite (live_objects s cs)"
  by (induction cs arbitrary: s) (simp_all add: live_objects_Cons, simp add: live_objects_def)

lemma stats_chunks_spec:
  assumes "chunk_list m self s (xs @ cs)" and "sized st"
  shows "stats_chunks m (if cs = [] then 0 else s + extent xs) st = ret (tally m (live_objects (s + extent xs) cs) st)"
  using assms
proof (induction cs arbitrary: xs st)
  case Nil
  then show ?case by (simp add: stats_chunks.simps live_objects_def tally_empty)
next
  case (Cons c cs)
  let ?a = "s + extent xs" and ?n = "s + extent (xs @ [c])"
  note l = chunk_list_split [OF Cons.prems(1)]
  let ?st = "if cell_allocated c then count_object m (Chunk_object ?a) st else st"
  have size: "16 \<le> Object_size m (?a + 16)" using l(1) by (simp add: cell_at_def Chunk_osize_def)
  let ?A = "if cell_allocated c then {?a + 16} else {}"
  have st: "?st = tally m ?A st"
    using count_object_tally [OF size] Cons.prems(2) by (simp add: Chunk_object_def tally_empty)
  then have sz: "sized ?st" by (simp only: sized_tally)
  have "stats_chunks m ?a st = stats_chunks m (if cs = [] then 0 else ?n) ?st"
    using l(1,2,5) by (subst stats_chunks.simps) (simp add: cell_at_def add.assoc)
  also have "\<dots> = ret (tally m (live_objects ?n cs) ?st)" using Cons.IH [of "xs @ [c]"] Cons.prems(1) sz by simp
  also have "tally m (live_objects ?n cs) ?st = tally m (?A \<union> live_objects ?n cs) st"
    unfolding st using live_objects_ge [of "?a + 16" ?n cs] l(1)
    by (intro tally_Un) (auto simp: live_objects_finite cell_at_def cell_total_def)
  finally show ?case by (simp add: live_objects_Cons add.assoc)
qed

section \<open>The counters do not wrap\<close>

lemma small_total:
  assumes l: "small_layout m b n S"
  shows "card S \<le> n * BLOCK_SIZE" and "(\<Sum>x\<in>S. Object_size m x - 16) \<le> n * BLOCK_SIZE * 8192"
proof -
  have "S \<subseteq> {b..<b + n * BLOCK_SIZE}" using l by (auto simp only: small_layout_def atLeastLessThan_iff)
  from card_mono [OF _ this] show c: "card S \<le> n * BLOCK_SIZE" by simp
  have "Object_size m x - 16 \<le> 8192" if x: "x \<in> S" for x
  proof -
    obtain c where c: "c \<in> set (blocks_from b n)" "x \<in> block_objects S c" using small_layout_object [OF l x] by metis
    then show ?thesis using layoutD(4) [OF small_layoutD(3) [OF l c(1)] c(2)] by simp
  qed
  then have "(\<Sum>x\<in>S. Object_size m x - 16) \<le> card S * 8192" using sum_bounded_above [of S "\<lambda>x. Object_size m x - 16" 8192] by simp
  also have "\<dots> \<le> n * BLOCK_SIZE * 8192" using c by (rule mult_le_mono1)
  finally show "(\<Sum>x\<in>S. Object_size m x - 16) \<le> n * BLOCK_SIZE * 8192" .
qed

lemma large_total:
  assumes "chunk_seg m s cs nx"
  shows "card (live_objects s cs) \<le> extent cs \<and> (\<Sum>x\<in>live_objects s cs. Object_size m x - 16) \<le> extent cs"
  using assms
proof (induction cs arbitrary: s)
  case Nil
  then show ?case by (simp add: live_objects_def)
next
  case (Cons c cs)
  let ?R = "live_objects (s + cell_total c) cs"
  have c: "cell_at m s c" and r: "chunk_seg m (s + cell_total c) cs nx" using Cons.prems by auto
  have size: "Object_size m (s + 16) = cell_size c" "16 \<le> cell_size c" using c by (simp_all add: cell_at_def Chunk_osize_def)
  have "s + 16 \<notin> ?R" using live_objects_ge [of "s + 16" "s + cell_total c" cs] size(2) by (auto simp: cell_total_def)
  then show ?case using Cons.IH [OF r] size by (auto simp: live_objects_Cons cell_total_def)
qed

text \<open>What the three functions return.\<close>

definition objects_bytes :: "mem \<Rightarrow> addr set \<Rightarrow> nat" where
  "objects_bytes m A = (\<Sum>x\<in>A. Object_size m x - 16)"

lemma heap_stats_spec:
  assumes ok: "gc_ok g n S K cs"
  defines "L \<equiv> large_nodes (shape_of g n S cs)"
  shows "GC_small_heap_stats g = ret (card S, objects_bytes (heap g) S)"
    and "GC_large_heap_stats g = ret (card L, objects_bytes (heap g) L)"
    and "GC_get_heap_usage g = ret (objects_bytes (heap g) S + objects_bytes (heap g) L)"
    and "objects_bytes (heap g) L \<le> large_heap_size (global g)" and "GC_get_memory_use g \<le> memory_limit (global g)"
proof -
  note h = heap_okD [OF ok [unfolded gc_ok_def, THEN conjunct2, THEN conjunct2]]
  have sp: "small_heap_size (global g) = n * BLOCK_SIZE" "small_heap_stop (global g) = small_heap_start (global g) + n * BLOCK_SIZE"
    "n * BLOCK_SIZE + large_heap_size (global g) \<le> memory_limit (global g)" "memory_limit (global g) < 2 ^ 46"
    using h(7) by (simp_all add: space_ok_def)
  have l: "chunk_list (heap g) (large_chunk_list (global g)) (large_heap_start (global g)) cs"
    "large_heap_size (global g) = extent cs"
    using h(1) by (simp_all add: large_wf_def)
  have L: "L = live_objects (large_heap_start (global g)) cs" by (simp add: L_def large_nodes_def live_objects_def)
  note st = small_total [OF h(5)]
  have seg: "chunk_seg (heap g) (large_heap_start (global g)) cs 0" using l(1) by (simp add: chunk_list_def)
  note lt = large_total [OF seg, folded L]
  have b: "card S < 2 ^ 46" "card L < 2 ^ 46" "objects_bytes (heap g) S < 2 ^ 60" "objects_bytes (heap g) L < 2 ^ 46"
    using st lt sp l(2) by (simp_all add: objects_bytes_def)
  have z: "sized (0, 0)" by (simp add: sized_def)
  show s: "GC_small_heap_stats g = ret (card S, objects_bytes (heap g) S)"
    using stats_blocks_spec [OF h(5) z] b(1,3) by (simp add: GC_small_heap_stats_def sp(2) tally_def objects_bytes_def)
  have "cs \<noteq> []" "cl_first (large_chunk_list (global g)) = large_heap_start (global g)" using l(1) by (simp_all add: chunk_list_def)
  then show t: "GC_large_heap_stats g = ret (card L, objects_bytes (heap g) L)"
    using stats_chunks_spec [of "heap g" "large_chunk_list (global g)" "large_heap_start (global g)" "[]" cs "(0, 0)"] l(1) z b(2,4)
    by (simp add: GC_large_heap_stats_def tally_def objects_bytes_def L)
  show "GC_get_heap_usage g = ret (objects_bytes (heap g) S + objects_bytes (heap g) L)"
    using b(3,4) by (simp add: GC_get_heap_usage_def s t size_add_def)
  show "objects_bytes (heap g) L \<le> large_heap_size (global g)" using lt l(2) by (simp add: objects_bytes_def)
  show "GC_get_memory_use g \<le> memory_limit (global g)"
    using sp by (simp add: GC_get_memory_use_def GlobalAllocator_heapSize_def size_add_def)
qed

section \<open>Properties\<close>

text \<open>
  C38. The statistics are exact. In every state of the invariant \<open>GC_small_heap_stats\<close> counts each small object once, with the bytes of
  its payload, \<open>GC_large_heap_stats\<close> each allocated chunk, and \<open>GC_get_heap_usage\<close> is the sum of both; no counter wraps. The large
  objects fit the large heap, and what the library uses stays within the memory limit.
\<close>

theorem heap_stats_exact:
  assumes "gc_ok g n S K cs"
  defines "L \<equiv> large_nodes (shape_of g n S cs)" and "bytes \<equiv> \<lambda>A. \<Sum>x\<in>A. Object_size (heap g) x - sizeof_Object"
  shows "GC_small_heap_stats g = ret (card S, bytes S) \<and> GC_large_heap_stats g = ret (card L, bytes L) \<and>
    GC_get_heap_usage g = ret (bytes S + bytes L) \<and> bytes L \<le> large_heap_size (global g) \<and>
    GC_get_memory_use g \<le> memory_limit (global g)"
  using heap_stats_spec [OF assms(1)] by (simp add: L_def bytes_def objects_bytes_def sizeof_Object_def)

theorem heap_stats_exact_witness:
  "\<exists>g g' p. sample_init = ret g \<and> GC_malloc_with_atomic (sample_program 4096 4104) g 100 0 = ret (g', p) \<and>
     GC_small_heap_stats g' = ret (1, 104) \<and> GC_large_heap_stats g' = ret (0, 0) \<and> GC_get_heap_usage g' = ret 104"
proof -
  obtain g where g: "sample_init = ret g" "gc_ok g 128 {} {} [free_cell 4194288]" "current g = 64" "items (local_allocators g) = [64]"
    "memory_limit (global g) = 2 ^ 30" "free_space_divisor (global g) = 3" "allocated_bytes_since_collect (global g) = 0"
    by (rule sample_started)
  have q: "quiet g" "current g \<in> set (items (local_allocators g))" using quiet_start [OF g(2,6,7)] g(3,4) by simp_all
  have "\<not> full (global g)" by (rule not_full_start [OF g(2,5)])
  with malloc_small_spec [OF g(2) q, of 100 0 "sample_program 4096 4104"] obtain g1 c n where
    m: "GC_malloc_with_atomic (sample_program 4096 4104) g 100 0 = ret (g1, c + 16)" "gc_ok g1 n {c} {c} [free_cell 4194288]"
    "fresh_object g g1 c (rounded 100) 0 {}" by auto
  have "Object_size (heap g1) c = 120" using m(3) by (simp add: fresh_object_def rounded_def ROUND_TO_NEXT_MULTIPLE_def)
  moreover have "large_nodes (shape_of g1 n {c} [free_cell 4194288]) = {}" by (simp add: large_nodes_def free_cell_def)
  ultimately have "GC_small_heap_stats g1 = ret (1, 104) \<and> GC_large_heap_stats g1 = ret (0, 0) \<and> GC_get_heap_usage g1 = ret 104"
    using heap_stats_exact [OF m(2)] by (simp add: sizeof_Object_def)
  with g(1) m(1) show ?thesis by blast
qed

end
