(* ===== verification/Lifecycle.thy ===== *)
theory Lifecycle
  imports Array
begin

text \<open>
  The structs of the library live in the C heap, behind the static pointers of \<open>src/immix.c\<close>. This theory follows who
  owns what there, from \<open>GC_init\<close> over threads and growing tables to \<open>GC_deinit\<close>: the allocations and releases of
  \<open>src/immix.c\<close>, \<open>include/array.h\<close> and \<open>src/hash.c\<close>, without the contents of the structs, which \<open>Immix\<close> and the theories below it
  model. Only the array of the local allocators is here too, since \<open>GC_deinit\<close> walks it.

  The addresses \<open>malloc\<close>, \<open>calloc\<close> and \<open>realloc\<close> return are parameters, \<open>0\<close> for \<open>NULL\<close>.
\<close>

section \<open>The C heap\<close>

text \<open>
  \<open>live\<close> are the blocks that were allocated and not freed, \<open>thread_key\<close> tells whether the key of the threads' allocators exists; the
  other fields are the pointers of the program.
\<close>

record lifecycle =
  live :: "addr set"
  thread_key :: bool
  mutex_ptr :: addr
  global_allocator_ptr :: addr
  local_allocators_ptr :: addr
  collector_ptr :: addr
  finalizers_ptr :: addr
  entries_ptr :: addr
  buffer_ptr :: addr
  threads :: Array

text \<open>The idiom of the code: allocate, and stop when there is no memory.\<close>

definition checked_malloc :: "addr \<Rightarrow> string \<Rightarrow> lifecycle \<Rightarrow> lifecycle prog" where
  "checked_malloc p msg s = (if p = 0 then abort_with msg else ret (s\<lparr>live := insert p (live s)\<rparr>))"

definition libc_free :: "addr \<Rightarrow> lifecycle \<Rightarrow> lifecycle prog" where
  "libc_free p s =
     (if p = 0 then ret s
      else if p \<in> live s then ret (s\<lparr>live := live s - {p}\<rparr>)
      else fault ''free(): invalid pointer'')"

text \<open>\<open>realloc\<close> of the buffer of the array, which may move it.\<close>

definition realloc_buffer :: "addr \<Rightarrow> lifecycle \<Rightarrow> lifecycle prog" where
  "realloc_buffer p s =
     (if buffer_ptr s \<noteq> 0 \<and> buffer_ptr s \<notin> live s then fault ''realloc(): invalid pointer''
      else if p = 0 then abort_with ''GC: realloc''
      else ret (s\<lparr>live := insert p (live s - {buffer_ptr s}), buffer_ptr := p\<rparr>))"

section \<open>Initialisation\<close>

text \<open>What the allocations of \<open>GC_init\<close> return, in the order of the calls.\<close>

record requests =
  new_mutex :: addr
  new_global_allocator :: addr
  new_finalizers :: addr
  new_entries :: addr
  new_local_allocators :: addr
  new_buffer :: addr
  new_collector :: addr
  new_thread :: addr

text \<open>\<open>GC_Hash_create\<close> does not check the first of its two allocations before it writes to it.\<close>

definition create_finalizers :: "requests \<Rightarrow> lifecycle \<Rightarrow> lifecycle prog" where
  "create_finalizers r s =
     (if new_finalizers r = 0 then fault ''self->entries''
      else let s = s\<lparr>live := insert (new_finalizers r) (live s), finalizers_ptr := new_finalizers r\<rparr>
           in pbind (checked_malloc (new_entries r) ''GC: calloc failed'' s) (\<lambda>s. ret (s\<lparr>entries_ptr := new_entries r\<rparr>)))"

definition create_local_allocators :: "(nat \<Rightarrow> addr) \<Rightarrow> requests \<Rightarrow> lifecycle \<Rightarrow> lifecycle prog" where
  "create_local_allocators junk r s =
     pbind (checked_malloc (new_local_allocators r) ''malloc failed'' s) (\<lambda>s.
     pbind (realloc_buffer (new_buffer r) (s\<lparr>local_allocators_ptr := new_local_allocators r, buffer_ptr := 0\<rparr>)) (\<lambda>s.
     pbind (Array_init junk (threads s) 16) (\<lambda>ary. ret (s\<lparr>threads := ary\<rparr>))))"

text \<open>\<open>GC_init_thread\<close>: a local allocator, and room for it in the array; \<open>buf\<close> is what a \<open>realloc\<close> of the buffer returns.\<close>

definition start_thread :: "(nat \<Rightarrow> addr) \<Rightarrow> addr \<Rightarrow> addr \<Rightarrow> lifecycle \<Rightarrow> lifecycle prog" where
  "start_thread junk p buf s =
     pbind (checked_malloc p ''malloc failed'' s) (\<lambda>s.
     pbind (if ary_cursor (threads s) = ary_limit (threads s) then realloc_buffer buf s else ret s) (\<lambda>s.
     pbind (Array_push junk (threads s) p) (\<lambda>ary. ret (s\<lparr>threads := ary\<rparr>))))"

text \<open>\<open>GC_init\<close>; \<open>err\<close> is what \<open>pthread_key_create\<close> returns. The array is not full when the first thread starts.\<close>

definition start_library :: "(nat \<Rightarrow> addr) \<Rightarrow> requests \<Rightarrow> nat \<Rightarrow> lifecycle \<Rightarrow> lifecycle prog" where
  "start_library junk r err s =
     pbind (checked_malloc (new_mutex r) ''malloc failed'' s) (\<lambda>s.
     pbind (checked_malloc (new_global_allocator r) ''malloc failed'' (s\<lparr>mutex_ptr := new_mutex r\<rparr>)) (\<lambda>s.
     pbind (create_finalizers r (s\<lparr>global_allocator_ptr := new_global_allocator r\<rparr>)) (\<lambda>s.
     if err \<noteq> 0 then abort_with ''malloc failed''
     else pbind (create_local_allocators junk r (s\<lparr>thread_key := True\<rparr>)) (\<lambda>s.
     pbind (checked_malloc (new_collector r) ''malloc failed'' s) (\<lambda>s.
     start_thread junk (new_thread r) 0 (s\<lparr>collector_ptr := new_collector r\<rparr>))))))"

section \<open>While the program runs\<close>

text \<open>\<open>GC_deinit_thread\<close>, the destructor of the thread's key.\<close>

definition end_thread :: "addr \<Rightarrow> addr \<Rightarrow> lifecycle \<Rightarrow> lifecycle prog" where
  "end_thread past p s = libc_free p (s\<lparr>threads := Array_delete past (threads s) p\<rparr>)"

text \<open>The table of finalizers moves to a new array of entries (\<open>resize\<close>).\<close>

definition move_entries :: "addr \<Rightarrow> lifecycle \<Rightarrow> lifecycle prog" where
  "move_entries p s =
     pbind (checked_malloc p ''GC: calloc failed'' s) (\<lambda>s.
     libc_free (entries_ptr s) (s\<lparr>entries_ptr := p\<rparr>))"

section \<open>The end\<close>

definition Hash_free :: "lifecycle \<Rightarrow> lifecycle prog" where
  "Hash_free s = pbind (libc_free (entries_ptr s) s) (\<lambda>s. libc_free (finalizers_ptr s) s)"

definition GC_deinit :: "lifecycle \<Rightarrow> lifecycle prog" where
  "GC_deinit s =
     pbind (libc_free (collector_ptr s) s) (\<lambda>s.
     let s = s\<lparr>collector_ptr := 0, thread_key := False\<rparr> in
     pbind (Array_each (threads s) libc_free s) (\<lambda>s.
     pbind (libc_free (local_allocators_ptr s) s) (\<lambda>s.
     pbind (Hash_free s) (\<lambda>s.
     let s = s\<lparr>finalizers_ptr := 0\<rparr> in
     pbind (libc_free (global_allocator_ptr s) s) (\<lambda>s.
     let s = s\<lparr>global_allocator_ptr := 0\<rparr> in
     pbind (libc_free (mutex_ptr s) s) (\<lambda>s.
     ret (s\<lparr>mutex_ptr := 0\<rparr>)))))))"

section \<open>Runs\<close>

text \<open>
  A thread ends once, while the key of the threads exists, and it is one that started; \<open>malloc\<close> and \<open>calloc\<close> return blocks that are not in use, \<open>realloc\<close> the old block
  or such a one.
\<close>

inductive life_step :: "lifecycle \<Rightarrow> lifecycle \<Rightarrow> bool" where
  start: "p \<notin> live s \<Longrightarrow> buf \<notin> live s - {buffer_ptr s} \<Longrightarrow> buf \<noteq> p \<Longrightarrow> ary_capacity (threads s) < 2 ^ 59 \<Longrightarrow>
    start_thread junk p buf s = ret s' \<Longrightarrow> life_step s s'"
| end_: "thread_key s \<Longrightarrow> p \<in> set (items (threads s)) \<Longrightarrow> end_thread past p s = ret s' \<Longrightarrow> life_step s s'"
| move: "p \<notin> live s \<Longrightarrow> move_entries p s = ret s' \<Longrightarrow> life_step s s'"

inductive life_run :: "lifecycle \<Rightarrow> lifecycle \<Rightarrow> bool" for s0 where
  refl: "life_run s0 s0"
| step: "life_run s0 s \<Longrightarrow> life_step s s' \<Longrightarrow> life_run s0 s'"

section \<open>Ownership\<close>

text \<open>The blocks the library owns, each named once; \<open>L\<close> is what belongs to others.\<close>

definition owned_ptrs :: "lifecycle \<Rightarrow> addr list" where
  "owned_ptrs s = [mutex_ptr s, global_allocator_ptr s, local_allocators_ptr s, collector_ptr s, finalizers_ptr s, entries_ptr s,
     buffer_ptr s] @ items (threads s)"

definition owns :: "addr set \<Rightarrow> lifecycle \<Rightarrow> bool" where
  "owns L s \<longleftrightarrow> array_wf (threads s) \<and> distinct (owned_ptrs s) \<and> 0 \<notin> set (owned_ptrs s) \<and> set (owned_ptrs s) \<inter> L = {} \<and>
     live s = set (owned_ptrs s) \<union> L"

lemma checked_malloc_ret: "checked_malloc p msg s = ret s' \<longleftrightarrow> p \<noteq> 0 \<and> s' = s\<lparr>live := insert p (live s)\<rparr>"
  by (auto simp: checked_malloc_def)

lemma libc_free_ok: "p \<noteq> 0 \<Longrightarrow> p \<in> live s \<Longrightarrow> libc_free p s = ret (s\<lparr>live := live s - {p}\<rparr>)"
  by (simp add: libc_free_def)

lemma start_thread_owns:
  assumes o: "owns L s" and p: "p \<notin> live s" and buf: "buf \<notin> live s - {buffer_ptr s}" "buf \<noteq> p"
    and cap: "ary_capacity (threads s) < 2 ^ 59" and r: "start_thread junk p buf s = ret s'"
  shows "owns L s'"
proof -
  let ?s1 = "s\<lparr>live := insert p (live s)\<rparr>"
  have wf: "array_wf (threads s)" using o by (simp add: owns_def)
  obtain ary where ary: "Array_push junk (threads s) p = ret ary" "array_wf ary" "items ary = items (threads s) @ [p]"
    using Array_push_ok [OF wf cap] by blast
  show ?thesis
  proof (cases "ary_cursor (threads s) = ary_limit (threads s)")
    case True
    moreover have "buffer_ptr s \<in> live s" using o by (simp add: owns_def owned_ptrs_def)
    ultimately have "p \<noteq> 0 \<and> buf \<noteq> 0 \<and> s' = ?s1\<lparr>live := insert buf (insert p (live s) - {buffer_ptr s}), buffer_ptr := buf, threads := ary\<rparr>"
      using r ary(1) by (auto simp: start_thread_def checked_malloc_def realloc_buffer_def split: if_splits)
    then show ?thesis using o p buf ary(2,3) by (auto simp: owns_def owned_ptrs_def)
  next
    case False
    then have "p \<noteq> 0 \<and> s' = ?s1\<lparr>threads := ary\<rparr>"
      using r ary(1) by (auto simp: start_thread_def checked_malloc_def split: if_splits)
    then show ?thesis using o p ary(2,3) by (auto simp: owns_def owned_ptrs_def)
  qed
qed

lemma end_thread_owns:
  assumes o: "owns L s" and p: "p \<in> set (items (threads s))"
  shows "\<exists>s'. end_thread past p s = ret s' \<and> owns L s'"
proof -
  let ?ary = "Array_delete past (threads s) p"
  have wf: "array_wf (threads s)" and d: "distinct (items (threads s))" using o by (auto simp: owns_def owned_ptrs_def)
  note del = Array_delete_ok [OF wf, of past p]
  have "p \<noteq> 0" "p \<in> live s" using o p by (auto simp: owns_def owned_ptrs_def)
  then have "end_thread past p s = ret (s\<lparr>threads := ?ary, live := live s - {p}\<rparr>)" by (simp add: end_thread_def libc_free_def)
  moreover have "owns L (s\<lparr>threads := ?ary, live := live s - {p}\<rparr>)"
    using o p d del(1) by (auto simp: owns_def owned_ptrs_def del(2))
  ultimately show ?thesis by blast
qed

lemma move_entries_owns:
  assumes o: "owns L s" and p: "p \<notin> live s" and r: "move_entries p s = ret s'"
  shows "owns L s'"
proof -
  have e: "entries_ptr s \<noteq> 0" "entries_ptr s \<in> live s" using o by (auto simp: owns_def owned_ptrs_def)
  then have "p \<noteq> 0 \<and> s' = s\<lparr>live := insert p (live s) - {entries_ptr s}, entries_ptr := p\<rparr>"
    using r by (auto simp: move_entries_def checked_malloc_def libc_free_def split: if_splits)
  then show ?thesis using o p e by (auto simp: owns_def owned_ptrs_def)
qed

lemma life_step_owns:
  assumes "life_step s s'" and o: "owns L s"
  shows "owns L s'"
  using assms(1)
proof cases
  case (start p buf junk)
  show ?thesis by (rule start_thread_owns [OF o start])
next
  case (end_ p past)
  from end_thread_owns [OF o end_(2), of past] end_(3) show ?thesis by auto
next
  case (move p)
  show ?thesis by (rule move_entries_owns [OF o move])
qed

lemma life_run_owns: "life_run s0 s \<Longrightarrow> owns L s0 \<Longrightarrow> owns L s"
proof (induction rule: life_run.induct)
  case (step s s')
  show ?case by (rule life_step_owns [OF step.hyps(2) step.IH [OF step.prems]])
qed

text \<open>Every request is answered by blocks of their own.\<close>

definition answers :: "requests \<Rightarrow> addr list" where
  "answers r = [new_mutex r, new_global_allocator r, new_finalizers r, new_entries r, new_local_allocators r, new_buffer r,
     new_collector r, new_thread r]"

lemma start_library_owns:
  assumes "distinct (answers r)" "0 \<notin> set (answers r) \<union> live s0" "set (answers r) \<inter> live s0 = {}"
  shows "\<exists>s. start_library junk r 0 s0 = ret s \<and> owns (live s0) s \<and> items (threads s) = [new_thread r]"
proof -
  obtain a where a: "Array_init junk (threads s0) 16 = ret a" "array_wf a" "items a = []" "ary_capacity a = 16"
    "ary_cursor a \<noteq> ary_limit a"
    using Array_init_ok [of 16 junk "threads s0"] by (auto simp: array_wf_def items_def)
  obtain ary where ary: "Array_push junk a (new_thread r) = ret ary" "array_wf ary" "items ary = [new_thread r]"
    using Array_push_ok [OF a(2), of junk "new_thread r"] a(3,4) by auto
  show ?thesis
    using assms a ary
    by (auto simp: start_library_def checked_malloc_def create_finalizers_def create_local_allocators_def realloc_buffer_def
          start_thread_def answers_def owns_def owned_ptrs_def)
qed

section \<open>What is left after the end\<close>

lemma each_free:
  "distinct ps \<Longrightarrow> 0 \<notin> set ps \<Longrightarrow> set ps \<subseteq> live s \<Longrightarrow> each_list libc_free ps s = ret (s\<lparr>live := live s - set ps\<rparr>)"
proof (induction ps arbitrary: s)
  case (Cons p ps)
  have "set ps \<subseteq> live (s\<lparr>live := live s - {p}\<rparr>)" using Cons.prems by auto
  with Cons show ?case by (simp add: libc_free_ok Diff_insert2 [symmetric])
qed simp

lemma GC_deinit_owns:
  assumes o: "owns L s"
  shows "\<exists>s'. GC_deinit s = ret s' \<and> live s' = insert (buffer_ptr s) L \<and> buffer_ptr s' = buffer_ptr s \<and>
    collector_ptr s' = 0 \<and> finalizers_ptr s' = 0 \<and> global_allocator_ptr s' = 0 \<and> mutex_ptr s' = 0 \<and>
    \<not> thread_key s'"
proof -
  let ?s1 = "s\<lparr>live := live s - {collector_ptr s}, collector_ptr := 0, thread_key := False\<rparr>"
  have wf: "array_wf (threads s)" using o by (simp add: owns_def)
  have "each_list libc_free (items (threads s)) ?s1 = ret (?s1\<lparr>live := live s - {collector_ptr s} - set (items (threads s))\<rparr>)"
    using o by (subst each_free) (auto simp: owns_def owned_ptrs_def)
  then show ?thesis
    using o by (auto simp: GC_deinit_def Hash_free_def Let_def libc_free_def Array_each_ok [OF wf] owns_def owned_ptrs_def)
qed

lemma deinit_after_run:
  assumes "distinct (answers r)" "0 \<notin> set (answers r) \<union> live s0" "set (answers r) \<inter> live s0 = {}"
  shows "\<exists>s1. start_library junk r 0 s0 = ret s1 \<and> (\<forall>s. life_run s1 s \<longrightarrow> buffer_ptr s \<notin> live s0 \<and>
    (\<exists>s'. GC_deinit s = ret s' \<and> live s' = insert (buffer_ptr s) (live s0) \<and>
      [collector_ptr s', finalizers_ptr s', global_allocator_ptr s', mutex_ptr s'] = [0, 0, 0, 0] \<and> \<not> thread_key s'))"
proof -
  obtain s1 where s1: "start_library junk r 0 s0 = ret s1" "owns (live s0) s1"
    using start_library_owns [OF assms] by blast
  have "buffer_ptr s \<notin> live s0 \<and> (\<exists>s'. GC_deinit s = ret s' \<and> live s' = insert (buffer_ptr s) (live s0) \<and>
      [collector_ptr s', finalizers_ptr s', global_allocator_ptr s', mutex_ptr s'] = [0, 0, 0, 0] \<and> \<not> thread_key s')" if "life_run s1 s" for s
  proof
    have o: "owns (live s0) s" using that s1(2) by (rule life_run_owns)
    show "buffer_ptr s \<notin> live s0" using o by (auto simp: owns_def owned_ptrs_def)
    show "\<exists>s'. GC_deinit s = ret s' \<and> live s' = insert (buffer_ptr s) (live s0) \<and>
      [collector_ptr s', finalizers_ptr s', global_allocator_ptr s', mutex_ptr s'] = [0, 0, 0, 0] \<and> \<not> thread_key s'"
      using GC_deinit_owns [OF o] by auto
  qed
  with s1(1) show ?thesis by blast
qed

lemma create_finalizers_unchecked:
  assumes "new_finalizers r = 0" "new_mutex r \<noteq> 0" "new_global_allocator r \<noteq> 0"
  shows "start_library junk r err s = fault ''self->entries''"
  using assms by (simp add: start_library_def checked_malloc_def create_finalizers_def)

text \<open>
  C40. Whatever a program does between \<open>GC_init\<close> and \<open>GC_deinit\<close> -- threads that start and end, tables that grow -- \<open>GC_deinit\<close>
  frees no block twice and none that is not the library's, clears the pointers to the structs it freed, and gives back every block
  the library took but one: the buffer of the array of local allocators stays allocated.
\<close>

theorem deinit_leaks_only_buffer:
  assumes "distinct (answers r)" "0 \<notin> set (answers r) \<union> live s0" "set (answers r) \<inter> live s0 = {}"
  shows "\<exists>s1. start_library junk r 0 s0 = ret s1 \<and> (\<forall>s. life_run s1 s \<longrightarrow> buffer_ptr s \<notin> live s0 \<and>
    (\<exists>s'. GC_deinit s = ret s' \<and> live s' = insert (buffer_ptr s) (live s0) \<and>
      [collector_ptr s', finalizers_ptr s', global_allocator_ptr s', mutex_ptr s'] = [0, 0, 0, 0] \<and> \<not> thread_key s'))"
  by (rule deinit_after_run [OF assms])

theorem deinit_leaks_only_buffer_witness:
  "\<exists>s1 s2. start_library (\<lambda>_. 7) \<lparr>new_mutex = 1, new_global_allocator = 2, new_finalizers = 3, new_entries = 4,
        new_local_allocators = 5, new_buffer = 6, new_collector = 7, new_thread = 8\<rparr> 0
      \<lparr>live = {100}, thread_key = False, mutex_ptr = 0, global_allocator_ptr = 0, local_allocators_ptr = 0, collector_ptr = 0, finalizers_ptr = 0,
       entries_ptr = 0, buffer_ptr = 0, threads = \<lparr>ary_capacity = 0, ary_buffer = [], ary_cursor = 0, ary_limit = 0\<rparr>\<rparr> = ret s1 \<and>
    start_thread (\<lambda>_. 7) 9 0 s1 = ret s2 \<and> live s2 = {1, 2, 3, 4, 5, 6, 7, 8, 9, 100} \<and>
    (\<exists>s3. GC_deinit s2 = ret s3 \<and> live s3 = {6, 100})"
proof -
  let ?r = "\<lparr>new_mutex = 1, new_global_allocator = 2, new_finalizers = 3, new_entries = 4,
        new_local_allocators = 5, new_buffer = 6, new_collector = 7, new_thread = 8\<rparr>"
  let ?s0 = "\<lparr>live = {100}, thread_key = False, mutex_ptr = 0, global_allocator_ptr = 0, local_allocators_ptr = 0, collector_ptr = 0, finalizers_ptr = 0,
       entries_ptr = 0, buffer_ptr = 0, threads = \<lparr>ary_capacity = 0, ary_buffer = [], ary_cursor = 0, ary_limit = 0\<rparr>\<rparr>"
  obtain s1 where s1: "start_library (\<lambda>_. 7) ?r 0 ?s0 = ret s1"
    "\<forall>s. life_run s1 s \<longrightarrow> buffer_ptr s \<notin> live ?s0 \<and>
    (\<exists>s'. GC_deinit s = ret s' \<and> live s' = insert (buffer_ptr s) (live ?s0) \<and>
      [collector_ptr s', finalizers_ptr s', global_allocator_ptr s', mutex_ptr s'] = [0, 0, 0, 0] \<and> \<not> thread_key s')"
    using deinit_leaks_only_buffer [of ?r ?s0 "\<lambda>_. 7"] by (auto simp: answers_def)
  have f: "buffer_ptr s1 = 6" "live s1 = {1, 2, 3, 4, 5, 6, 7, 8, 100}" "ary_capacity (threads s1) = 16"
      "ary_cursor (threads s1) = 1" "ary_limit (threads s1) = 16"
    using s1(1) by (auto simp: pbind_eq_ret start_library_def checked_malloc_def create_finalizers_def create_local_allocators_def
        realloc_buffer_def start_thread_def Array_init_def Array_resize_def realloc_words_def Array_size_def Array_push_def Let_def split: if_splits)
  obtain s2 where s2: "start_thread (\<lambda>_. 7) 9 0 s1 = ret s2" "live s2 = insert 9 (live s1)" "buffer_ptr s2 = 6"
    using f by (auto simp: start_thread_def checked_malloc_def Array_push_def)
  have "life_step s1 s2" by (rule life_step.start [OF _ _ _ _ s2(1)]) (use f in auto)
  then have "life_run s1 s2" by (rule life_run.step [OF life_run.refl])
  with s1(2) s2(3) have "\<exists>s3. GC_deinit s2 = ret s3 \<and> live s3 = {6, 100}" by fastforce
  moreover have "live s2 = {1, 2, 3, 4, 5, 6, 7, 8, 9, 100}" using s2(2) f(2) by auto
  ultimately show ?thesis using s1(1) s2(1) by blast
qed

end
