(* ===== verification/Defects.thy ===== *)
theory Defects
  imports Interface
begin

text \<open>
  Where the code does not do what it means to: a free block that leaves the allocator's \<open>next\<close> hole in place, a request
  whose rounded size is zero, an option that makes the collection trigger divide by zero, and an initial heap beyond the
  memory limit.
\<close>

section \<open>A stale hole\<close>

lemma initCursor_free:
  assumes fl: "block_queue (heap g) (free_list (global g)) (b # bs)" and rl: "block_queue (heap g) (recyclable_list (global g)) []"
    and free: "Block_isFree (heap g) b"
  shows "\<exists>g'. LocalAllocator_initCursor collect g self = ret g' \<and> heap g' = heap g \<and>
    locals g' self = (locals g self)\<lparr>la_block := b, la_cursor := b + 256, la_limit := b + 32768\<rparr>"
proof -
  have b: "b \<noteq> 0" using fl by (auto simp: block_queue_def is_block_def)
  have r: "BlockList_shift (recyclable_list (global g)) (heap g) = (recyclable_list (global g), 0)"
    using BlockList_shift_queue [OF rl] by simp
  obtain bl where f: "BlockList_shift (free_list (global g)) (heap g) = (bl, b)"
    using BlockList_shift_queue [OF fl] by auto
  show ?thesis
    using b free r f
    by (simp add: LocalAllocator_initCursor_def GlobalAllocator_nextBlock_def shift_recyclable_def shift_free_def upd_global_def
        GC_lock_def GC_unlock_def Let_def upd_local_def Block_start_def Block_stop_def)
qed

lemma stale_hole_aborts:
  assumes "la_next (locals g self) = h" "h \<noteq> 0" "la_block (locals g self) = b" "\<not> Block_contains b h"
    and "la_cursor (locals g self) = la_limit (locals g self)" and "0 < sz" and "h + sz \<le> Hole_limit (heap g) h"
  shows "LocalAllocator_tryAllocateSmall collect g self sz = Some (Inl (Assertion ''Block_contains(block, object)''))"
proof -
  let ?l = "(locals g self)\<lparr>la_cursor := h, la_limit := Hole_limit (heap g) h, la_next := Hole_next (heap g) h\<rparr>"
  let ?g = "upd_local self (\<lambda>l. l\<lparr>la_cursor := h, la_limit := Hole_limit (heap g) h, la_next := Hole_next (heap g) h\<rparr>) g"
  have "LocalAllocator_tryAllocateSmall collect g self sz = LocalAllocator_tryAllocateSmall collect ?g self sz"
    using assms by (subst LocalAllocator_tryAllocateSmall.simps) (simp add: Let_def LocalAllocator_findNextHole_def)
  also have "\<dots> = Some (Inl (Assertion ''Block_contains(block, object)''))"
    using assms
    by (subst LocalAllocator_tryAllocateSmall.simps) (simp add: Let_def upd_local_def place_object_def Line_update_def guard_def pbind_def)
  finally show ?thesis .
qed

section \<open>Properties\<close>

text \<open>
  C28. A defect. \<open>initCursor\<close> resets \<open>next\<close> only when it gets a recyclable block. After a collection that leaves no recyclable
  block, an allocator that still had a hole \<open>h\<close> of its former block ahead is given the free block \<open>b\<close>, but keeps \<open>h\<close>; once
  \<open>b\<close> is used up, it allocates at \<open>h\<close> while it takes \<open>b\<close> for the block of the object, and the assertion of \<open>Line_update\<close>
  fails (a release build writes a line header outside the array instead). The initial value of \<open>next\<close> in \<open>GC_init_thread\<close>, memory fresh from
  \<open>malloc\<close>, has the same effect.
\<close>

theorem stale_next_hole:
  assumes "block_queue (heap g) (free_list (global g)) (b # bs)" and "block_queue (heap g) (recyclable_list (global g)) []"
    and "Block_isFree (heap g) b" and "la_next (locals g self) = h" "h \<noteq> 0" "\<not> Block_contains b h"
    and "0 < sz" "h + sz \<le> Hole_limit (heap g) h"
  shows "\<exists>g'. LocalAllocator_initCursor collect g self = ret g' \<and> la_block (locals g' self) = b \<and> la_next (locals g' self) = h \<and>
    LocalAllocator_tryAllocateSmall collect (upd_local self (\<lambda>l. l\<lparr>la_cursor := la_limit l\<rparr>) g') self sz =
      Some (Inl (Assertion ''Block_contains(block, object)''))"
proof -
  obtain g' where g': "LocalAllocator_initCursor collect g self = ret g'" "heap g' = heap g"
    "locals g' self = (locals g self)\<lparr>la_block := b, la_cursor := b + 256, la_limit := b + 32768\<rparr>"
    using initCursor_free [OF assms(1-3)] by blast
  let ?g = "upd_local self (\<lambda>l. l\<lparr>la_cursor := la_limit l\<rparr>) g'"
  have "LocalAllocator_tryAllocateSmall collect ?g self sz = Some (Inl (Assertion ''Block_contains(block, object)''))"
    by (rule stale_hole_aborts [of ?g self h b]) (use g' assms in \<open>simp_all add: upd_local_def\<close>)
  then show ?thesis using g' assms(4) by simp
qed

text \<open>Block 65536 is free; the hole from 131328 to 131584 belongs to the next block.\<close>

definition stale_state :: lheap where
  "stale_state =
     \<lparr>heap = (\<lambda>_. 0)(131329 := 2, 131330 := 2),
      global = sample_global\<lparr>free_list := \<lparr>bl_first = 65536, bl_last = 65536, bl_size = 1\<rparr>\<rparr>, is_collecting = True, lock_depth = 0,
      locals = (\<lambda>_. \<lparr>la_block = 131072, la_cursor = 0, la_limit = 0, la_next = 131328, overflow_block = 0, overflow_cursor = 0,
                     overflow_limit = 0\<rparr>)\<rparr>"

lemma stale_state_ok:
  "block_queue (heap stale_state) (free_list (global stale_state)) [65536]"
  "block_queue (heap stale_state) (recyclable_list (global stale_state)) []" "Block_isFree (heap stale_state) 65536"
  "la_next (locals stale_state 64) = 131328" "\<not> Block_contains 65536 131328" "Hole_limit (heap stale_state) 131328 = 131584"
  by (simp_all add: stale_state_def block_queue_def list_nodes_def Block_next_def load_8_bytes is_block_def sample_global_def
      Block_isFree_def Block_flag_def Block_contains_def Block_start_def Block_stop_def Hole_limit_def load.simps)

theorem stale_next_hole_witness:
  "\<exists>g'. LocalAllocator_initCursor ret stale_state 64 = ret g' \<and> la_block (locals g' 64) = 65536 \<and> la_next (locals g' 64) = 131328 \<and>
    LocalAllocator_tryAllocateSmall ret (upd_local 64 (\<lambda>l. l\<lparr>la_cursor := la_limit l\<rparr>) g') 64 16 =
      Some (Inl (Assertion ''Block_contains(block, object)''))"
  by (rule stale_next_hole [OF stale_state_ok(1-4) _ stale_state_ok(5)]) (simp_all add: stale_state_ok(6))

lemma round_wraps:
  assumes "2 ^ 64 - 7 \<le> sz" "sz < 2 ^ 64"
  shows "ROUND_TO_NEXT_MULTIPLE sz WORD_SIZE = 0"
proof -
  define d where "d = sz - (2 ^ 64 - 7)"
  have d: "sz = 2 ^ 64 - 7 + d" "d < 7" using assms by (simp_all add: d_def)
  have "sz + 8 = (d + 1) + 2 ^ 64" using d(1) by simp
  then have "size_add sz 8 = (d + 1) mod 2 ^ 64" unfolding size_add_def size_t_def by (simp only: mod_add_self2)
  also have "\<dots> = d + 1" using d(2) by simp
  finally have "size_add sz 8 = d + 1" .
  then show ?thesis using d(2) by (simp add: ROUND_TO_NEXT_MULTIPLE_def)
qed

text \<open>
  C29. A defect. A request for almost \<open>SIZE_MAX\<close> bytes succeeds: rounding to words wraps to zero, so \<open>GC_malloc\<close> returns an
  object without room for a single byte instead of running out of memory.
\<close>

theorem malloc_huge_wraps:
  assumes "large_wf g cs" and "first_fit sizeof_Object cs = Some i" and "80 \<le> cell_size (cs ! i)"
    and "2 ^ 64 - 7 \<le> sz" "sz < 2 ^ 64"
  shows "\<exists>g' cs'. GC_malloc env g sz = ret (g', large_heap_start (global g) + extent (take i cs) + sizeof_Chunk) \<and>
    large_wf g' cs' \<and> take i cs' = take i cs \<and> cell_allocated (cs' ! i) \<and> cell_size (cs' ! i) = sizeof_Object"
proof -
  have fit: "first_fit (0 + 16) cs = Some i" using assms(2) by simp
  have wf: "large_wf (GC_lock g) cs" using assms(1) by (simp only: large_wf_lock)
  have st: "large_heap_start (global (GC_lock g)) = large_heap_start (global g)" by (simp add: GC_lock_def)
  obtain cl m where t: "GlobalAllocator_tryAllocateLarge (GC_lock g) 0 0 =
      ret (with_large (GC_lock g) cl 0 m, large_heap_start (global g) + extent (take i cs) + 32)"
    "large_wf (with_large (GC_lock g) cl 0 m) (fill 16 0 i cs)"
    using tryAllocateLarge_spec(2) [OF wf _ _ fit, of 0] unfolding st by auto
  let ?g = "GC_unlock (with_large (GC_lock g) cl 0 m)"
  have "GC_malloc env g sz = ret (?g, large_heap_start (global g) + extent (take i cs) + 32)"
    using assms(4) t(1) by (simp add: GC_malloc_def GC_malloc_with_atomic_def GlobalAllocator_allocateLarge_def round_wraps [OF assms(4,5)] Let_def
        del: WORD_SIZE_def)
  moreover have "large_wf ?g (fill 16 0 i cs)" using t(2) by (simp only: large_wf_lock)
  moreover have "i < length cs" using first_fit_Some [OF assms(2)] by blast
  moreover from this have "take i (fill 16 0 i cs) = take i cs" "cell_allocated (fill 16 0 i cs ! i)" "cell_size (fill 16 0 i cs ! i) = 16"
    using assms(3) by (simp_all add: fill_def take_cell_def split_cell_def nth_append)
  ultimately show ?thesis by auto
qed

theorem malloc_huge_wraps_witness:
  "\<exists>g g'. sample_init = ret g \<and> GC_malloc (sample_program 4096 4104) g (2 ^ 64 - 1) = ret (g', large_heap_start (global g) + 32)"
proof -
  obtain g where g: "sample_init = ret g" "gc_ok g 128 {} {} [free_cell 4194288]" by (rule sample_started)
  have "large_wf g [free_cell 4194288]" using g(2) heap_okD(1) by (auto simp: gc_ok_def)
  from malloc_huge_wraps [OF this, of 0 "2 ^ 64 - 1" "sample_program 4096 4104"] g(1) show ?thesis
    by (auto simp: unfit_def free_cell_def)
qed

text \<open>
  C30. A defect. \<open>GC_FREE_SPACE_DIVISOR\<close> set to something that is not a number is read as zero, not as the default, and
  the first allocation that asks whether to collect divides by it: the process ends with \<open>SIGFPE\<close>.
\<close>

theorem divisor_not_a_number:
  assumes "getenv ''GC_FREE_SPACE_DIVISOR'' = Some (c # cs)" and "\<not> c_isspace c" "c \<noteq> CHR ''-''" "c \<noteq> CHR ''+''" "\<not> c_isdigit c"
    and "free_space_divisor (global g) = GC_freeSpaceDivisor getenv 0" and "\<not> is_collecting g"
  shows "GlobalAllocator_tryCollect collect g = abort_with ''SIGFPE''"
proof -
  have "take_sign (c # cs) = (False, c # cs)" using assms(3,4) by (cases "c # cs" rule: take_sign.cases) auto
  then have "strtoul (c # cs) 0 = (0, c # cs, 0)" using assms(2,5) by (simp add: strtoul_def)
  then have "free_space_divisor (global g) = 0"
    using assms(1,6) by (simp add: GC_freeSpaceDivisor_def GC_getIntegerFromEnvironmentVariable_def ERANGE_def)
  then show ?thesis using assms(7) by (simp add: GlobalAllocator_tryCollect_def GC_is_collecting_def)
qed

theorem divisor_not_a_number_witness:
  "GlobalAllocator_tryCollect ret (stale_state\<lparr>is_collecting := False,
      global := (global stale_state)\<lparr>free_space_divisor := GC_freeSpaceDivisor (\<lambda>_. Some ''abc'') 0\<rparr>\<rparr>) = abort_with ''SIGFPE''"
  by (rule divisor_not_a_number [of "\<lambda>_. Some ''abc''" "CHR ''a''" "''bc''"]) (simp_all add: c_isspace_def c_isdigit_def)

end
